(* ===== verification/Prelude.thy ===== *)
theory Prelude
  imports Main "HOL-Library.Word"
begin

text \<open>
  What the components share: bytes as characters of \<open>0 .. 255\<close>, the C string tests the
  sources use (\<open>strncmp\<close> prefixes, \<open>strchr\<close>, \<open>strspn\<close>, hexadecimal digits
  as printed by \<open>snprintf "%02x"\<close>), generic facts on \<open>takeWhile\<close>/\<open>dropWhile\<close>,
  option and prefix reasoning, and the collections of rules the component proofs use:
  \<open>posix_simps\<close> (results of system calls), \<open>inv_intros\<close> (operations that keep an
  invariant) and \<open>name_rules\<close> (facts about accepted file names).
\<close>

named_theorems posix_simps
named_theorems inv_intros
named_theorems name_rules

section \<open>Bytes and C strings\<close>

text \<open>A C string is the list of its bytes before the terminating NUL.\<close>

abbreviation byte :: "char \<Rightarrow> nat" where
  "byte c \<equiv> of_char c"

definition cstr :: "string \<Rightarrow> bool" where
  "cstr s \<longleftrightarrow> CHR 0x00 \<notin> set s"

lemma byte_less [simp]: "byte c < 256"
  by (metis of_char_mod_256 mod_less_divisor zero_less_numeral)

lemma byte_le [simp]: "byte c \<le> 255"
  using byte_less [of c] by linarith

lemma byte_inj: "byte c = byte d \<Longrightarrow> c = d"
  by simp

lemma char_of_byte [simp]: "char_of (byte c) = c"
  by simp

lemma byte_char_of [simp]: "n < 256 \<Longrightarrow> byte (char_of n) = n"
  by simp

lemma char_of_eq_iff: "char_of n = c \<longleftrightarrow> n mod 256 = byte c"
  by (metis char_of_mod_256 of_char_of char_of_char)

definition has_prefix :: "string \<Rightarrow> string \<Rightarrow> bool" where
  "has_prefix p s \<longleftrightarrow> take (length p) s = p"

lemma has_prefix_append [simp]: "has_prefix p (p @ s)"
  by (simp add: has_prefix_def)

lemma has_prefix_iff: "has_prefix p s \<longleftrightarrow> (\<exists>t. s = p @ t)"
  unfolding has_prefix_def by (metis append_eq_conv_conj append_take_drop_id)

lemma has_prefix_length: "has_prefix p s \<Longrightarrow> length p \<le> length s"
  by (auto simp: has_prefix_iff)

section \<open>Hexadecimal\<close>

text \<open>The digits \<open>snprintf\<close> writes for \<open>%02x\<close>.\<close>

definition hex_digit :: "nat \<Rightarrow> char" where
  "hex_digit n = (if n < 10 then char_of (48 + n) else char_of (87 + n))"

definition hex_byte :: "nat \<Rightarrow> string" where
  "hex_byte b = [hex_digit (b div 16), hex_digit (b mod 16)]"

definition hex_bytes :: "nat list \<Rightarrow> string" where
  "hex_bytes bs = concat (map hex_byte bs)"

definition lower_hex :: "char \<Rightarrow> bool" where
  "lower_hex c \<longleftrightarrow> (byte c \<ge> 97 \<and> byte c \<le> 102) \<or> (byte c \<ge> 48 \<and> byte c \<le> 57)"

lemma hex_digit_lower: "n < 16 \<Longrightarrow> lower_hex (hex_digit n)"
  by (auto simp: hex_digit_def lower_hex_def)

lemma length_hex_bytes [simp]: "length (hex_bytes bs) = 2 * length bs"
  by (induction bs) (auto simp: hex_bytes_def hex_byte_def)

lemma hex_bytes_lower: "\<forall>b \<in> set bs. b < 256 \<Longrightarrow> \<forall>c \<in> set (hex_bytes bs). lower_hex c"
  by (auto simp: hex_bytes_def hex_byte_def intro!: hex_digit_lower)

lemma hex_digit_inj: "m < 16 \<Longrightarrow> n < 16 \<Longrightarrow> hex_digit m = hex_digit n \<Longrightarrow> m = n"
  by (auto simp: hex_digit_def split: if_splits dest: arg_cong [where f = byte])

section \<open>Lists\<close>

lemma dropWhile_shorter: "length (dropWhile p xs) \<le> length xs"
  by (rule length_dropWhile_le)

lemma takeWhile_dropWhile_length:
  "length (takeWhile p xs) + length (dropWhile p xs) = length xs"
  by (metis length_append takeWhile_dropWhile_id)

lemma takeWhile_append_stop:
  "\<forall>x \<in> set xs. p x \<Longrightarrow> \<not> p y \<Longrightarrow> takeWhile p (xs @ y # ys) = xs"
  by (induction xs) auto

lemma dropWhile_append_stop:
  "\<forall>x \<in> set xs. p x \<Longrightarrow> \<not> p y \<Longrightarrow> dropWhile p (xs @ y # ys) = y # ys"
  by (induction xs) auto

lemma update_same_length: "length (xs[i := x]) = length xs"
  by simp

lemma take_3: "3 \<le> length xs \<Longrightarrow> take 3 xs = [xs ! 0, xs ! 1, xs ! 2]"
  by (cases xs; cases "tl xs"; cases "tl (tl xs)") (auto simp: numeral_3_eq_3 numeral_2_eq_2)

lemma restrict_map_UNIV [simp]: "m |` UNIV = m"
  by (simp add: restrict_map_def)

section \<open>Splitting\<close>

text \<open>
  \<open>split_on p xs\<close>: the segments of \<open>xs\<close> between elements that satisfy \<open>p\<close>,
  as \<open>strsep\<close> walks a path. There is always at least one segment.
\<close>

fun split_on :: "('a \<Rightarrow> bool) \<Rightarrow> 'a list \<Rightarrow> 'a list list" where
  "split_on p [] = [[]]"
| "split_on p (x # xs) =
     (if p x then [] # split_on p xs
      else (case split_on p xs of [] \<Rightarrow> [[x]] | seg # segs \<Rightarrow> (x # seg) # segs))"

lemma split_on_not_Nil [simp]: "split_on p xs \<noteq> []"
  by (cases xs) (auto split: list.splits)

lemma split_on_none: "\<forall>x \<in> set xs. \<not> p x \<Longrightarrow> split_on p xs = [xs]"
  by (induction xs) auto

lemma split_on_append_sep:
  "\<forall>x \<in> set xs. \<not> p x \<Longrightarrow> p y \<Longrightarrow> split_on p (xs @ y # ys) = xs # split_on p ys"
  by (induction xs) auto

lemma split_on_segments: "\<forall>seg \<in> set (split_on p xs). \<forall>x \<in> set seg. \<not> p x"
  by (induction xs) (auto split: list.splits)

lemma split_on_decomp:
  "split_on p xs = takeWhile (\<lambda>x. \<not> p x) xs #
     (case dropWhile (\<lambda>x. \<not> p x) xs of [] \<Rightarrow> [] | _ # ys \<Rightarrow> split_on p ys)"
  by (induction xs) (auto split: list.splits)

lemma split_on_dropWhile:
  "\<not> Q [] \<Longrightarrow> filter Q (split_on p (dropWhile p xs)) = filter Q (split_on p xs)"
  by (induction xs) auto

end
