(* ===== verification/Drop.thy ===== *)
theory Drop
  imports Prelude
begin

text \<open>
  The drop component, \<open>src/client/drop.c\<close>: the parser of the \<open>text/uri-list\<close>
  payload of a drag, and the pending batch of dropped paths that the composer takes.
  Its three file-scope variables are the record \<open>drop_state\<close>. A \<open>ZcDrop\<close> is the
  list of its first \<open>count\<close> paths: the bytes behind \<open>count\<close> are never read. A buffer
  with a length is a character list; a C string is a \<open>string\<close>.
\<close>

section \<open>State and data\<close>

definition ZC_DROP_FILES :: nat where "ZC_DROP_FILES = 16"
definition ZC_DROP_PATH :: nat where "ZC_DROP_PATH = 4096"
definition ZC_DROP_BYTES :: nat where "ZC_DROP_BYTES = 256 * 1024"

type_synonym zc_drop = "string list"

record drop_state =
  rejected :: bool
  hovered :: bool
  pending :: zc_drop

definition drop_init :: drop_state where
  "drop_init = \<lparr>rejected = False, hovered = False, pending = []\<rparr>"

section \<open>Operations\<close>

definition zc_drop_pending :: "drop_state \<Rightarrow> bool" where
  "zc_drop_pending s = (length (pending s) \<noteq> 0)"

definition zc_drop_take :: "drop_state \<Rightarrow> zc_drop option \<times> drop_state" where
  "zc_drop_take s =
     (if length (pending s) = 0 then (None, s) else (Some (pending s), s\<lparr>pending := []\<rparr>))"

definition zc_drop_set_hovered :: "bool \<Rightarrow> drop_state \<Rightarrow> drop_state" where
  "zc_drop_set_hovered active s = s\<lparr>hovered := active\<rparr>"

definition zc_drop_hovered :: "drop_state \<Rightarrow> bool" where
  "zc_drop_hovered s = hovered s"

definition zc_drop_reject :: "drop_state \<Rightarrow> drop_state" where
  "zc_drop_reject s = s\<lparr>rejected := True\<rparr>"

definition zc_drop_take_error :: "drop_state \<Rightarrow> bool \<times> drop_state" where
  "zc_drop_take_error s = (rejected s, s\<lparr>rejected := False\<rparr>)"

text \<open>\<open>hex\<close>: the value of a hexadecimal digit, -1 for any other byte.\<close>

definition hex :: "char \<Rightarrow> int" where
  "hex c =
     (if byte c \<ge> 48 \<and> byte c \<le> 57 then int (byte c) - 48
      else if byte c \<ge> 97 \<and> byte c \<le> 102 then int (byte c) - 97 + 10
      else if byte c \<ge> 65 \<and> byte c \<le> 70 then int (byte c) - 65 + 10
      else -1)"

definition is_eol :: "char \<Rightarrow> bool" where
  "is_eol c \<longleftrightarrow> byte c = 13 \<or> byte c = 10"

definition is_control :: "char \<Rightarrow> bool" where
  "is_control c \<longleftrightarrow> byte c < 32 \<or> byte c = 127"

text \<open>
  The inner loop over the bytes of a line from \<open>start\<close>: the first argument is the line
  from index \<open>i\<close>, the second the bytes stored so far, so \<open>used\<close> is its length.
  \<open>i + 2 >= n\<close> is "fewer than two bytes follow". \<open>None\<close> is \<open>goto invalid\<close>.
\<close>

fun decode_path :: "char list \<Rightarrow> string \<Rightarrow> string option" where
  "decode_path [] path = Some path"
| "decode_path (c # rest) path =
     (if c = CHR ''%'' then
        (case rest of
           h # l # rest' \<Rightarrow>
             (if hex h < 0 \<or> hex l < 0 then None
              else let c' = char_of (nat (hex h * 16 + hex l)) in
                if is_control c' \<or> length path = ZC_DROP_PATH - 1 then None
                else decode_path rest' (path @ [c']))
         | _ \<Rightarrow> None)
      else if c = CHR ''?'' \<or> c = CHR ''#'' then None
      else if is_control c \<or> length path = ZC_DROP_PATH - 1 then None
      else decode_path rest (path @ [c]))"

text \<open>Where the path starts in a line: after the scheme, and after an empty or local host.\<close>

definition path_start :: "char list \<Rightarrow> nat" where
  "path_start line =
     (if length line \<ge> 7 \<and> line ! 6 = CHR ''/'' then
        (if length line \<ge> 17 \<and> has_prefix ''localhost/'' (drop 7 line) then 16 else 7)
      else 5)"

definition parse_uri :: "char list \<Rightarrow> string option" where
  "parse_uri line =
     (if length line < 6 \<or> \<not> has_prefix ''file:/'' line then None
      else let start = path_start line in
        if start \<ge> length line \<or> line ! start \<noteq> CHR ''/'' then None
        else decode_path (drop start line) [])"

lemma next_line_shorter:
  assumes "input \<noteq> []"
  shows "length (dropWhile is_eol (dropWhile (\<lambda>c. \<not> is_eol c) input)) < length input"
proof (cases input)
  case Nil
  with assms show ?thesis by simp
next
  case (Cons c cs)
  have "length (dropWhile is_eol (dropWhile (\<lambda>c. \<not> is_eol c) cs)) \<le> length cs"
    by (meson le_trans length_dropWhile_le)
  moreover have "length (dropWhile is_eol cs) \<le> length cs"
    by (rule length_dropWhile_le)
  ultimately show ?thesis using Cons by (cases "is_eol c") auto
qed

text \<open>The outer loop: the input from \<open>cursor\<close> and the paths stored so far.\<close>

function parse_lines :: "char list \<Rightarrow> zc_drop \<Rightarrow> zc_drop option" where
  "parse_lines input out =
     (if input = [] then Some out
      else let line = takeWhile (\<lambda>c. \<not> is_eol c) input;
               next = dropWhile is_eol (dropWhile (\<lambda>c. \<not> is_eol c) input) in
        if line = [] \<or> hd line = CHR ''#'' then parse_lines next out
        else if length out = ZC_DROP_FILES then None
        else (case parse_uri line of
                None \<Rightarrow> None
              | Some path \<Rightarrow> parse_lines next (out @ [path])))"
  by pat_completeness auto

termination
  by (relation "measure (\<lambda>(input, out). length input)") (auto simp: next_line_shorter)

declare parse_lines.simps [simp del]

text \<open>
  The whole parser: the return value, the out \<open>ZcDrop\<close> and the component's state
  (\<open>zc_drop_reject\<close> on failure).
\<close>

definition zc_drop_parse :: "char list \<Rightarrow> drop_state \<Rightarrow> bool \<times> zc_drop \<times> drop_state" where
  "zc_drop_parse input s =
     (if length input > ZC_DROP_BYTES \<or> CHR 0x00 \<in> set input then (False, [], zc_drop_reject s)
      else case parse_lines input [] of
        None \<Rightarrow> (False, [], zc_drop_reject s)
      | Some out \<Rightarrow> (True, out, s))"

definition zc_drop_offer :: "char list \<Rightarrow> drop_state \<Rightarrow> drop_state" where
  "zc_drop_offer input s =
     (case zc_drop_parse input (s\<lparr>hovered := False\<rparr>) of (_, out, s') \<Rightarrow> s'\<lparr>pending := out\<rparr>)"

text \<open>
  \<open>zc_drop_paths\<close>: \<open>paths\<close> holds at least \<open>count\<close> pointers, \<open>None\<close> for NULL.
  The loop leaves at the first bad path; a path is stored only after its checks.
\<close>

definition path_ok :: "string option \<Rightarrow> bool" where
  "path_ok p = (case p of
       None \<Rightarrow> False
     | Some path \<Rightarrow> has_prefix ''/'' path \<and> length path < ZC_DROP_PATH \<and>
         list_all (\<lambda>c. \<not> is_control c) path)"

definition zc_drop_paths :: "int \<Rightarrow> string option list \<Rightarrow> drop_state \<Rightarrow> drop_state" where
  "zc_drop_paths count paths s =
     (let s1 = s\<lparr>hovered := False, pending := []\<rparr> in
      if count \<le> 0 \<or> count > int ZC_DROP_FILES then zc_drop_reject s1
      else if list_all path_ok (take (nat count) paths)
        then s1\<lparr>pending := map the (take (nat count) paths)\<rparr>
        else zc_drop_reject s1)"

section \<open>What the parser accepts\<close>

text \<open>A path the composer may open: absolute, shorter than the buffer, printable.\<close>

definition valid_path :: "string \<Rightarrow> bool" where
  "valid_path p \<longleftrightarrow> has_prefix ''/'' p \<and> length p < ZC_DROP_PATH \<and> (\<forall>c \<in> set p. \<not> is_control c)"

definition valid_batch :: "zc_drop \<Rightarrow> bool" where
  "valid_batch ps \<longleftrightarrow> length ps \<le> ZC_DROP_FILES \<and> (\<forall>p \<in> set ps. valid_path p)"

lemma valid_batch_Nil [simp, inv_intros]: "valid_batch []"
  by (simp add: valid_batch_def)

lemma path_ok_iff: "path_ok p \<longleftrightarrow> (\<exists>path. p = Some path \<and> valid_path path)"
  by (auto simp: path_ok_def valid_path_def list_all_iff split: option.splits)

lemma decode_path_valid:
  assumes "decode_path cs path = Some p"
    and "length path < ZC_DROP_PATH" and "\<forall>c \<in> set path. \<not> is_control c"
  shows "has_prefix path p \<and> length p < ZC_DROP_PATH \<and> (\<forall>c \<in> set p. \<not> is_control c)"
  using assms
proof (induction cs path rule: decode_path.induct)
  case (2 c rest path)
  have ext: "has_prefix (path @ [d]) p \<Longrightarrow> has_prefix path p" for d
    by (auto simp: has_prefix_iff)
  show ?case
  proof (cases "c = CHR ''%''")
    case True
    with "2.prems"(1) obtain h l rest' where rest: "rest = h # l # rest'"
      by (auto split: list.splits)
    let ?c = "char_of (nat (hex h * 16 + hex l)) :: char"
    from True rest "2.prems"(1)
    have ok: "\<not> (is_control ?c \<or> length path = ZC_DROP_PATH - 1)"
      and dec: "decode_path rest' (path @ [?c]) = Some p"
      and hx: "\<not> (hex h < 0 \<or> hex l < 0)"
      by (auto simp: Let_def split: if_splits)
    have "length (path @ [?c]) < ZC_DROP_PATH" "\<forall>d \<in> set (path @ [?c]). \<not> is_control d"
      using ok "2.prems" by auto
    from "2.IH"(1) [OF True rest refl hx refl ok dec this] ext show ?thesis by blast
  next
    case False
    with "2.prems"(1) have ok: "\<not> (is_control c \<or> length path = ZC_DROP_PATH - 1)"
      and q: "\<not> (c = CHR ''?'' \<or> c = CHR ''#'')"
      and dec: "decode_path rest (path @ [c]) = Some p"
      by (auto split: if_splits)
    have "length (path @ [c]) < ZC_DROP_PATH" "\<forall>d \<in> set (path @ [c]). \<not> is_control d"
      using ok "2.prems" by auto
    from "2.IH"(2) [OF False q ok dec this] ext show ?thesis by blast
  qed
qed (auto simp: has_prefix_def)

lemma decode_path_slash:
  "decode_path (CHR ''/'' # cs) [] = decode_path cs ''/''"
  by (simp add: ZC_DROP_PATH_def is_control_def)

lemma parse_uri_valid:
  assumes "parse_uri line = Some p" shows "valid_path p"
proof -
  let ?i = "path_start line"
  from assms have i: "?i < length line" "line ! ?i = CHR ''/''"
    and dec: "decode_path (drop ?i line) [] = Some p"
    by (auto simp: parse_uri_def Let_def split: if_splits)
  from i have "drop ?i line = CHR ''/'' # drop (Suc ?i) line"
    by (simp add: Cons_nth_drop_Suc [symmetric])
  with dec have "decode_path (drop (Suc ?i) line) ''/'' = Some p"
    by (simp only: decode_path_slash)
  from decode_path_valid [OF this] show ?thesis
    by (simp add: valid_path_def ZC_DROP_PATH_def is_control_def)
qed

section \<open>The parser against its specification\<close>

text \<open>
  The specification of the list format: the lines that are neither empty nor comments, each
  of them a file URI, at most \<open>ZC_DROP_FILES\<close> of them.
\<close>

definition uri_lines :: "char list \<Rightarrow> char list list" where
  "uri_lines input = filter (\<lambda>l. l \<noteq> [] \<and> hd l \<noteq> CHR ''#'') (split_on is_eol input)"

definition uri_list_spec :: "char list \<Rightarrow> zc_drop option" where
  "uri_list_spec input =
     (let ps = map parse_uri (uri_lines input) in
      if length ps \<le> ZC_DROP_FILES \<and> None \<notin> set ps then Some (map the ps) else None)"

lemma uri_lines_Nil [simp]: "uri_lines [] = []"
  by (simp add: uri_lines_def)

lemma uri_lines_eol [simp]: "is_eol y \<Longrightarrow> uri_lines (y # ys) = uri_lines ys"
  by (simp add: uri_lines_def)

lemma uri_lines_skip_eol [simp]: "uri_lines (dropWhile is_eol xs) = uri_lines xs"
  by (simp add: uri_lines_def split_on_dropWhile)

lemma uri_lines_step:
  fixes input
  defines "line \<equiv> takeWhile (\<lambda>c. \<not> is_eol c) input"
    and "rest \<equiv> dropWhile (\<lambda>c. \<not> is_eol c) input"
  shows "uri_lines input =
    (if line = [] \<or> hd line = CHR ''#'' then [] else [line]) @ uri_lines (dropWhile is_eol rest)"
proof -
  have split: "split_on is_eol input =
    line # (case rest of [] \<Rightarrow> [] | _ # ys \<Rightarrow> split_on is_eol ys)"
    unfolding line_def rest_def by (rule split_on_decomp)
  show ?thesis
  proof (cases rest)
    case Nil
    then show ?thesis by (simp add: uri_lines_def [of input] split)
  next
    case (Cons y ys)
    then have "is_eol y"
      using hd_dropWhile [of "\<lambda>c. \<not> is_eol c" input] by (simp add: rest_def)
    with Cons show ?thesis
      by (simp only: uri_lines_skip_eol) (simp add: uri_lines_def split)
  qed
qed

lemma parse_lines_spec:
  "length out \<le> ZC_DROP_FILES \<Longrightarrow> parse_lines input out =
     (let ps = map parse_uri (uri_lines input) in
      if length out + length ps \<le> ZC_DROP_FILES \<and> None \<notin> set ps
      then Some (out @ map the ps) else None)"
proof (induction input out rule: parse_lines.induct)
  case (1 input out)
  note IH = "1.IH" and prem = "1.prems"
  let ?line = "takeWhile (\<lambda>c. \<not> is_eol c) input"
  let ?next = "dropWhile is_eol (dropWhile (\<lambda>c. \<not> is_eol c) input)"
  note step = uri_lines_step [of input] and rec = parse_lines.simps [of input out]
  consider "input = []" | "input \<noteq> []" "?line = [] \<or> hd ?line = CHR ''#''"
    | "input \<noteq> []" "\<not> (?line = [] \<or> hd ?line = CHR ''#'')" "length out = ZC_DROP_FILES"
    | "input \<noteq> []" "\<not> (?line = [] \<or> hd ?line = CHR ''#'')" "length out \<noteq> ZC_DROP_FILES"
    by blast
  then show ?case
  proof cases
    case 2
    have "parse_lines ?next out =
      (let ps = map parse_uri (uri_lines ?next) in
       if length out + length ps \<le> ZC_DROP_FILES \<and> None \<notin> set ps
       then Some (out @ map the ps) else None)"
      using 2 IH(1) [OF _ refl refl] prem by blast
    with 2 show ?thesis by (simp add: rec step Let_def del: uri_lines_skip_eol)
  next
    case 4
    show ?thesis
    proof (cases "parse_uri ?line")
      case None
      with 4 show ?thesis by (simp add: rec step Let_def del: uri_lines_skip_eol)
    next
      case (Some p)
      have "parse_lines ?next (out @ [p]) =
        (let ps = map parse_uri (uri_lines ?next) in
         if length (out @ [p]) + length ps \<le> ZC_DROP_FILES \<and> None \<notin> set ps
         then Some ((out @ [p]) @ map the ps) else None)"
        using 4 Some IH(2) [OF _ refl refl] prem by simp
      with 4 Some show ?thesis by (simp add: rec step Let_def del: uri_lines_skip_eol)
    qed
  next
    case 1
    with prem show ?thesis by (simp add: parse_lines.simps [of "[]" out])
  next
    case 3
    then show ?thesis by (simp add: rec step Let_def del: uri_lines_skip_eol)
  qed
qed

section \<open>Encoding: what a drag source sends\<close>

text \<open>
  \<open>escaped c s\<close>: \<open>s\<close> is a spelling of the byte \<open>c\<close> in a URI, either the byte
  itself or a percent escape with digits of either case. \<open>uri_of p u\<close>: \<open>u\<close> spells
  the absolute path \<open>p\<close>, its first slash written literally.
\<close>

definition escaped :: "char \<Rightarrow> string \<Rightarrow> bool" where
  "escaped c s \<longleftrightarrow> s = [c] \<and> c \<notin> set ''%?#'' \<or>
     (\<exists>h l. s = [CHR ''%'', h, l] \<and> 0 \<le> hex h \<and> 0 \<le> hex l \<and> hex h * 16 + hex l = int (byte c))"

definition uri_of :: "string \<Rightarrow> string \<Rightarrow> bool" where
  "uri_of p u \<longleftrightarrow> (\<exists>cs ss. p = CHR ''/'' # cs \<and> list_all2 escaped cs ss \<and> u = CHR ''/'' # concat ss)"

definition uri_line :: "string \<Rightarrow> string \<Rightarrow> string" where
  "uri_line host u = ''file://'' @ host @ u @ [CHR 0x0D, CHR 0x0A]"

lemma decode_path_escaped:
  assumes "list_all2 escaped cs ss" and "\<forall>c \<in> set cs. \<not> is_control c"
    and "length path + length cs < ZC_DROP_PATH"
  shows "decode_path (concat ss) path = Some (path @ cs)"
  using assms
proof (induction cs ss arbitrary: path rule: list_all2_induct)
  case Nil
  then show ?case by simp
next
  case (Cons c cs s ss)
  have rec: "decode_path (concat ss) (path @ [c]) = Some ((path @ [c]) @ cs)"
    using Cons by simp
  have room: "length path \<noteq> ZC_DROP_PATH - 1" "\<not> is_control c"
    using Cons.prems by auto
  from Cons.hyps(1) consider "s = [c]" "c \<notin> set ''%?#''"
    | h l where "s = [CHR ''%'', h, l]" "0 \<le> hex h" "0 \<le> hex l"
        "hex h * 16 + hex l = int (byte c)"
    by (auto simp: escaped_def)
  then show ?case
    by cases (use rec room in \<open>auto simp: Let_def\<close>)
qed

lemma hex_not_eol: "0 \<le> hex c \<Longrightarrow> \<not> is_eol c"
  by (auto simp: hex_def is_eol_def split: if_splits)

lemma escaped_not_eol: "escaped c s \<Longrightarrow> \<not> is_control c \<Longrightarrow> d \<in> set s \<Longrightarrow> \<not> is_eol d \<and> d \<noteq> CHR 0x00"
  by (auto simp: escaped_def is_control_def is_eol_def hex_not_eol)
    (auto simp: hex_def split: if_splits)

lemma escaped_chars:
  "list_all2 escaped cs ss \<Longrightarrow> \<forall>c \<in> set cs. \<not> is_control c \<Longrightarrow>
   \<forall>s \<in> set ss. \<forall>d \<in> set s. \<not> is_eol d \<and> d \<noteq> CHR 0x00"
  by (induction cs ss rule: list_all2_induct) (auto dest: escaped_not_eol)

lemma uri_of_chars:
  assumes "uri_of p u" and "valid_path p"
  shows "\<forall>d \<in> set u. \<not> is_eol d \<and> d \<noteq> CHR 0x00"
  using assms escaped_chars by (fastforce simp: uri_of_def valid_path_def is_eol_def)

lemma path_start_host:
  "path_start (''file://'' @ CHR ''/'' # cs) = 7"
  "path_start (''file://localhost'' @ CHR ''/'' # cs) = 16"
  by (simp_all add: path_start_def has_prefix_def)

lemma parse_uri_slash:
  "parse_uri (''file://'' @ CHR ''/'' # cs) = decode_path cs ''/''"
  "parse_uri (''file://localhost'' @ CHR ''/'' # cs) = decode_path cs ''/''"
  unfolding parse_uri_def path_start_host Let_def
  by (simp_all add: has_prefix_def decode_path_slash del: decode_path.simps)

lemma parse_uri_of:
  assumes "uri_of p u" and "valid_path p" and "host = [] \<or> host = ''localhost''"
  shows "parse_uri (''file://'' @ host @ u) = Some p"
proof -
  from assms(1) obtain cs ss where p: "p = CHR ''/'' # cs" and all: "list_all2 escaped cs ss"
    and u: "u = CHR ''/'' # concat ss"
    by (auto simp: uri_of_def)
  have "decode_path (concat ss) ''/'' = Some (''/'' @ cs)"
    using all assms(2) unfolding p valid_path_def
    by (intro decode_path_escaped) (auto simp: ZC_DROP_PATH_def)
  then have "parse_uri (''file://'' @ u) = Some p" "parse_uri (''file://localhost'' @ u) = Some p"
    unfolding u p
    by (simp_all only: append_Cons append_Nil parse_uri_slash [unfolded append_Cons append_Nil])
  then show ?thesis
    using assms(3) by (elim disjE) (simp_all only: append.simps append_Nil)
qed

lemma uri_line_chars:
  assumes "uri_of p u" and "valid_path p" and "host = [] \<or> host = ''localhost''"
  shows "\<forall>d \<in> set (''file://'' @ host @ u). \<not> is_eol d \<and> d \<noteq> CHR 0x00"
proof -
  have "\<forall>d \<in> set (''file://'' @ ''localhost''). \<not> is_eol d \<and> d \<noteq> CHR 0x00"
    by (simp add: is_eol_def)
  with assms(3) uri_of_chars [OF assms(1,2)] show ?thesis
    by (elim disjE; simp only: set_append append_Nil ball_Un; blast)
qed

lemma uri_lines_uri_line:
  assumes "uri_of p u" and "valid_path p" and "host = [] \<or> host = ''localhost''"
  shows "uri_lines (uri_line host u @ rest) = (''file://'' @ host @ u) # uri_lines rest"
proof -
  let ?line = "''file://'' @ host @ u"
  have chars: "\<forall>d \<in> set ?line. \<not> is_eol d"
    using uri_line_chars [OF assms] by blast
  have eol: "is_eol (CHR 0x0D)" "is_eol (CHR 0x0A)" by (simp_all add: is_eol_def)
  have "split_on is_eol (?line @ CHR 0x0D # CHR 0x0A # rest) =
    ?line # split_on is_eol (CHR 0x0A # rest)"
    by (rule split_on_append_sep [OF chars eol(1)])
  then show ?thesis
    by (simp add: uri_lines_def uri_line_def eol)
qed

text \<open>\<open>uris ps us\<close>: \<open>us\<close> are spellings of the paths, each with its own host part.\<close>

definition spells :: "string \<Rightarrow> string \<times> string \<Rightarrow> bool" where
  "spells p hu \<longleftrightarrow> (fst hu = [] \<or> fst hu = ''localhost'') \<and> uri_of p (snd hu)"

definition uri_text :: "(string \<times> string) list \<Rightarrow> char list" where
  "uri_text hus = concat (map (\<lambda>(host, u). uri_line host u) hus)"

lemma parse_uri_lines:
  "list_all2 spells ps hus \<Longrightarrow> \<forall>p \<in> set ps. valid_path p \<Longrightarrow>
   map parse_uri (uri_lines (uri_text hus)) = map Some ps"
proof (induction ps hus rule: list_all2_induct)
  case Nil
  then show ?case by (simp add: uri_text_def)
next
  case (Cons p ps hu hus)
  from Cons.hyps(1) Cons.prems have sp: "uri_of p (snd hu)" "valid_path p"
    "fst hu = [] \<or> fst hu = ''localhost''"
    by (auto simp: spells_def)
  have "uri_text (hu # hus) = uri_line (fst hu) (snd hu) @ uri_text hus"
    by (simp add: uri_text_def split_beta)
  with uri_lines_uri_line [OF sp] parse_uri_of [OF sp] Cons show ?case by simp
qed

lemma uri_text_chars:
  "list_all2 spells ps hus \<Longrightarrow> \<forall>p \<in> set ps. valid_path p \<Longrightarrow> CHR 0x00 \<notin> set (uri_text hus)"
proof (induction ps hus rule: list_all2_induct)
  case (Cons p ps hu hus)
  from Cons.hyps(1) Cons.prems have sp: "uri_of p (snd hu)" "valid_path p"
    "fst hu = [] \<or> fst hu = ''localhost''"
    by (auto simp: spells_def)
  have "uri_text (hu # hus) = uri_line (fst hu) (snd hu) @ uri_text hus"
    by (simp add: uri_text_def split_beta)
  with uri_line_chars [OF sp] Cons show ?case by (auto simp: uri_line_def)
qed (simp add: uri_text_def)

section \<open>Runs of the component\<close>

datatype drop_op =
    OpOffer "char list"
  | OpPaths int "string option list"
  | OpTake
  | OpReject
  | OpTakeError
  | OpHover bool

fun drop_step :: "drop_state \<Rightarrow> drop_op \<Rightarrow> drop_state" where
  "drop_step s (OpOffer input) = zc_drop_offer input s"
| "drop_step s (OpPaths count paths) = zc_drop_paths count paths s"
| "drop_step s OpTake = snd (zc_drop_take s)"
| "drop_step s OpReject = zc_drop_reject s"
| "drop_step s OpTakeError = snd (zc_drop_take_error s)"
| "drop_step s (OpHover active) = zc_drop_set_hovered active s"

lemma zc_drop_parse_eq:
  "zc_drop_parse input s =
     (case (if length input \<le> ZC_DROP_BYTES \<and> CHR 0x00 \<notin> set input then uri_list_spec input else None) of
        None \<Rightarrow> (False, [], zc_drop_reject s)
      | Some out \<Rightarrow> (True, out, s))"
  using parse_lines_spec [of "[]" input]
  by (auto simp: zc_drop_parse_def uri_list_spec_def Let_def split: option.splits)

lemma uri_list_spec_valid: "uri_list_spec input = Some ps \<Longrightarrow> valid_batch ps"
  by (auto simp: uri_list_spec_def valid_batch_def Let_def split: if_splits)
    (metis image_eqI option.exhaust_sel parse_uri_valid)

lemma zc_drop_parse_valid [inv_intros]:
  "zc_drop_parse input s = (ok, out, s') \<Longrightarrow> valid_batch out"
  by (auto simp: zc_drop_parse_eq uri_list_spec_valid split: option.splits if_splits)

lemma zc_drop_paths_pending:
  "pending (zc_drop_paths count paths s) =
    (if 0 < count \<and> count \<le> int ZC_DROP_FILES \<and> list_all path_ok (take (nat count) paths)
     then map the (take (nat count) paths) else [])"
  by (simp add: zc_drop_paths_def zc_drop_reject_def Let_def)

lemma zc_drop_paths_valid [inv_intros]: "valid_batch (pending (zc_drop_paths count paths s))"
  by (auto simp: zc_drop_paths_pending valid_batch_def list_all_iff path_ok_iff)

lemma drop_step_valid [inv_intros]:
  "valid_batch (pending s) \<Longrightarrow> valid_batch (pending (drop_step s e))"
proof (cases e)
  case (OpOffer input)
  then show ?thesis
    by (auto simp: zc_drop_offer_def split: prod.splits dest: zc_drop_parse_valid)
qed (auto simp: zc_drop_take_def zc_drop_reject_def zc_drop_take_error_def
       zc_drop_set_hovered_def intro: inv_intros)

section \<open>Properties\<close>

text \<open>
  C30: However the component is driven (offers with any bytes, path lists of any count,
  takes, hover changes, in any order), the pending batch the composer takes holds at most
  16 paths, each absolute, at most 4095 bytes long and free of control bytes (so of NUL).
\<close>

theorem drop_pending_always_valid:
  "valid_batch (pending (foldl drop_step drop_init es))"
proof -
  have "valid_batch (pending s) \<Longrightarrow> valid_batch (pending (foldl drop_step s es))" for s
    by (induction es arbitrary: s) (auto intro: inv_intros)
  then show ?thesis by (simp add: drop_init_def)
qed

text \<open>
  C29: \<open>zc_drop_parse\<close> is its specification: the payload is accepted exactly when it
  is at most 256 KiB without NUL, has at most 16 lines that are neither empty nor comments,
  and each of them is a file URI; then the output is their paths in order, and otherwise
  the output is empty and the error flag is set.
\<close>

theorem zc_drop_parse_refines_spec:
  "zc_drop_parse input s =
     (if length input \<le> ZC_DROP_BYTES \<and> CHR 0x00 \<notin> set input \<and>
         length (uri_lines input) \<le> ZC_DROP_FILES \<and>
         (\<forall>l \<in> set (uri_lines input). parse_uri l \<noteq> None)
      then (True, map (the \<circ> parse_uri) (uri_lines input), s)
      else (False, [], s\<lparr>rejected := True\<rparr>))"
proof -
  have "None \<notin> set (map parse_uri ls) \<longleftrightarrow> (\<forall>l \<in> set ls. parse_uri l \<noteq> None)" for ls
    by (induction ls) auto
  then show ?thesis
    by (simp add: zc_drop_parse_eq uri_list_spec_def zc_drop_reject_def Let_def)
qed

theorem zc_drop_parse_refines_spec_witness:
  "zc_drop_parse (''file:///a%20b'' @ [CHR 0x0A]) drop_init = (True, [''/a b''], drop_init)"
  by (subst zc_drop_parse_refines_spec)
    (simp add: ZC_DROP_BYTES_def ZC_DROP_FILES_def ZC_DROP_PATH_def uri_lines_def is_eol_def
      parse_uri_def path_start_def has_prefix_def hex_def is_control_def Let_def char_of_eq_iff)

text \<open>
  C5: Round trip. Any batch of at most 16 valid paths, written as file URIs by any drag
  source (any byte escaped or not, digits of either case, an empty host or localhost), is
  parsed back to exactly these paths and becomes the pending batch.
\<close>

theorem zc_drop_offer_roundtrip:
  assumes "list_all2 spells ps hus" and "\<forall>p \<in> set ps. valid_path p"
    and "length ps \<le> ZC_DROP_FILES" and "length (uri_text hus) \<le> ZC_DROP_BYTES"
  shows "zc_drop_offer (uri_text hus) s = s\<lparr>hovered := False, pending := ps\<rparr>"
proof -
  have "uri_list_spec (uri_text hus) = Some ps"
    using parse_uri_lines [OF assms(1,2)] assms(3)
    by (auto simp: uri_list_spec_def comp_def)
  with uri_text_chars [OF assms(1,2)] assms(4) show ?thesis
    by (simp add: zc_drop_offer_def zc_drop_parse_eq)
qed

theorem zc_drop_offer_roundtrip_witness:
  "zc_drop_offer (uri_text [([], ''/a%20b''), (''localhost'', ''/%c3%A9'')]) drop_init =
     drop_init\<lparr>hovered := False, pending := [''/a b'', [CHR ''/'', CHR 0xC3, CHR 0xA9]]\<rparr>"
proof (rule zc_drop_offer_roundtrip)
  have "uri_of ''/a b'' ''/a%20b''"
    unfolding uri_of_def
    by (rule exI [of _ "''a b''"], rule exI [of _ "[''a'', ''%20'', ''b'']"])
      (simp add: escaped_def hex_def)
  moreover have "uri_of [CHR ''/'', CHR 0xC3, CHR 0xA9] ''/%c3%A9''"
    unfolding uri_of_def
    by (rule exI [of _ "[CHR 0xC3, CHR 0xA9]"], rule exI [of _ "[''%c3'', ''%A9'']"])
      (simp add: escaped_def hex_def)
  ultimately show "list_all2 spells [''/a b'', [CHR ''/'', CHR 0xC3, CHR 0xA9]]
    [([], ''/a%20b''), (''localhost'', ''/%c3%A9'')]"
    by (simp add: spells_def)
qed (simp_all add: valid_path_def has_prefix_def ZC_DROP_PATH_def is_control_def
  ZC_DROP_FILES_def ZC_DROP_BYTES_def uri_text_def uri_line_def)

end
