(* ===== verification/Posix.thy ===== *)
theory Posix
  imports Prelude "HOL-Library.AList"
begin

unbundle bit_operations_syntax

text \<open>
  The operating system interface of the C sources: an executable model of the part of POSIX
  they use. A \<open>world\<close> is an inode table, a descriptor table, the caller's user id, a
  clock and a script. Every system call first takes the next outcome of the script:
  \<open>Fail e\<close> makes it fail with \<open>e\<close> and no effect (the script cannot claim that a
  name is absent: \<open>ENOENT\<close> is always computed), \<open>Short n\<close> lets a
  \<open>read\<close> or \<open>write\<close> move at most \<open>n\<close> bytes, \<open>Ok\<close> (and an empty script)
  lets it run. A theorem over all worlds therefore holds for every pattern of failed,
  interrupted and partial calls; a script is finite, so a call is interrupted by signals
  only finitely often. Permission checks are not computed: a denial is \<open>Fail EACCES\<close>.
  Descriptor and inode numbers are never reused.
\<close>

section \<open>Inodes, descriptors, worlds\<close>

datatype errno = ENOENT | EEXIST | ENOTDIR | EISDIR | ELOOP | EACCES | EINTR | EAGAIN | EIO
  | ENOTEMPTY | EBADF | EINVAL | ENOSPC | ENAMETOOLONG | EMFILE | EXDEV | EPERM

type_synonym ino = nat
type_synonym fd = int
type_synonym mode = "32 word"

datatype node =
    Regular "char list"
  | Directory ino "(string \<times> ino) list"
  | Symlink string
  | Special

record inode =
  i_node :: node
  i_uid :: nat
  i_mode :: mode
  i_nlink :: nat
  i_mtime :: "int \<times> int"
  i_ctime :: "int \<times> int"

text \<open>An open file description: its inode, its offset, and whether it may write.\<close>

record ofile =
  f_ino :: ino
  f_pos :: nat
  f_wr :: bool

datatype outcome = Ok | Fail errno | Short nat

record world =
  w_inodes :: "ino \<Rightarrow> inode option"
  w_next :: ino
  w_root :: ino
  w_files :: "fd \<Rightarrow> ofile option"
  w_nextfd :: fd
  w_uid :: nat
  w_now :: "int \<times> int"
  w_script :: "outcome list"

datatype kind = S_REG | S_DIR | S_LNK | S_OTHER

record stat =
  st_ino :: ino
  st_kind :: kind
  st_mode :: mode
  st_uid :: nat
  st_nlink :: nat
  st_size :: int
  st_mtim :: "int \<times> int"
  st_ctim :: "int \<times> int"

fun kind_of :: "node \<Rightarrow> kind" where
  "kind_of (Regular _) = S_REG"
| "kind_of (Directory _ _) = S_DIR"
| "kind_of (Symlink _) = S_LNK"
| "kind_of Special = S_OTHER"

fun size_of :: "node \<Rightarrow> int" where
  "size_of (Regular bs) = int (length bs)"
| "size_of (Directory _ es) = int (length es)"
| "size_of (Symlink t) = int (length t)"
| "size_of Special = 0"

definition stat_of :: "ino \<Rightarrow> inode \<Rightarrow> stat" where
  "stat_of i nd = \<lparr>st_ino = i, st_kind = kind_of (i_node nd), st_mode = i_mode nd,
     st_uid = i_uid nd, st_nlink = i_nlink nd, st_size = size_of (i_node nd),
     st_mtim = i_mtime nd, st_ctim = i_ctime nd\<rparr>"

definition S_ISREG :: "stat \<Rightarrow> bool" where "S_ISREG st = (st_kind st = S_REG)"
definition S_ISDIR :: "stat \<Rightarrow> bool" where "S_ISDIR st = (st_kind st = S_DIR)"

text \<open>Octal masks as the sources write them: 077, 0777, 0700, 0600, 022 and \<open>S_ISVTX\<close>.\<close>

definition M077 :: mode where "M077 = 63"
definition M0777 :: mode where "M0777 = 511"
definition M0700 :: mode where "M0700 = 448"
definition M0600 :: mode where "M0600 = 384"
definition M022 :: mode where "M022 = 18"
definition S_ISVTX :: mode where "S_ISVTX = 512"

lemmas mode_defs = M077_def M0777_def M0700_def M0600_def M022_def S_ISVTX_def

section \<open>Looking names up\<close>

definition dir_of :: "world \<Rightarrow> ino \<Rightarrow> (ino \<times> (string \<times> ino) list) option" where
  "dir_of w i = (case w_inodes w i of None \<Rightarrow> None
     | Some nd \<Rightarrow> (case i_node nd of Directory p es \<Rightarrow> Some (p, es) | _ \<Rightarrow> None))"

definition entry :: "world \<Rightarrow> ino \<Rightarrow> string \<Rightarrow> ino option" where
  "entry w d name = (case dir_of w d of None \<Rightarrow> None | Some (_, es) \<Rightarrow> map_of es name)"

definition node_of :: "world \<Rightarrow> ino \<Rightarrow> node option" where
  "node_of w i = map_option i_node (w_inodes w i)"

definition components :: "string \<Rightarrow> string list" where
  "components path = split_on (\<lambda>c. c = CHR ''/'') path"

text \<open>
  Path walking with symbolic links followed, at most \<open>links\<close> of them; the result is the
  inode the components lead to.
\<close>

function walk :: "world \<Rightarrow> nat \<Rightarrow> ino \<Rightarrow> string list \<Rightarrow> errno + ino" where
  "walk w links d [] = Inr d"
| "walk w links d (c # cs) =
     (case dir_of w d of
        None \<Rightarrow> Inl ENOTDIR
      | Some (p, es) \<Rightarrow>
          if c = '''' \<or> c = ''.'' then walk w links d cs
          else if c = ''..'' then walk w links p cs
          else (case map_of es c of
              None \<Rightarrow> Inl ENOENT
            | Some i \<Rightarrow>
                (case node_of w i of
                   Some (Symlink t) \<Rightarrow>
                     if links = 0 then Inl ELOOP
                     else walk w (links - 1) (if has_prefix ''/'' t then w_root w else d)
                            (components t @ cs)
                 | _ \<Rightarrow> walk w links i cs)))"
  by pat_completeness auto
termination
  by (relation "measures [\<lambda>(w, links, d, cs). links, \<lambda>(w, links, d, cs). length cs]") auto

definition max_links :: nat where "max_links = 40"

definition fd_ino :: "world \<Rightarrow> fd \<Rightarrow> ino option" where
  "fd_ino w fd = map_option f_ino (w_files w fd)"

text \<open>The directory a path's last component lives in, and that component.\<close>

definition parent_of :: "world \<Rightarrow> fd \<Rightarrow> string \<Rightarrow> errno + ino \<times> string" where
  "parent_of w dirfd path =
     (if path = '''' then Inl ENOENT
      else if length (last (components path)) > 255 then Inl ENAMETOOLONG
      else case (if has_prefix ''/'' path then Some (w_root w) else fd_ino w dirfd) of
        None \<Rightarrow> Inl EBADF
      | Some start \<Rightarrow>
          (case walk w max_links start (butlast (components path)) of
             Inl e \<Rightarrow> Inl e
           | Inr d \<Rightarrow> if dir_of w d = None then Inl ENOTDIR
                      else Inr (d, last (components path))))"

section \<open>System calls\<close>

definition tick :: "world \<Rightarrow> outcome \<times> world" where
  "tick w = (case w_script w of [] \<Rightarrow> (Ok, w) | x # xs \<Rightarrow> (x, w\<lparr>w_script := xs\<rparr>))"

text \<open>\<open>syscall f\<close>: take an outcome, fail or run \<open>f\<close> with the byte limit, if any.\<close>

definition syscall :: "(nat option \<Rightarrow> world \<Rightarrow> (errno + 'a) \<times> world) \<Rightarrow> world \<Rightarrow> (errno + 'a) \<times> world" where
  "syscall f w = (case tick w of (x, w1) \<Rightarrow>
     (case x of Ok \<Rightarrow> f None w1
      | Fail e \<Rightarrow> (Inl (if e = ENOENT then EIO else e), w1) | Short n \<Rightarrow> f (Some n) w1))"

datatype oflag = O_RDONLY | O_WRONLY | O_RDWR | O_DIRECTORY | O_NOFOLLOW | O_CLOEXEC
  | O_NONBLOCK | O_CREAT | O_EXCL | O_TRUNC

definition new_fd :: "ino \<Rightarrow> bool \<Rightarrow> world \<Rightarrow> (errno + fd) \<times> world" where
  "new_fd i wr w =
     (Inr (w_nextfd w),
      w\<lparr>w_files := (w_files w)(w_nextfd w \<mapsto> \<lparr>f_ino = i, f_pos = 0, f_wr = wr\<rparr>),
        w_nextfd := w_nextfd w + 1\<rparr>)"

definition set_node :: "ino \<Rightarrow> node \<Rightarrow> world \<Rightarrow> world" where
  "set_node i n w = (case w_inodes w i of None \<Rightarrow> w
     | Some nd \<Rightarrow> w\<lparr>w_inodes := (w_inodes w)(i \<mapsto> nd\<lparr>i_node := n\<rparr>)\<rparr>)"

definition touch :: "ino \<Rightarrow> world \<Rightarrow> world" where
  "touch i w = (case w_inodes w i of None \<Rightarrow> w
     | Some nd \<Rightarrow> w\<lparr>w_inodes := (w_inodes w)(i \<mapsto> nd\<lparr>i_mtime := w_now w, i_ctime := w_now w\<rparr>)\<rparr>)"

definition add_nlink :: "int \<Rightarrow> ino \<Rightarrow> world \<Rightarrow> world" where
  "add_nlink k i w = (case w_inodes w i of None \<Rightarrow> w
     | Some nd \<Rightarrow> w\<lparr>w_inodes := (w_inodes w)(i \<mapsto> nd\<lparr>i_nlink := nat (int (i_nlink nd) + k)\<rparr>)\<rparr>)"

text \<open>Set or remove one entry of a directory.\<close>

definition set_entry :: "ino \<Rightarrow> string \<Rightarrow> ino option \<Rightarrow> world \<Rightarrow> world" where
  "set_entry d name target w = (case dir_of w d of None \<Rightarrow> w
     | Some (p, es) \<Rightarrow> set_node d (Directory p
         (case target of None \<Rightarrow> AList.delete name es | Some i \<Rightarrow> AList.update name i es)) w)"

definition create_inode :: "ino \<Rightarrow> string \<Rightarrow> node \<Rightarrow> mode \<Rightarrow> world \<Rightarrow> ino \<times> world" where
  "create_inode d name n m w =
     (let i = w_next w;
          nd = \<lparr>i_node = n, i_uid = w_uid w, i_mode = m, i_nlink = 1,
                i_mtime = w_now w, i_ctime = w_now w\<rparr>
      in (i, set_entry d name (Some i)
               (w\<lparr>w_inodes := (w_inodes w)(i \<mapsto> nd), w_next := i + 1\<rparr>)))"

definition open_inode :: "ino \<Rightarrow> oflag list \<Rightarrow> world \<Rightarrow> (errno + fd) \<times> world" where
  "open_inode i flags w =
     (let wr = (O_WRONLY \<in> set flags \<or> O_RDWR \<in> set flags) in
      case node_of w i of
        None \<Rightarrow> (Inl EIO, w)
      | Some (Directory p es) \<Rightarrow> if wr then (Inl EISDIR, w) else new_fd i False w
      | Some (Regular bs) \<Rightarrow>
          if O_DIRECTORY \<in> set flags then (Inl ENOTDIR, w)
          else if wr \<and> O_TRUNC \<in> set flags then new_fd i wr (touch i (set_node i (Regular []) w))
          else new_fd i wr w
      | Some (Symlink t) \<Rightarrow> (Inl ELOOP, w)
      | Some Special \<Rightarrow> if O_DIRECTORY \<in> set flags then (Inl ENOTDIR, w) else new_fd i wr w)"

definition sys_openat :: "fd \<Rightarrow> string \<Rightarrow> oflag list \<Rightarrow> mode \<Rightarrow> world \<Rightarrow> (errno + fd) \<times> world" where
  "sys_openat dirfd path flags m = syscall (\<lambda>_ w.
     case parent_of w dirfd path of
       Inl e \<Rightarrow> (Inl e, w)
     | Inr (d, name) \<Rightarrow>
         if name = '''' \<or> name = ''.'' then
           (if O_CREAT \<in> set flags then (Inl EISDIR, w) else open_inode d flags w)
         else if name = ''..'' then
           (if O_CREAT \<in> set flags then (Inl EISDIR, w)
            else case dir_of w d of None \<Rightarrow> (Inl ENOTDIR, w) | Some (p, _) \<Rightarrow> open_inode p flags w)
         else case entry w d name of
           None \<Rightarrow>
             if O_CREAT \<in> set flags then
               (case create_inode d name (Regular []) m w of (i, w1) \<Rightarrow> open_inode i flags w1)
             else (Inl ENOENT, w)
         | Some i \<Rightarrow>
             if O_CREAT \<in> set flags \<and> O_EXCL \<in> set flags then (Inl EEXIST, w)
             else (case node_of w i of
                 Some (Symlink t) \<Rightarrow>
                   if O_NOFOLLOW \<in> set flags then
                     (Inl (if O_DIRECTORY \<in> set flags then ENOTDIR else ELOOP), w)
                   else (case walk w max_links d [name] of
                       Inl e \<Rightarrow> (Inl e, w) | Inr j \<Rightarrow> open_inode j flags w)
               | _ \<Rightarrow> open_inode i flags w))"

text \<open>\<open>open\<close> of an absolute path; the descriptor is not used.\<close>

definition sys_open :: "string \<Rightarrow> oflag list \<Rightarrow> mode \<Rightarrow> world \<Rightarrow> (errno + fd) \<times> world" where
  "sys_open path flags m = sys_openat (-100) path flags m"

definition sys_close :: "fd \<Rightarrow> world \<Rightarrow> world" where
  "sys_close fd w = w\<lparr>w_files := (w_files w)(fd := None)\<rparr>"

definition sys_fstat :: "fd \<Rightarrow> world \<Rightarrow> (errno + stat) \<times> world" where
  "sys_fstat fd = syscall (\<lambda>_ w.
     case fd_ino w fd of None \<Rightarrow> (Inl EBADF, w)
     | Some i \<Rightarrow> (case w_inodes w i of None \<Rightarrow> (Inl EBADF, w) | Some nd \<Rightarrow> (Inr (stat_of i nd), w)))"

text \<open>\<open>fstatat\<close> with \<open>AT_SYMLINK_NOFOLLOW\<close>.\<close>

definition sys_fstatat :: "fd \<Rightarrow> string \<Rightarrow> world \<Rightarrow> (errno + stat) \<times> world" where
  "sys_fstatat dirfd path = syscall (\<lambda>_ w.
     case parent_of w dirfd path of
       Inl e \<Rightarrow> (Inl e, w)
     | Inr (d, name) \<Rightarrow>
         (case (if name = '''' \<or> name = ''.'' then Some d
                else if name = ''..'' then map_option fst (dir_of w d)
                else entry w d name) of
            None \<Rightarrow> (Inl ENOENT, w)
          | Some i \<Rightarrow> (case w_inodes w i of None \<Rightarrow> (Inl EIO, w)
              | Some nd \<Rightarrow> (Inr (stat_of i nd), w))))"

definition file_bytes :: "world \<Rightarrow> ino \<Rightarrow> char list option" where
  "file_bytes w i = (case node_of w i of Some (Regular bs) \<Rightarrow> Some bs | _ \<Rightarrow> None)"

definition limited :: "nat option \<Rightarrow> nat \<Rightarrow> nat" where
  "limited lim n = (case lim of None \<Rightarrow> n | Some k \<Rightarrow> min k n)"

text \<open>\<open>read\<close>: at most \<open>n\<close> bytes from the offset; an empty result is the end of the file.\<close>

definition sys_read :: "fd \<Rightarrow> nat \<Rightarrow> world \<Rightarrow> (errno + char list) \<times> world" where
  "sys_read fd n = syscall (\<lambda>lim w.
     case w_files w fd of
       None \<Rightarrow> (Inl EBADF, w)
     | Some f \<Rightarrow>
         (case file_bytes w (f_ino f) of
            None \<Rightarrow> (Inl EISDIR, w)
          | Some bs \<Rightarrow>
              (let rest = drop (f_pos f) bs;
                   got = take (if rest = [] then 0 else max 1 (limited lim n)) (take n rest)
               in (Inr got, w\<lparr>w_files := (w_files w)(fd \<mapsto> f\<lparr>f_pos := f_pos f + length got\<rparr>)\<rparr>))))"

definition sys_pread :: "fd \<Rightarrow> nat \<Rightarrow> nat \<Rightarrow> world \<Rightarrow> (errno + char list) \<times> world" where
  "sys_pread fd n off = syscall (\<lambda>lim w.
     case w_files w fd of
       None \<Rightarrow> (Inl EBADF, w)
     | Some f \<Rightarrow>
         (case file_bytes w (f_ino f) of
            None \<Rightarrow> (Inl EISDIR, w)
          | Some bs \<Rightarrow>
              (let rest = drop off bs
               in (Inr (take (if rest = [] then 0 else max 1 (limited lim n)) (take n rest)), w))))"

text \<open>\<open>write\<close>: overwrite and extend at the offset; a gap is filled with NUL.\<close>

definition put_bytes :: "nat \<Rightarrow> char list \<Rightarrow> char list \<Rightarrow> char list" where
  "put_bytes pos new old = (if new = [] then old else
     take pos (old @ replicate (pos - length old) (CHR 0x00)) @ new @ drop (pos + length new) old)"

definition sys_write :: "fd \<Rightarrow> char list \<Rightarrow> world \<Rightarrow> (errno + nat) \<times> world" where
  "sys_write fd bytes = syscall (\<lambda>lim w.
     case w_files w fd of
       None \<Rightarrow> (Inl EBADF, w)
     | Some f \<Rightarrow>
         (case file_bytes w (f_ino f) of
            None \<Rightarrow> (Inl EBADF, w)
          | Some bs \<Rightarrow>
              if \<not> f_wr f then (Inl EBADF, w)
              else (let n = limited lim (length bytes) in
                (Inr n, touch (f_ino f) (set_node (f_ino f)
                   (Regular (put_bytes (f_pos f) (take n bytes) bs))
                   (w\<lparr>w_files := (w_files w)(fd \<mapsto> f\<lparr>f_pos := f_pos f + n\<rparr>)\<rparr>))))))"

definition sys_fsync :: "fd \<Rightarrow> world \<Rightarrow> (errno + unit) \<times> world" where
  "sys_fsync fd = syscall (\<lambda>_ w. if w_files w fd = None then (Inl EBADF, w) else (Inr (), w))"

definition sys_fchmod :: "fd \<Rightarrow> mode \<Rightarrow> world \<Rightarrow> (errno + unit) \<times> world" where
  "sys_fchmod fd m = syscall (\<lambda>_ w.
     case fd_ino w fd of None \<Rightarrow> (Inl EBADF, w)
     | Some i \<Rightarrow> (case w_inodes w i of None \<Rightarrow> (Inl EBADF, w)
         | Some nd \<Rightarrow> (Inr (), w\<lparr>w_inodes := (w_inodes w)(i \<mapsto> nd\<lparr>i_mode := m\<rparr>)\<rparr>)))"

definition sys_futimens :: "fd \<Rightarrow> world \<Rightarrow> (errno + unit) \<times> world" where
  "sys_futimens fd = syscall (\<lambda>_ w.
     case fd_ino w fd of None \<Rightarrow> (Inl EBADF, w) | Some i \<Rightarrow> (Inr (), touch i w))"

definition sys_mkdirat :: "fd \<Rightarrow> string \<Rightarrow> mode \<Rightarrow> world \<Rightarrow> (errno + unit) \<times> world" where
  "sys_mkdirat dirfd path m = syscall (\<lambda>_ w.
     case parent_of w dirfd path of
       Inl e \<Rightarrow> (Inl e, w)
     | Inr (d, name) \<Rightarrow>
         if name = '''' \<or> name = ''.'' \<or> name = ''..'' \<or> entry w d name \<noteq> None then (Inl EEXIST, w)
         else (Inr (), snd (create_inode d name (Directory d []) m w)))"

text \<open>\<open>unlinkat\<close> without flags removes a name of a file, with \<open>AT_REMOVEDIR\<close> an empty directory.\<close>

definition unlink_entry :: "ino \<Rightarrow> string \<Rightarrow> bool \<Rightarrow> world \<Rightarrow> (errno + unit) \<times> world" where
  "unlink_entry d name removedir w =
     (case entry w d name of
        None \<Rightarrow> (Inl ENOENT, w)
      | Some i \<Rightarrow>
          let removed = (Inr (), add_nlink (-1) i (set_entry d name None w)) in
          (case dir_of w i of
             Some (p, es) \<Rightarrow>
               if \<not> removedir then (Inl EISDIR, w)
               else if es \<noteq> [] then (Inl ENOTEMPTY, w)
               else removed
           | None \<Rightarrow> if removedir then (Inl ENOTDIR, w) else removed))"

definition sys_unlinkat :: "fd \<Rightarrow> string \<Rightarrow> bool \<Rightarrow> world \<Rightarrow> (errno + unit) \<times> world" where
  "sys_unlinkat dirfd path removedir = syscall (\<lambda>_ w.
     case parent_of w dirfd path of
       Inl e \<Rightarrow> (Inl e, w)
     | Inr (d, name) \<Rightarrow>
         if name = '''' \<or> name = ''.'' \<or> name = ''..'' then
           (Inl (if removedir then EINVAL else EISDIR), w)
         else unlink_entry d name removedir w)"

text \<open>\<open>renameat\<close> of a file within the two directories; an existing target is replaced.\<close>

definition rename_entry :: "ino \<Rightarrow> string \<Rightarrow> ino \<Rightarrow> string \<Rightarrow> world \<Rightarrow> (errno + unit) \<times> world" where
  "rename_entry a n1 b n2 w =
     (case entry w a n1 of
        None \<Rightarrow> (Inl ENOENT, w)
      | Some i \<Rightarrow>
          if dir_of w i \<noteq> None then (Inl EXDEV, w)
          else (case entry w b n2 of
              None \<Rightarrow> (Inr (), set_entry b n2 (Some i) (set_entry a n1 None w))
            | Some j \<Rightarrow>
                if i = j then (Inr (), w)
                else if dir_of w j \<noteq> None then (Inl EISDIR, w)
                else (Inr (), set_entry b n2 (Some i) (add_nlink (-1) j (set_entry a n1 None w)))))"

definition sys_renameat :: "fd \<Rightarrow> string \<Rightarrow> fd \<Rightarrow> string \<Rightarrow> world \<Rightarrow> (errno + unit) \<times> world" where
  "sys_renameat d1 p1 d2 p2 = syscall (\<lambda>_ w.
     case parent_of w d1 p1 of
       Inl e \<Rightarrow> (Inl e, w)
     | Inr (a, n1) \<Rightarrow>
         (case parent_of w d2 p2 of
            Inl e \<Rightarrow> (Inl e, w)
          | Inr (b, n2) \<Rightarrow> rename_entry a n1 b n2 w))"

text \<open>\<open>fcntl(F_DUPFD_CLOEXEC)\<close>, for directories and for files read by position.\<close>

definition sys_dup :: "fd \<Rightarrow> world \<Rightarrow> (errno + fd) \<times> world" where
  "sys_dup fd = syscall (\<lambda>_ w. case w_files w fd of
     None \<Rightarrow> (Inl EBADF, w) | Some f \<Rightarrow> new_fd (f_ino f) (f_wr f) w)"

text \<open>
  \<open>fdopendir\<close> and \<open>readdir\<close>: a directory stream is the list of names still to be
  returned, taken when the stream is opened, with the two dot entries first. \<open>readdir\<close>
  returns no name at the end (errno 0) and an error from the script.
\<close>

definition sys_fdopendir :: "fd \<Rightarrow> world \<Rightarrow> (errno + string list) \<times> world" where
  "sys_fdopendir fd = syscall (\<lambda>_ w.
     case fd_ino w fd of None \<Rightarrow> (Inl EBADF, w)
     | Some d \<Rightarrow> (case dir_of w d of None \<Rightarrow> (Inl ENOTDIR, w)
         | Some (_, es) \<Rightarrow> (Inr (''.'' # ''..'' # map fst es), w)))"

definition sys_readdir :: "string list \<Rightarrow> world \<Rightarrow> (errno + string option) \<times> world" where
  "sys_readdir names = syscall (\<lambda>_ w. case names of [] \<Rightarrow> (Inr None, w) | n # _ \<Rightarrow> (Inr (Some n), w))"

end
