(* ===== verification/PosixFacts.thy ===== *)
theory PosixFacts
  imports Posix
begin

text \<open>
  Facts on the operating system model: what each call reads and changes. The lookups depend
  on the disk and the descriptor table only; \<open>same_disk\<close> relates worlds with the same
  files; \<open>wf_fds\<close> says that descriptors not yet handed out are free. The destruction
  rules \<open>..._okD\<close> and \<open>..._errD\<close> say all there is to know about one call, so that a
  handler's proof is a case split on its calls.
\<close>

section \<open>Plain names\<close>

text \<open>A name that denotes an entry of a directory and nothing else.\<close>

definition plain_name :: "string \<Rightarrow> bool" where
  "plain_name n \<longleftrightarrow> n \<noteq> '''' \<and> n \<noteq> ''.'' \<and> n \<noteq> ''..'' \<and> CHR ''/'' \<notin> set n"

lemma plain_nameD [dest]:
  "plain_name n \<Longrightarrow> n \<noteq> '''' \<and> n \<noteq> ''.'' \<and> n \<noteq> ''..''"
  by (auto simp: plain_name_def)

lemma components_plain: "plain_name n \<Longrightarrow> components n = [n]"
  by (auto simp: plain_name_def components_def intro!: split_on_none)

lemma plain_not_absolute: "plain_name n \<Longrightarrow> \<not> has_prefix ''/'' n"
  by (cases n) (auto simp: plain_name_def has_prefix_def)

lemma parent_of_plain [posix_simps]:
  "plain_name n \<Longrightarrow> parent_of w dirfd n =
     (if length n > 255 then Inl ENAMETOOLONG
      else case fd_ino w dirfd of None \<Rightarrow> Inl EBADF
      | Some d \<Rightarrow> if dir_of w d = None then Inl ENOTDIR else Inr (d, n))"
  by (auto simp: parent_of_def components_plain plain_not_absolute split: option.splits)

section \<open>What lookups depend on\<close>

lemma dir_of_cong: "w_inodes w = w_inodes v \<Longrightarrow> dir_of w i = dir_of v i"
  by (simp add: dir_of_def)

lemma node_of_cong: "w_inodes w = w_inodes v \<Longrightarrow> node_of w i = node_of v i"
  by (simp add: node_of_def)

lemma entry_cong: "w_inodes w = w_inodes v \<Longrightarrow> entry w i n = entry v i n"
  by (simp add: entry_def dir_of_def)

lemma walk_cong:
  "w_inodes w = w_inodes v \<Longrightarrow> w_root w = w_root v \<Longrightarrow> walk w k d cs = walk v k d cs"
proof (induction w k d cs rule: walk.induct)
  case (1 w k d)
  then show ?case by simp
next
  case (2 w k d c cs)
  have d: "dir_of w = dir_of v" and n: "node_of w = node_of v"
    using "2.prems" by (auto intro: dir_of_cong node_of_cong)
  show ?case
    using 2 by (auto simp: d n split: option.splits node.splits)
qed

lemma parent_of_cong:
  assumes "w_inodes w = w_inodes v" "w_root w = w_root v" "w_files w = w_files v"
  shows "parent_of w fd p = parent_of v fd p"
proof -
  have d: "dir_of w = dir_of v" and f: "fd_ino w fd = fd_ino v fd"
    and k: "walk w = walk v"
    using assms by (auto simp: fd_ino_def intro!: dir_of_cong walk_cong)
  show ?thesis unfolding parent_of_def d f k assms(2) ..
qed

lemma lookups_script [simp]:
  "dir_of (w\<lparr>w_script := s\<rparr>) i = dir_of w i"
  "node_of (w\<lparr>w_script := s\<rparr>) i = node_of w i"
  "entry (w\<lparr>w_script := s\<rparr>) i n = entry w i n"
  "fd_ino (w\<lparr>w_script := s\<rparr>) fd = fd_ino w fd"
  "parent_of (w\<lparr>w_script := s\<rparr>) fd p = parent_of w fd p"
  "walk (w\<lparr>w_script := s\<rparr>) k d cs = walk w k d cs"
  by (auto simp: fd_ino_def intro: dir_of_cong node_of_cong entry_cong parent_of_cong walk_cong)

lemma entry_script [simp]: "entry (w\<lparr>w_script := s\<rparr>) = entry w"
  by (intro ext) simp

lemma lookups_files [simp]:
  "dir_of (w\<lparr>w_files := f\<rparr>) i = dir_of w i"
  "node_of (w\<lparr>w_files := f\<rparr>) i = node_of w i"
  "entry (w\<lparr>w_files := f\<rparr>) i n = entry w i n"
  "dir_of (w\<lparr>w_files := f, w_nextfd := k\<rparr>) i = dir_of w i"
  "node_of (w\<lparr>w_files := f, w_nextfd := k\<rparr>) i = node_of w i"
  "entry (w\<lparr>w_files := f, w_nextfd := k\<rparr>) i n = entry w i n"
  by (auto intro: dir_of_cong node_of_cong entry_cong)

section \<open>The frame of a call\<close>

definition same_disk :: "world \<Rightarrow> world \<Rightarrow> bool" where
  "same_disk w v \<longleftrightarrow> w_inodes v = w_inodes w \<and> w_root v = w_root w \<and> w_uid v = w_uid w \<and>
     w_next v = w_next w \<and> w_now v = w_now w"

definition fewer_faults :: "world \<Rightarrow> world \<Rightarrow> bool" where
  "fewer_faults w v \<longleftrightarrow> length (w_script v) \<le> length (w_script w)"

definition wf_fds :: "world \<Rightarrow> bool" where
  "wf_fds w \<longleftrightarrow> 0 \<le> w_nextfd w \<and> (\<forall>fd. w_nextfd w \<le> fd \<or> fd < 0 \<longrightarrow> w_files w fd = None)"

lemma same_disk_refl [simp]: "same_disk w w"
  by (simp add: same_disk_def)

lemma same_disk_trans [trans]: "same_disk u v \<Longrightarrow> same_disk v w \<Longrightarrow> same_disk u w"
  by (simp add: same_disk_def)

lemma same_disk_lookups:
  assumes "same_disk w v"
  shows "dir_of v i = dir_of w i" "node_of v i = node_of w i" "entry v i n = entry w i n"
    "w_inodes v i = w_inodes w i" "w_uid v = w_uid w" "w_inodes v = w_inodes w"
    "walk v k d cs = walk w k d cs" "w_root v = w_root w"
  using assms by (auto simp: same_disk_def intro: dir_of_cong node_of_cong entry_cong walk_cong)

lemma same_disk_script [simp]: "same_disk w (w\<lparr>w_script := s\<rparr>)"
  by (simp add: same_disk_def)

lemma same_disk_close [simp]: "same_disk w (sys_close fd v) = same_disk w v"
  by (simp add: same_disk_def sys_close_def)

lemma wf_fds_close [simp, intro]: "wf_fds w \<Longrightarrow> wf_fds (sys_close fd w)"
  by (auto simp: wf_fds_def sys_close_def)

lemma close_files [simp]: "w_files (sys_close fd w) = (w_files w)(fd := None)"
  by (simp add: sys_close_def)

lemma close_fields [simp]:
  "w_inodes (sys_close fd w) = w_inodes w" "w_uid (sys_close fd w) = w_uid w"
  "w_script (sys_close fd w) = w_script w" "w_nextfd (sys_close fd w) = w_nextfd w"
  "w_root (sys_close fd w) = w_root w"
  by (simp_all add: sys_close_def)

lemma close_lookups [simp]:
  "entry (sys_close fd w) = entry w" "dir_of (sys_close fd w) = dir_of w"
  "node_of (sys_close fd w) = node_of w"
  by (auto simp: sys_close_def entry_def dir_of_def node_of_def fun_eq_iff)

lemma wf_fds_fresh: "wf_fds w \<Longrightarrow> w_files w (w_nextfd w) = None"
  by (simp add: wf_fds_def)

lemma wf_fds_nonneg: "wf_fds w \<Longrightarrow> 0 \<le> w_nextfd w"
  by (simp add: wf_fds_def)

lemma files_upd_close: "wf_fds w \<Longrightarrow> (w_files w)(w_nextfd w := None) = w_files w"
  by (simp add: wf_fds_fresh fun_upd_idem)

text \<open>\<open>pops w v\<close>: \<open>v\<close> is \<open>w\<close> with one outcome taken from the script.\<close>

definition pops :: "world \<Rightarrow> world \<Rightarrow> bool" where
  "pops w v \<longleftrightarrow> v = w\<lparr>w_script := tl (w_script w)\<rparr>"

lemma popsD:
  assumes "pops w v"
  shows "same_disk w v" "w_files v = w_files w" "w_nextfd v = w_nextfd w"
    "fewer_faults w v" "wf_fds v = wf_fds w"
  using assms by (auto simp: pops_def fewer_faults_def wf_fds_def)

lemma syscall_cases:
  assumes "syscall f w = (r, v)"
  obtains (fail) e where "r = Inl e" "e \<noteq> ENOENT" "pops w v" "length (w_script v) < length (w_script w)"
  | (run) lim where "f lim (w\<lparr>w_script := tl (w_script w)\<rparr>) = (r, v)"
proof -
  show ?thesis
  proof (cases "w_script w")
    case Nil
    then have "w\<lparr>w_script := tl (w_script w)\<rparr> = w" by simp
    moreover have "f None w = (r, v)"
      using assms Nil by (simp add: syscall_def tick_def)
    ultimately show ?thesis using run [of None] by simp
  next
    case (Cons x xs)
    show ?thesis
    proof (cases x)
      case (Fail e)
      with assms Cons have "r = Inl (if e = ENOENT then EIO else e)" "pops w v"
        "length (w_script v) < length (w_script w)"
        by (auto simp: syscall_def tick_def pops_def)
      then show ?thesis by (intro fail [of "if e = ENOENT then EIO else e"]) auto
    qed (use assms Cons in \<open>auto simp: syscall_def tick_def intro: run\<close>)
  qed
qed

section \<open>Quiet calls and opened descriptors\<close>

text \<open>
  \<open>quiet w v\<close>: a call that changed neither disk nor descriptors. \<open>opened w v fd i wr\<close>:
  a call whose only effect is the new descriptor \<open>fd\<close> on inode \<open>i\<close>.
\<close>

definition quiet :: "world \<Rightarrow> world \<Rightarrow> bool" where
  "quiet w v \<longleftrightarrow> same_disk w v \<and> w_files v = w_files w \<and> w_nextfd v = w_nextfd w \<and> fewer_faults w v"

definition opened :: "world \<Rightarrow> world \<Rightarrow> fd \<Rightarrow> ino \<Rightarrow> bool \<Rightarrow> bool" where
  "opened w v fd i wr \<longleftrightarrow> same_disk w v \<and> fd = w_nextfd w \<and> w_nextfd v = w_nextfd w + 1 \<and>
     w_files v = (w_files w)(fd \<mapsto> \<lparr>f_ino = i, f_pos = 0, f_wr = wr\<rparr>) \<and> fewer_faults w v"

lemma quiet_refl [simp]: "quiet w w"
  by (simp add: quiet_def fewer_faults_def)

lemma quiet_trans: "quiet u v \<Longrightarrow> quiet v w \<Longrightarrow> quiet u w"
  by (auto simp: quiet_def fewer_faults_def same_disk_def)

lemma pops_quiet: "pops w v \<Longrightarrow> quiet w v"
  by (auto simp: quiet_def dest: popsD)

lemma quiet_script [simp]: "quiet w (w\<lparr>w_script := tl (w_script w)\<rparr>)"
  by (auto simp: quiet_def fewer_faults_def)

lemma quiet_wf: "quiet w v \<Longrightarrow> wf_fds w \<Longrightarrow> wf_fds v"
  by (auto simp: quiet_def wf_fds_def)

lemma quiet_lookups:
  assumes "quiet w v"
  shows "dir_of v i = dir_of w i" "node_of v i = node_of w i" "entry v i n = entry w i n"
    "w_inodes v = w_inodes w" "w_uid v = w_uid w" "fd_ino v fd = fd_ino w fd"
    "w_files v = w_files w" "w_nextfd v = w_nextfd w"
  using assms same_disk_lookups [of w v] by (auto simp: quiet_def fd_ino_def)

lemma quiet_entry: "quiet w v \<Longrightarrow> entry v = entry w"
  by (intro ext) (simp add: quiet_lookups)

lemma opened_wf: "opened w v fd i wr \<Longrightarrow> wf_fds w \<Longrightarrow> wf_fds v"
  by (auto simp: opened_def wf_fds_def)

lemma opened_nonneg: "opened w v fd i wr \<Longrightarrow> wf_fds w \<Longrightarrow> 0 \<le> fd"
  by (auto simp: opened_def wf_fds_def)

lemma opened_fresh: "opened w v fd i wr \<Longrightarrow> wf_fds w \<Longrightarrow> w_files w fd = None"
  by (auto simp: opened_def wf_fds_def)

lemma opened_lookups:
  assumes "opened w v fd i wr"
  shows "dir_of v j = dir_of w j" "node_of v j = node_of w j" "entry v j n = entry w j n"
    "w_inodes v = w_inodes w" "w_uid v = w_uid w" "fd_ino v fd = Some i"
    "w_files v fd = Some \<lparr>f_ino = i, f_pos = 0, f_wr = wr\<rparr>"
    "wf_fds w \<Longrightarrow> fd \<noteq> g \<Longrightarrow> fd_ino v g = fd_ino w g"
  using assms same_disk_lookups [of w v] by (auto simp: opened_def fd_ino_def)

lemma opened_quiet: "opened w v fd i wr \<Longrightarrow> quiet v u \<Longrightarrow> opened w u fd i wr"
  by (auto simp: opened_def quiet_def same_disk_def fewer_faults_def)

lemma quiet_opened: "quiet u w \<Longrightarrow> opened w v fd i wr \<Longrightarrow> opened u v fd i wr"
  by (auto simp: opened_def quiet_def same_disk_def fewer_faults_def)

text \<open>
  \<open>returned w v\<close>: everything opened since \<open>w\<close> is closed again and the disk is the
  same; only descriptor numbers and outcomes were used up.
\<close>

definition returned :: "world \<Rightarrow> world \<Rightarrow> bool" where
  "returned w v \<longleftrightarrow> same_disk w v \<and> w_files v = w_files w \<and> w_nextfd w \<le> w_nextfd v \<and>
     fewer_faults w v"

definition opened_up :: "world \<Rightarrow> world \<Rightarrow> fd \<Rightarrow> ino \<Rightarrow> bool" where
  "opened_up w v fd i \<longleftrightarrow> same_disk w v \<and> w_nextfd w \<le> fd \<and> fd < w_nextfd v \<and>
     w_files v = (w_files w)(fd \<mapsto> \<lparr>f_ino = i, f_pos = 0, f_wr = False\<rparr>) \<and> fewer_faults w v"

lemma quiet_returned: "quiet w v \<Longrightarrow> returned w v"
  by (simp add: quiet_def returned_def)

lemma returned_trans: "returned u v \<Longrightarrow> returned v w \<Longrightarrow> returned u w"
  by (auto simp: returned_def fewer_faults_def same_disk_def)

lemma returned_wf: "returned w v \<Longrightarrow> wf_fds w \<Longrightarrow> wf_fds v"
  by (auto simp: returned_def wf_fds_def)

lemma returned_lookups:
  assumes "returned w v"
  shows "dir_of v i = dir_of w i" "node_of v i = node_of w i" "entry v i n = entry w i n"
    "w_inodes v = w_inodes w" "w_uid v = w_uid w" "fd_ino v fd = fd_ino w fd"
    "w_files v = w_files w"
  using assms same_disk_lookups [of w v] by (auto simp: returned_def fd_ino_def)

lemma opened_closed: "opened w v fd i wr \<Longrightarrow> wf_fds w \<Longrightarrow> quiet v u \<Longrightarrow> returned w (sys_close fd u)"
  by (auto simp: opened_def quiet_def returned_def same_disk_def fewer_faults_def wf_fds_def
    sys_close_def fun_upd_idem)

lemma opened_opened_up: "opened w v fd i False \<Longrightarrow> opened_up w v fd i"
  by (auto simp: opened_def opened_up_def)

lemma returned_opened_up: "returned u w \<Longrightarrow> opened_up w v fd i \<Longrightarrow> opened_up u v fd i"
  by (auto simp: opened_up_def returned_def same_disk_def fewer_faults_def)

lemma opened_up_quiet: "opened_up w v fd i \<Longrightarrow> quiet v u \<Longrightarrow> opened_up w u fd i"
  by (auto simp: opened_up_def quiet_def same_disk_def fewer_faults_def)

lemma opened_up_wf: "opened_up w v fd i \<Longrightarrow> wf_fds w \<Longrightarrow> wf_fds v"
  by (auto simp: opened_up_def wf_fds_def)

lemma opened_up_nonneg: "opened_up w v fd i \<Longrightarrow> wf_fds w \<Longrightarrow> 0 \<le> fd"
  by (auto simp: opened_up_def wf_fds_def)

lemma opened_up_lookups:
  assumes "opened_up w v fd i"
  shows "dir_of v j = dir_of w j" "node_of v j = node_of w j" "entry v j n = entry w j n"
    "w_inodes v = w_inodes w" "w_uid v = w_uid w" "fd_ino v fd = Some i"
    "w_files v fd = Some \<lparr>f_ino = i, f_pos = 0, f_wr = False\<rparr>"
  using assms same_disk_lookups [of w v] by (auto simp: opened_up_def fd_ino_def)

lemma opened_up_closed:
  "opened_up w v fd i \<Longrightarrow> wf_fds w \<Longrightarrow> quiet v u \<Longrightarrow> returned w (sys_close fd u)"
  by (auto simp: opened_up_def quiet_def returned_def same_disk_def fewer_faults_def wf_fds_def
    sys_close_def fun_upd_idem)

lemma opened_opened_close:
  "wf_fds w \<Longrightarrow> opened w u dfd d wr \<Longrightarrow> opened u v fd i False \<Longrightarrow> opened_up w (sys_close dfd v) fd i"
  by (auto simp: opened_def opened_up_def same_disk_def fewer_faults_def wf_fds_def sys_close_def
    fun_eq_iff)

section \<open>Destruction rules\<close>

definition ro_flags :: "oflag list \<Rightarrow> bool" where
  "ro_flags fl \<longleftrightarrow> O_NOFOLLOW \<in> set fl \<and> O_CREAT \<notin> set fl \<and> O_TRUNC \<notin> set fl \<and>
     O_WRONLY \<notin> set fl \<and> O_RDWR \<notin> set fl"

lemma open_inode_ro:
  assumes "ro_flags fl"
  shows "open_inode i fl w = (r, v) \<Longrightarrow>
    (\<exists>e. r = Inl e \<and> e \<noteq> EINTR \<and> v = w) \<or>
    (r = Inr (w_nextfd w) \<and> (\<exists>n. node_of w i = Some n \<and> (\<forall>t. n \<noteq> Symlink t)) \<and>
      (O_DIRECTORY \<in> set fl \<longrightarrow> dir_of w i \<noteq> None) \<and> opened w v (w_nextfd w) i False)"
  using assms
  by (auto simp: open_inode_def ro_flags_def new_fd_def opened_def node_of_def dir_of_def
      same_disk_def fewer_faults_def Let_def split: option.splits node.splits if_splits)

lemma openat_ro_okD:
  assumes "sys_openat dfd n fl m w = (Inr fd, v)" and "ro_flags fl" and "plain_name n"
  shows "\<exists>d i. fd_ino w dfd = Some d \<and> dir_of w d \<noteq> None \<and> entry w d n = Some i \<and> length n \<le> 255 \<and>
    (\<exists>k. node_of w i = Some k \<and> (\<forall>t. k \<noteq> Symlink t)) \<and>
    (O_DIRECTORY \<in> set fl \<longrightarrow> dir_of w i \<noteq> None) \<and> opened w v fd i False"
  using assms(1) unfolding sys_openat_def
proof (cases rule: syscall_cases)
  case (run lim)
  have fl: "O_NOFOLLOW \<in> set fl" "O_CREAT \<notin> set fl" using assms(2) by (auto simp: ro_flags_def)
  let ?w = "w\<lparr>w_script := tl (w_script w)\<rparr>"
  from run assms(3) obtain d i where d: "length n \<le> 255" "fd_ino w dfd = Some d"
    "dir_of w d \<noteq> None" "entry w d n = Some i" and o: "open_inode i fl ?w = (Inr fd, v)"
    by (auto simp: posix_simps fl split: option.splits if_splits node.splits)
  from open_inode_ro [OF assms(2) o] d show ?thesis
    by (auto intro: quiet_opened [OF quiet_script])
qed auto

lemma openat_ro_errD:
  assumes "sys_openat dfd n fl m w = (Inl e, v)" and "ro_flags fl" and "plain_name n"
  shows "quiet w v"
  using assms(1) unfolding sys_openat_def
proof (cases rule: syscall_cases)
  case (run lim)
  have fl: "O_NOFOLLOW \<in> set fl" "O_CREAT \<notin> set fl" using assms(2) by (auto simp: ro_flags_def)
  let ?w = "w\<lparr>w_script := tl (w_script w)\<rparr>"
  from run assms(3) have "v = ?w \<or> (\<exists>i. open_inode i fl ?w = (Inl e, v))"
    by (auto simp: posix_simps fl split: option.splits if_splits node.splits)
  then show ?thesis
    using open_inode_ro [OF assms(2)] by fastforce
qed (auto intro: pops_quiet)

lemma fstat_okD:
  assumes "sys_fstat fd w = (Inr st, v)"
  shows "quiet w v \<and> (\<exists>i nd. fd_ino w fd = Some i \<and> w_inodes w i = Some nd \<and> st = stat_of i nd)"
  using assms unfolding sys_fstat_def
  by (cases rule: syscall_cases) (auto split: option.splits)

lemma fstat_errD:
  assumes "sys_fstat fd w = (Inl e, v)" shows "quiet w v"
  using assms unfolding sys_fstat_def
  by (cases rule: syscall_cases) (auto split: option.splits intro: pops_quiet)

lemma fstatat_okD:
  assumes "sys_fstatat dfd n w = (Inr st, v)" and "plain_name n"
  shows "quiet w v \<and> (\<exists>d i nd. fd_ino w dfd = Some d \<and> entry w d n = Some i \<and>
    w_inodes w i = Some nd \<and> st = stat_of i nd)"
  using assms unfolding sys_fstatat_def
  by (cases rule: syscall_cases) (auto simp: posix_simps split: option.splits if_splits)

lemma fstatat_errD:
  assumes "sys_fstatat dfd n w = (Inl e, v)" and "plain_name n" shows "quiet w v"
  using assms unfolding sys_fstatat_def
  by (cases rule: syscall_cases)
    (auto simp: posix_simps split: option.splits if_splits intro: pops_quiet)

lemma fstatat_ENOENT:
  assumes "sys_fstatat dfd n w = (Inl ENOENT, v)" and "plain_name n"
  shows "\<exists>d. fd_ino w dfd = Some d \<and> entry w d n = None"
  using assms unfolding sys_fstatat_def
  by (cases rule: syscall_cases) (auto simp: posix_simps split: option.splits if_splits)

lemma fsync_quiet: "sys_fsync fd w = (r, v) \<Longrightarrow> quiet w v"
  unfolding sys_fsync_def by (cases rule: syscall_cases) (auto split: if_splits intro: pops_quiet)

lemma readdir_quiet: "sys_readdir ns w = (r, v) \<Longrightarrow> quiet w v"
  unfolding sys_readdir_def by (cases rule: syscall_cases) (auto split: list.splits intro: pops_quiet)

lemma readdir_okD:
  "sys_readdir ns w = (Inr r, v) \<Longrightarrow> r = (case ns of [] \<Rightarrow> None | n # _ \<Rightarrow> Some n)"
  unfolding sys_readdir_def by (cases rule: syscall_cases) (auto split: list.splits)

lemma fdopendir_quiet: "sys_fdopendir fd w = (r, v) \<Longrightarrow> quiet w v"
  unfolding sys_fdopendir_def
  by (cases rule: syscall_cases) (auto split: option.splits intro: pops_quiet)

lemma fdopendir_okD:
  "sys_fdopendir fd w = (Inr ns, v) \<Longrightarrow>
   \<exists>d p es. fd_ino w fd = Some d \<and> dir_of w d = Some (p, es) \<and> ns = ''.'' # ''..'' # map fst es"
  unfolding sys_fdopendir_def
  by (cases rule: syscall_cases) (auto split: option.splits)

lemma dup_okD:
  assumes "sys_dup fd w = (Inr g, v)"
  shows "\<exists>f. w_files w fd = Some f \<and> opened w v g (f_ino f) (f_wr f)"
  using assms unfolding sys_dup_def
  by (cases rule: syscall_cases)
    (auto simp: new_fd_def opened_def same_disk_def fewer_faults_def split: option.splits)

lemma dup_errD: "sys_dup fd w = (Inl e, v) \<Longrightarrow> quiet w v"
  unfolding sys_dup_def
  by (cases rule: syscall_cases) (auto simp: new_fd_def split: option.splits intro: pops_quiet)

section \<open>Writing\<close>

text \<open>Owner, permission bits and kind of an inode.\<close>

definition attrs :: "world \<Rightarrow> ino \<Rightarrow> (nat \<times> mode \<times> kind) option" where
  "attrs w i = map_option (\<lambda>nd. (i_uid nd, i_mode nd, kind_of (i_node nd))) (w_inodes w i)"

definition same_env :: "world \<Rightarrow> world \<Rightarrow> bool" where
  "same_env w v \<longleftrightarrow> w_root v = w_root w \<and> w_uid v = w_uid w \<and> w_now v = w_now w"

text \<open>\<open>wrote w v fd bs\<close>: exactly the bytes \<open>bs\<close> were written at the descriptor's offset.\<close>

definition wrote :: "world \<Rightarrow> world \<Rightarrow> fd \<Rightarrow> char list \<Rightarrow> bool" where
  "wrote w v fd bs \<longleftrightarrow> (\<exists>f old. w_files w fd = Some f \<and> f_wr f \<and>
     file_bytes w (f_ino f) = Some old \<and>
     file_bytes v (f_ino f) = Some (put_bytes (f_pos f) bs old) \<and>
     w_files v = (w_files w)(fd \<mapsto> f\<lparr>f_pos := f_pos f + length bs\<rparr>) \<and>
     (\<forall>j. j \<noteq> f_ino f \<longrightarrow> w_inodes v j = w_inodes w j)) \<and>
   attrs v = attrs w \<and> entry v = entry w \<and> (\<forall>i. dir_of v i = dir_of w i) \<and>
   w_nextfd v = w_nextfd w \<and> w_next v = w_next w \<and> same_env w v \<and> fewer_faults w v"

definition writable :: "world \<Rightarrow> fd \<Rightarrow> bool" where
  "writable w fd \<longleftrightarrow> (\<exists>f. w_files w fd = Some f \<and> f_wr f \<and> file_bytes w (f_ino f) \<noteq> None)"

lemma contents_script [simp]:
  "file_bytes (w\<lparr>w_script := s\<rparr>) i = file_bytes w i" "attrs (w\<lparr>w_script := s\<rparr>) i = attrs w i"
  by (simp_all add: file_bytes_def attrs_def)

lemma close_contents [simp]:
  "file_bytes (sys_close fd w) = file_bytes w" "attrs (sys_close fd w) = attrs w"
  by (auto simp: sys_close_def file_bytes_def node_of_def attrs_def fun_eq_iff)

lemma put_bytes_Nil [simp]: "put_bytes pos [] old = old"
  by (simp add: put_bytes_def)

lemma put_bytes_start [simp]: "put_bytes 0 bs [] = bs"
  by (simp add: put_bytes_def)

lemma put_bytes_end: "put_bytes (length old) bs old = old @ bs"
  by (simp add: put_bytes_def)

lemma put_bytes_append:
  "put_bytes (pos + length a) b (put_bytes pos a old) = put_bytes pos (a @ b) old"
proof (cases "a = [] \<or> b = []")
  case True
  then show ?thesis by auto
next
  case False
  let ?pre = "take pos (old @ replicate (pos - length old) (CHR 0x00))"
  have len: "length ?pre = pos" by simp
  have "put_bytes pos a old = ?pre @ a @ drop (pos + length a) old"
    using False by (simp add: put_bytes_def)
  moreover have "put_bytes (pos + length a) b (?pre @ a @ drop (pos + length a) old) =
    ?pre @ a @ b @ drop (pos + length a + length b) old"
    using False len by (simp add: put_bytes_def add.commute)
  ultimately show ?thesis
    using False by (simp add: put_bytes_def add.assoc)
qed

lemma file_bytes_eq: "file_bytes w i = Some bs \<longleftrightarrow> node_of w i = Some (Regular bs)"
  by (auto simp: file_bytes_def split: option.splits node.splits)

lemma write_okD:
  assumes "sys_write fd bs w = (Inr n, v)"
  shows "n \<le> length bs \<and> wrote w v fd (take n bs)"
  using assms unfolding sys_write_def
proof (cases rule: syscall_cases)
  case (run lim)
  let ?w = "w\<lparr>w_script := tl (w_script w)\<rparr>"
  from run obtain f old where f: "w_files w fd = Some f" "f_wr f"
    "node_of w (f_ino f) = Some (Regular old)" and n: "n = limited lim (length bs)"
    and v: "v = touch (f_ino f) (set_node (f_ino f) (Regular (put_bytes (f_pos f) (take n bs) old))
      (?w\<lparr>w_files := (w_files w)(fd \<mapsto> f\<lparr>f_pos := f_pos f + n\<rparr>)\<rparr>))"
    by (auto simp: Let_def file_bytes_eq split: option.splits if_splits)
  have n': "n \<le> length bs" using n by (auto simp: limited_def split: option.splits)
  from f obtain nd where nd: "w_inodes w (f_ino f) = Some nd" "i_node nd = Regular old"
    by (auto simp: node_of_def)
  let ?nd = "nd\<lparr>i_node := Regular (put_bytes (f_pos f) (take n bs) old),
    i_mtime := w_now w, i_ctime := w_now w\<rparr>"
  have v': "v = ?w\<lparr>w_files := (w_files w)(fd \<mapsto> f\<lparr>f_pos := f_pos f + n\<rparr>),
      w_inodes := (w_inodes w)(f_ino f \<mapsto> ?nd)\<rparr>"
    using v nd by (simp add: touch_def set_node_def)
  have dirs: "dir_of v i = dir_of w i" for i
    using v' nd by (simp add: dir_of_def)
  have ents: "entry v = entry w"
    using dirs by (simp add: entry_def fun_eq_iff)
  have at: "attrs v = attrs w"
    using v' nd by (auto simp: attrs_def fun_eq_iff)
  have "wrote w v fd (take n bs)"
    unfolding wrote_def using f nd n' v' dirs ents at
    by (auto simp: file_bytes_def node_of_def same_env_def fewer_faults_def min_def)
  with n' show ?thesis by blast
qed auto

lemma write_errD: "sys_write fd bs w = (Inl e, v) \<Longrightarrow> quiet w v"
  unfolding sys_write_def
  by (cases rule: syscall_cases)
    (auto simp: Let_def split: option.splits if_splits intro: pops_quiet)

lemma write_EINTR: "sys_write fd bs w = (Inl EINTR, v) \<Longrightarrow> length (w_script v) < length (w_script w)"
  unfolding sys_write_def
  by (cases rule: syscall_cases) (auto simp: Let_def split: option.splits if_splits)

lemma wrote_Nil: "writable w fd \<Longrightarrow> quiet w v \<Longrightarrow> wrote w v fd []"
  by (auto simp: wrote_def writable_def quiet_def same_disk_def same_env_def file_bytes_def
    node_of_def attrs_def fun_eq_iff entry_def dir_of_def fun_upd_idem_iff)

lemma wrote_trans:
  assumes "wrote u v fd a" and "wrote v w fd b" shows "wrote u w fd (a @ b)"
proof -
  from assms(1) obtain f old where f: "w_files u fd = Some f" "f_wr f"
    "file_bytes u (f_ino f) = Some old" "file_bytes v (f_ino f) = Some (put_bytes (f_pos f) a old)"
    "w_files v = (w_files u)(fd \<mapsto> f\<lparr>f_pos := f_pos f + length a\<rparr>)"
    "\<forall>j. j \<noteq> f_ino f \<longrightarrow> w_inodes v j = w_inodes u j"
    by (auto simp: wrote_def)
  from assms(2) f have g: "file_bytes w (f_ino f) = Some (put_bytes (f_pos f + length a) b (put_bytes (f_pos f) a old))"
    "w_files w = (w_files u)(fd \<mapsto> f\<lparr>f_pos := f_pos f + length a + length b\<rparr>)"
    "\<forall>j. j \<noteq> f_ino f \<longrightarrow> w_inodes w j = w_inodes v j"
    by (auto simp: wrote_def)
  from f g assms show ?thesis
    unfolding wrote_def
    by (auto simp: put_bytes_append same_env_def fewer_faults_def add.assoc)
qed

lemma wrote_writable: "wrote w v fd bs \<Longrightarrow> writable v fd"
  by (auto simp: wrote_def writable_def)

lemma wrote_pre: "wrote w v fd bs \<Longrightarrow> writable w fd"
  by (auto simp: wrote_def writable_def)

lemma sys_write_script:
  "sys_write fd bs w = (r, v) \<Longrightarrow> length (w_script v) \<le> length (w_script w)"
  by (cases r) (auto dest: write_okD write_errD simp: wrote_def quiet_def fewer_faults_def)

text \<open>
  The loop the sources write around \<open>write\<close>: retry after an interruption, stop at an error
  or when nothing was written, otherwise go on with the rest.
\<close>

function write_all :: "fd \<Rightarrow> char list \<Rightarrow> world \<Rightarrow> bool \<times> world" where
  "write_all fd bs w =
     (if bs = [] then (True, w)
      else case sys_write fd bs w of
        (Inl e, v) \<Rightarrow> if e = EINTR then write_all fd bs v else (False, v)
      | (Inr n, v) \<Rightarrow> if n = 0 then (False, v) else write_all fd (drop n bs) v)"
  by pat_completeness auto

termination
proof (relation "measure (\<lambda>(fd, bs, w). length bs + length (w_script w))", goal_cases)
  case 1
  show ?case by simp
next
  case (2 fd bs w x v e)
  then show ?case by (auto dest: write_EINTR [OF sym])
next
  case (3 fd bs w x v n)
  then have "length (w_script v) \<le> length (w_script w)" "0 < n" "bs \<noteq> []"
    by (auto dest: sys_write_script [OF sym])
  then show ?case by (cases bs) auto
qed

declare write_all.simps [simp del]

lemma write_all_effect:
  "writable w fd \<Longrightarrow> write_all fd bs w = (ok, v) \<Longrightarrow>
   \<exists>k \<le> length bs. wrote w v fd (take k bs) \<and> (ok \<longrightarrow> k = length bs)"
proof (induction fd bs w arbitrary: ok v rule: write_all.induct)
  case (1 fd bs w)
  show ?case
  proof (cases "bs = []")
    case True
    with 1 show ?thesis
      using wrote_Nil [OF "1.prems"(1) quiet_refl] by (simp add: write_all.simps)
  next
    case False
    note unf = write_all.simps [of fd bs w]
    obtain r u where r: "sys_write fd bs w = (r, u)" by (cases "sys_write fd bs w")
    show ?thesis
    proof (cases r)
      case (Inl e)
      with r have q: "quiet w u" by (auto dest: write_errD)
      have wr: "writable u fd"
        using wrote_writable [OF wrote_Nil [OF "1.prems"(1) q]] .
      show ?thesis
      proof (cases "e = EINTR")
        case True
        with "1.prems" False r Inl unf have "write_all fd bs u = (ok, v)" by simp
        with "1.IH"(1) [OF False r [symmetric] Inl True wr]
        obtain k where "k \<le> length bs" "wrote u v fd (take k bs)" "ok \<longrightarrow> k = length bs" by blast
        with wrote_trans [OF wrote_Nil [OF "1.prems"(1) q]] show ?thesis
          by (metis append_Nil)
      next
        case neq: False
        with 1 False r Inl unf have "v = u" "\<not> ok" by auto
        with wrote_Nil [OF "1.prems"(1) q] show ?thesis by (intro exI [of _ 0]) auto
      qed
    next
      case (Inr n)
      with r write_okD have n: "n \<le> length bs" "wrote w u fd (take n bs)" by blast+
      show ?thesis
      proof (cases "n = 0")
        case True
        with 1 False r Inr unf have "v = u" "\<not> ok" by auto
        with n show ?thesis by blast
      next
        case neq: False
        with "1.prems" False r Inr unf have "write_all fd (drop n bs) u = (ok, v)" by simp
        with "1.IH"(2) [OF False r [symmetric] Inr neq wrote_writable [OF n(2)]]
        obtain k where k: "k \<le> length (drop n bs)" "wrote u v fd (take k (drop n bs))"
          "ok \<longrightarrow> k = length (drop n bs)" by blast
        have "wrote w v fd (take (n + k) bs)"
          using wrote_trans [OF n(2) k(2)] by (simp add: take_add)
        with k n show ?thesis by (intro exI [of _ "n + k"]) auto
      qed
    qed
  qed
qed

section \<open>Directory edits\<close>

text \<open>
  \<open>edited w v E\<close>: the directories of \<open>v\<close> have the entries \<open>E\<close>; contents,
  owners, modes and kinds of the inodes of \<open>w\<close>, descriptors and the rest are unchanged.
\<close>

definition edited :: "world \<Rightarrow> world \<Rightarrow> (ino \<Rightarrow> string \<Rightarrow> ino option) \<Rightarrow> bool" where
  "edited w v E \<longleftrightarrow> entry v = E \<and> (\<forall>i. dir_of v i = None \<longleftrightarrow> dir_of w i = None) \<and>
     (\<forall>i. file_bytes v i = file_bytes w i) \<and> attrs v = attrs w \<and>
     w_files v = w_files w \<and> w_nextfd v = w_nextfd w \<and> w_next v = w_next w \<and>
     same_env w v \<and> fewer_faults w v"

lemma edited_quiet: "quiet w v \<Longrightarrow> edited w v (entry w)"
  by (auto simp: edited_def quiet_def same_disk_def same_env_def file_bytes_def node_of_def
    attrs_def fun_eq_iff entry_def dir_of_def)

lemma edited_trans: "edited u v E \<Longrightarrow> edited v w F \<Longrightarrow> edited u w F"
  by (auto simp: edited_def same_env_def fewer_faults_def)

lemma edited_wf: "edited w v E \<Longrightarrow> wf_fds w \<Longrightarrow> wf_fds v"
  by (auto simp: edited_def wf_fds_def)

lemma edited_fd_ino: "edited w v E \<Longrightarrow> fd_ino v fd = fd_ino w fd"
  by (simp add: edited_def fd_ino_def)

lemma set_entry_edited:
  assumes "dir_of w d \<noteq> None"
  shows "edited w (set_entry d n t w) ((entry w)(d := (entry w d)(n := t)))"
proof -
  from assms obtain nd p es where d: "w_inodes w d = Some nd" "i_node nd = Directory p es"
    by (auto simp: dir_of_def split: option.splits node.splits)
  let ?es = "case t of None \<Rightarrow> AList.delete n es | Some i \<Rightarrow> AList.update n i es"
  have v: "set_entry d n t w = w\<lparr>w_inodes := (w_inodes w)(d \<mapsto> nd\<lparr>i_node := Directory p ?es\<rparr>)\<rparr>"
    using d by (simp add: set_entry_def dir_of_def set_node_def)
  have es: "map_of ?es m = ((map_of es)(n := t)) m" for m
    by (cases t) (auto simp: delete_conv' update_conv')
  show ?thesis
    unfolding edited_def v using d es
    by (auto simp: entry_def dir_of_def file_bytes_def node_of_def attrs_def fun_eq_iff
      same_env_def fewer_faults_def)
qed

lemma add_nlink_edited: "edited w (add_nlink k i w) (entry w)"
proof (cases "w_inodes w i")
  case None
  then show ?thesis by (simp add: add_nlink_def edited_quiet)
next
  case (Some nd)
  have d: "dir_of (add_nlink k i w) j = dir_of w j" for j
    using Some by (simp add: add_nlink_def dir_of_def)
  then have e: "entry (add_nlink k i w) = entry w"
    by (simp add: entry_def fun_eq_iff)
  show ?thesis
    unfolding edited_def using Some d e
    by (auto simp: add_nlink_def file_bytes_def node_of_def attrs_def fun_eq_iff
      same_env_def fewer_faults_def)
qed

lemma edited_script:
  "edited (w\<lparr>w_script := tl (w_script w)\<rparr>) v E \<Longrightarrow> edited w v E"
  by (rule edited_trans [OF edited_quiet [OF quiet_script]])

lemma entry_dir_of: "entry w d n = Some i \<Longrightarrow> dir_of w d \<noteq> None"
  by (auto simp: entry_def split: option.splits)

lemma unlink_entry_cases:
  assumes "unlink_entry d n rd w = (Inr (), v)"
  obtains i where "entry w d n = Some i" "v = add_nlink (-1) i (set_entry d n None w)"
    "dir_of w i = None \<and> \<not> rd \<or> (\<exists>p. dir_of w i = Some (p, []) \<and> rd)"
proof (cases "entry w d n")
  case None
  with assms show ?thesis by (simp add: unlink_entry_def)
next
  case (Some i)
  with assms that [of i] show ?thesis
    by (cases "dir_of w i") (auto simp: unlink_entry_def Let_def split: if_splits)
qed

lemma unlink_entry_okD:
  assumes "unlink_entry d n rd w = (Inr (), v)"
  shows "\<exists>i. entry w d n = Some i \<and> (dir_of w i = None \<longleftrightarrow> \<not> rd) \<and>
    (rd \<longrightarrow> entry w i = (\<lambda>_. None)) \<and> edited w v ((entry w)(d := (entry w d)(n := None)))"
  using assms
proof (cases rule: unlink_entry_cases)
  case (1 i)
  have "edited w (set_entry d n None w) ((entry w)(d := (entry w d)(n := None)))"
    by (rule set_entry_edited [OF entry_dir_of [OF 1(1)]])
  then have "edited w v ((entry w)(d := (entry w d)(n := None)))"
    unfolding 1(2) by (metis add_nlink_edited edited_def edited_trans)
  with 1(1,3) show ?thesis by (intro exI [of _ i]) (auto simp: entry_def fun_eq_iff)
qed

lemma unlink_entry_errD: "unlink_entry d n rd w = (Inl e, v) \<Longrightarrow> v = w"
  by (auto simp: unlink_entry_def Let_def split: option.splits if_splits)

lemma rename_entry_cases:
  assumes "rename_entry d n1 d n2 w = (Inr (), v)"
  obtains (same) i where "entry w d n1 = Some i" "dir_of w i = None" "entry w d n2 = Some i" "v = w"
  | (moved) i where "entry w d n1 = Some i" "dir_of w i = None" "entry w d n2 = None"
      "v = set_entry d n2 (Some i) (set_entry d n1 None w)"
  | (replaced) i j where "entry w d n1 = Some i" "dir_of w i = None" "entry w d n2 = Some j" "i \<noteq> j"
      "v = set_entry d n2 (Some i) (add_nlink (-1) j (set_entry d n1 None w))"
proof (cases "entry w d n1")
  case None
  with assms show ?thesis by (simp add: rename_entry_def)
next
  case (Some i)
  with assms have d: "dir_of w i = None"
    by (cases "dir_of w i") (auto simp: rename_entry_def)
  show ?thesis
  proof (cases "entry w d n2")
    case None
    with assms Some d moved [of i] show ?thesis by (simp add: rename_entry_def)
  next
    case (Some j)
    with assms \<open>entry w d n1 = Some i\<close> d same [of i] replaced [of i j] show ?thesis
      by (auto simp: rename_entry_def split: if_splits)
  qed
qed

lemma rename_entry_okD:
  assumes "rename_entry d n1 d n2 w = (Inr (), v)"
  shows "\<exists>i. entry w d n1 = Some i \<and> dir_of w i = None \<and>
    edited w v (if entry w d n2 = Some i then entry w
      else (entry w)(d := (entry w d)(n1 := None, n2 \<mapsto> i)))"
proof -
  let ?v1 = "set_entry d n1 None w" and ?E1 = "(entry w)(d := (entry w d)(n1 := None))"
  have e1: "dir_of w d \<noteq> None \<Longrightarrow> edited w ?v1 ?E1" by (rule set_entry_edited)
  have e2: "dir_of w d \<noteq> None \<Longrightarrow> edited w (add_nlink (-1) j ?v1) ?E1" for j
    using e1 by (metis add_nlink_edited edited_def edited_trans)
  have step: "edited w (set_entry d n2 (Some i) u) ((entry w)(d := (entry w d)(n1 := None, n2 \<mapsto> i)))"
    if u: "edited w u ?E1" and d: "dir_of w d \<noteq> None" for u i
  proof -
    from u d have "dir_of u d \<noteq> None" "entry u = ?E1" by (auto simp: edited_def)
    with edited_trans [OF u set_entry_edited [of u d n2 "Some i"]] show ?thesis by simp
  qed
  from assms show ?thesis
  proof (cases rule: rename_entry_cases)
    case (same i)
    then show ?thesis using edited_quiet [OF quiet_refl [of w]] by auto
  next
    case (moved i)
    with entry_dir_of [OF moved(1)] show ?thesis using step [OF e1] by simp
  next
    case (replaced i j)
    with entry_dir_of [OF replaced(1)] show ?thesis using step [OF e2] by simp
  qed
qed

lemma rename_entry_errD: "rename_entry a n1 b n2 w = (Inl e, v) \<Longrightarrow> v = w"
  by (auto simp: rename_entry_def split: option.splits if_splits)

lemma unlink_okD:
  assumes "sys_unlinkat dfd n rd w = (Inr (), v)" and "plain_name n"
  shows "\<exists>d i. fd_ino w dfd = Some d \<and> entry w d n = Some i \<and> (dir_of w i = None \<longleftrightarrow> \<not> rd) \<and>
    (rd \<longrightarrow> entry w i = (\<lambda>_. None)) \<and> edited w v ((entry w)(d := (entry w d)(n := None)))"
  using assms(1) unfolding sys_unlinkat_def
proof (cases rule: syscall_cases)
  case (run lim)
  from plain_nameD [OF assms(2)] have n: "\<not> (n = [] \<or> n = ''.'' \<or> n = ''..'')" by blast
  from run obtain d where d: "fd_ino w dfd = Some d"
    and u: "unlink_entry d n rd (w\<lparr>w_script := tl (w_script w)\<rparr>) = (Inr (), v)"
    unfolding parent_of_plain [OF assms(2)] lookups_script if_not_P [OF n]
    by (cases "fd_ino w dfd") (auto simp: n split: if_splits)
  obtain i where i: "entry w d n = Some i"
    "dir_of w i = None \<longleftrightarrow> \<not> rd" "rd \<longrightarrow> entry w i = (\<lambda>_. None)"
    and e: "edited (w\<lparr>w_script := tl (w_script w)\<rparr>) v ((entry w)(d := (entry w d)(n := None)))"
    using unlink_entry_okD [OF u, unfolded lookups_script entry_script]
    by (elim exE conjE) (rule that)
  show ?thesis
    by (intro exI conjI) (rule d i edited_script [OF e])+
qed auto

lemma unlink_errD:
  assumes "sys_unlinkat dfd n rd w = (Inl e, v)" and "plain_name n" shows "quiet w v"
  using assms(1) unfolding sys_unlinkat_def
proof (cases rule: syscall_cases)
  case (run lim)
  with assms(2) show ?thesis
    by (auto simp: posix_simps dest!: unlink_entry_errD split: option.splits if_splits)
qed (rule pops_quiet)

lemma unlink_ENOENT:
  assumes "sys_unlinkat dfd n rd w = (Inl ENOENT, v)" and "plain_name n"
  shows "\<exists>d. fd_ino w dfd = Some d \<and> entry w d n = None"
  using assms(1) unfolding sys_unlinkat_def
proof (cases rule: syscall_cases)
  case (run lim)
  from plain_nameD [OF assms(2)] have n: "\<not> (n = [] \<or> n = ''.'' \<or> n = ''..'')" by blast
  from run obtain d where d: "fd_ino w dfd = Some d"
    and u: "unlink_entry d n rd (w\<lparr>w_script := tl (w_script w)\<rparr>) = (Inl ENOENT, v)"
    unfolding parent_of_plain [OF assms(2)] lookups_script if_not_P [OF n]
    by (cases "fd_ino w dfd") (auto simp: n split: if_splits)
  then have "entry w d n = None"
    by (cases "entry w d n") (auto simp: unlink_entry_def Let_def split: option.splits if_splits)
  with d show ?thesis by blast
qed auto

lemma rename_okD:
  assumes "sys_renameat dfd n1 dfd n2 w = (Inr (), v)" and "plain_name n1" "plain_name n2"
  shows "\<exists>d i. fd_ino w dfd = Some d \<and> entry w d n1 = Some i \<and> dir_of w i = None \<and>
    edited w v (if entry w d n2 = Some i then entry w
      else (entry w)(d := (entry w d)(n1 := None, n2 \<mapsto> i)))"
  using assms(1) unfolding sys_renameat_def
proof (cases rule: syscall_cases)
  case (run lim)
  with assms(2,3) obtain d where d: "fd_ino w dfd = Some d"
    and r: "rename_entry d n1 d n2 (w\<lparr>w_script := tl (w_script w)\<rparr>) = (Inr (), v)"
    by (auto simp: posix_simps split: option.splits if_splits)
  from rename_entry_okD [OF r] obtain i where i: "entry w d n1 = Some i" "dir_of w i = None"
    and e: "edited (w\<lparr>w_script := tl (w_script w)\<rparr>) v (if entry w d n2 = Some i then entry w
      else (entry w)(d := (entry w d)(n1 := None, n2 \<mapsto> i)))"
    unfolding lookups_script entry_script by blast
  from d i edited_script [OF e] show ?thesis by blast
qed auto

lemma rename_errD:
  assumes "sys_renameat dfd n1 dfd n2 w = (Inl e, v)" and "plain_name n1" "plain_name n2"
  shows "quiet w v"
  using assms(1) unfolding sys_renameat_def
proof (cases rule: syscall_cases)
  case (run lim)
  with assms(2,3) show ?thesis
    by (auto simp: posix_simps dest!: rename_entry_errD split: option.splits if_splits)
qed (rule pops_quiet)

section \<open>Directory edits apart from descriptors\<close>

text \<open>As \<open>edited\<close>, for sequences that also open and close: the descriptors may differ.\<close>

definition disk_edit :: "world \<Rightarrow> world \<Rightarrow> (ino \<Rightarrow> string \<Rightarrow> ino option) \<Rightarrow> bool" where
  "disk_edit w v E \<longleftrightarrow> entry v = E \<and> (\<forall>i. dir_of v i = None \<longleftrightarrow> dir_of w i = None) \<and>
     (\<forall>i. file_bytes v i = file_bytes w i) \<and> attrs v = attrs w \<and> w_next v = w_next w \<and> same_env w v"

lemma disk_edit_edited: "edited w v E \<Longrightarrow> disk_edit w v E"
  by (simp add: edited_def disk_edit_def)

lemma disk_edit_same: "same_disk w v \<Longrightarrow> disk_edit w v (entry w)"
  by (auto simp: disk_edit_def same_disk_def same_env_def file_bytes_def node_of_def
    attrs_def fun_eq_iff entry_def dir_of_def)

lemma disk_edit_trans: "disk_edit u v E \<Longrightarrow> disk_edit v w F \<Longrightarrow> disk_edit u w F"
  by (auto simp: disk_edit_def same_env_def)

lemma disk_edit_entry: "disk_edit w v E \<Longrightarrow> entry v = E"
  by (simp add: disk_edit_def)

lemma disk_edit_close [simp]: "disk_edit w (sys_close fd v) E = disk_edit w v E"
  by (simp add: disk_edit_def sys_close_def same_env_def attrs_def file_bytes_def node_of_def
    entry_def dir_of_def fun_eq_iff)

lemma disk_edit_frames:
  "quiet w v \<Longrightarrow> disk_edit w v (entry w)" "opened w v fd i wr \<Longrightarrow> disk_edit w v (entry w)"
  "returned w v \<Longrightarrow> disk_edit w v (entry w)" "opened_up w v fd i \<Longrightarrow> disk_edit w v (entry w)"
  by (auto simp: quiet_def opened_def returned_def opened_up_def intro: disk_edit_same)

end
