(* ===== verification/Owned.thy ===== *)
theory Owned
  imports PosixFacts
begin

text \<open>
  The contracts that the file components share, as locales. \<open>name_guard\<close>: a test of
  names that lets only plain directory entries through. \<open>owned_open\<close>: an operation that
  opens an existing file for reading after checking its inode. \<open>full_writer\<close>: a loop
  that writes a whole buffer. Each component interprets them on its own functions. The
  second part extends the rules of the operating system model to calls that create.
\<close>

section \<open>Name guards\<close>

locale name_guard =
  fixes ok :: "string \<Rightarrow> bool"
  assumes plain: "ok n \<Longrightarrow> plain_name n"
begin

lemma no_traversal: "ok n \<Longrightarrow> CHR ''/'' \<notin> set n \<and> n \<noteq> ''.'' \<and> n \<noteq> ''..'' \<and> n \<noteq> []"
  using plain by (auto simp: plain_name_def)

text \<open>Removing an accepted name changes that entry of that directory and nothing else.\<close>

lemma unlink_confined:
  assumes "ok n" and "sys_unlinkat dfd n rd w = (r, v)"
  shows "(\<forall>d m. fd_ino w dfd = Some d \<and> m = n \<or> entry v d m = entry w d m) \<and>
    (\<forall>i. file_bytes v i = file_bytes w i)"
proof (cases r)
  case (Inl e)
  with unlink_errD [OF assms(2) [unfolded Inl] plain [OF assms(1)]] show ?thesis
    by (auto dest!: edited_quiet simp: edited_def)
next
  case (Inr u)
  then have r: "r = Inr ()" by simp
  from unlink_okD [OF assms(2) [unfolded r] plain [OF assms(1)]] obtain d
    where "fd_ino w dfd = Some d" and e: "edited w v ((entry w)(d := (entry w d)(n := None)))"
    by blast
  then show ?thesis by (auto simp: edited_def split: if_splits)
qed

end

section \<open>Opening existing files\<close>

text \<open>
  \<open>dir_at k w\<close> is the directory that the operation with the handle \<open>k\<close> looks into;
  \<open>st_ok k u st\<close> is its test of the inode's status for the user \<open>u\<close>.
\<close>

locale owned_open = guard: name_guard name_ok
  for name_ok :: "string \<Rightarrow> bool" +
  fixes op :: "'k \<Rightarrow> string \<Rightarrow> world \<Rightarrow> int \<times> world"
    and dir_at :: "'k \<Rightarrow> world \<Rightarrow> ino option"
    and st_ok :: "'k \<Rightarrow> nat \<Rightarrow> stat \<Rightarrow> bool"
  assumes opens: "wf_fds w \<Longrightarrow> op k n w = (fd, v) \<Longrightarrow> 0 \<le> fd \<Longrightarrow>
      \<exists>d i nd. name_ok n \<and> dir_at k w = Some d \<and> entry w d n = Some i \<and> w_inodes w i = Some nd \<and>
        st_ok k (w_uid w) (stat_of i nd) \<and> opened_up w v fd i"
    and refuses: "wf_fds w \<Longrightarrow> op k n w = (fd, v) \<Longrightarrow> fd < 0 \<Longrightarrow> returned w v"
    and checks: "st_ok k u st \<Longrightarrow> S_ISREG st \<and> st_uid st = u \<and> st_nlink st = 1"
begin

text \<open>A descriptor is given out only for a singly linked regular file of the caller.\<close>

lemma opened_is_owned:
  assumes "wf_fds w" and "op k n w = (fd, v)" and "0 \<le> fd"
  shows "\<exists>d i nd bs. dir_at k w = Some d \<and> entry w d n = Some i \<and> w_inodes w i = Some nd \<and>
    i_node nd = Regular bs \<and> i_uid nd = w_uid w \<and> i_nlink nd = 1 \<and> fd_ino v fd = Some i \<and>
    w_files w fd = None \<and> w_files v = (w_files w)(fd \<mapsto> \<lparr>f_ino = i, f_pos = 0, f_wr = False\<rparr>)"
proof -
  from opens [OF assms] obtain d i nd where
    o: "dir_at k w = Some d" "entry w d n = Some i" "w_inodes w i = Some nd"
      "st_ok k (w_uid w) (stat_of i nd)" "opened_up w v fd i"
    by blast
  from checks [OF o(4)] have "S_ISREG (stat_of i nd)" "i_uid nd = w_uid w" "i_nlink nd = 1"
    by (auto simp: stat_of_def)
  moreover then obtain bs where "i_node nd = Regular bs"
    by (cases "i_node nd") (auto simp: S_ISREG_def stat_of_def)
  moreover have "w_files w fd = None" "w_files v = (w_files w)(fd \<mapsto> \<lparr>f_ino = i, f_pos = 0, f_wr = False\<rparr>)"
    using o(5) assms(1) by (auto simp: opened_up_def wf_fds_def)
  ultimately show ?thesis
    using o opened_up_lookups(6) [OF o(5)] by blast
qed

text \<open>A symbolic link is never opened, wherever it points.\<close>

lemma symlink_refused:
  assumes "wf_fds w" and "op k n w = (fd, v)" and "dir_at k w = Some d" and "entry w d n = Some i"
    and "node_of w i = Some (Symlink t)"
  shows "fd < 0"
proof (rule ccontr)
  assume "\<not> fd < 0"
  with opened_is_owned [OF assms(1,2)] assms(3-5) show False
    by (auto simp: node_of_def)
qed

text \<open>Whatever happens, no descriptor is left behind and the disk is not touched.\<close>

lemma balanced:
  assumes "wf_fds w" and "op k n w = (fd, v)"
  shows "same_disk w v \<and> wf_fds v \<and> w_files v = (w_files w)(fd := if 0 \<le> fd then w_files v fd else w_files w fd)"
proof (cases "0 \<le> fd")
  case True
  with opens [OF assms] assms(1) show ?thesis
    by (auto simp: opened_up_def opened_up_wf)
next
  case False
  with refuses [OF assms] assms(1) show ?thesis
    by (auto simp: returned_def returned_wf)
qed

end

section \<open>Writing whole buffers\<close>

locale full_writer =
  fixes put :: "fd \<Rightarrow> char list \<Rightarrow> world \<Rightarrow> bool \<times> world"
  assumes put_prefix: "writable w fd \<Longrightarrow> put fd bs w = (ok, v) \<Longrightarrow>
      \<exists>k \<le> length bs. wrote w v fd (take k bs) \<and> (ok \<longrightarrow> k = length bs)"
    and put_quiet_world: "writable w fd \<Longrightarrow> w_script w = [] \<Longrightarrow> fst (put fd bs w)"
begin

lemma complete: "writable w fd \<Longrightarrow> put fd bs w = (True, v) \<Longrightarrow> wrote w v fd bs"
  using put_prefix [of w fd bs True v] by auto

text \<open>Successive buffers are concatenated.\<close>

lemma complete_twice:
  "writable w fd \<Longrightarrow> put fd a w = (True, u) \<Longrightarrow> put fd b u = (True, v) \<Longrightarrow> wrote w v fd (a @ b)"
  by (blast intro: wrote_trans complete wrote_writable)

end

lemma write_all_no_faults:
  "writable w fd \<Longrightarrow> w_script w = [] \<Longrightarrow> fst (write_all fd bs w)"
proof (cases "bs = []")
  case False
  assume w: "writable w fd" "w_script w = []"
  then obtain f old where f: "w_files w fd = Some f" "f_wr f" "file_bytes w (f_ino f) = Some old"
    by (auto simp: writable_def)
  obtain v where v: "sys_write fd bs w = (Inr (length bs), v)"
    using f w(2) by (simp add: sys_write_def syscall_def tick_def limited_def Let_def)
  with False show ?thesis
    by (simp add: write_all.simps [of fd bs w] write_all.simps [of fd "[]"])
qed (simp add: write_all.simps)

section \<open>Creating files and directories\<close>

text \<open>
  \<open>fresh_inode w\<close>: the next inode number is unused and no directory refers to it. The
  worlds the components start from satisfy it, and \<open>wf_dirs\<close>: names are plain.
\<close>

definition fresh_inode :: "world \<Rightarrow> bool" where
  "fresh_inode w \<longleftrightarrow> (\<forall>i \<ge> w_next w. w_inodes w i = None)"

definition wf_dirs :: "world \<Rightarrow> bool" where
  "wf_dirs w \<longleftrightarrow> (\<forall>d n. entry w d n \<noteq> None \<longrightarrow> plain_name n)"

lemma stream_names_plain:
  "wf_dirs w \<Longrightarrow> dir_of w d = Some (p, es) \<Longrightarrow>
   \<forall>n \<in> set (''.'' # ''..'' # map fst es). n = ''.'' \<or> n = ''..'' \<or> plain_name n"
proof
  fix n
  assume w: "wf_dirs w" and d: "dir_of w d = Some (p, es)" and n: "n \<in> set (''.'' # ''..'' # map fst es)"
  have "plain_name n" if "n \<in> fst ` set es"
    using w d that map_of_eq_None_iff [of es n] unfolding wf_dirs_def entry_def
    by (metis (no_types, lifting) option.simps(5) prod.simps(2))
  with n show "n = ''.'' \<or> n = ''..'' \<or> plain_name n" by auto
qed

text \<open>\<open>created w v d n nd\<close>: the new inode \<open>nd\<close> was entered as \<open>n\<close> in the directory \<open>d\<close>.\<close>

definition created :: "world \<Rightarrow> world \<Rightarrow> ino \<Rightarrow> string \<Rightarrow> inode \<Rightarrow> bool" where
  "created w v d n nd \<longleftrightarrow> entry v d = (entry w d)(n \<mapsto> w_next w) \<and>
     (\<forall>e. e \<noteq> d \<and> e \<noteq> w_next w \<longrightarrow> entry v e = entry w e) \<and>
     w_inodes v (w_next w) = Some nd \<and>
     (\<forall>i. i \<noteq> w_next w \<longrightarrow> file_bytes v i = file_bytes w i \<and> attrs v i = attrs w i) \<and>
     w_next v = w_next w + 1 \<and> same_env w v"

lemma entry_w_next [simp]: "entry (w\<lparr>w_next := k\<rparr>) d n = entry w d n"
  by (rule entry_cong) simp

lemma create_inode_created:
  assumes "fresh_inode w" and "dir_of w d \<noteq> None" and "create_inode d n k m w = (i, v)"
  shows "i = w_next w \<and> created w v d n \<lparr>i_node = k, i_uid = w_uid w, i_mode = m, i_nlink = 1,
      i_mtime = w_now w, i_ctime = w_now w\<rparr> \<and>
    w_files v = w_files w \<and> w_nextfd v = w_nextfd w \<and> w_script v = w_script w"
proof -
  let ?i = "w_next w"
  let ?nd = "\<lparr>i_node = k, i_uid = w_uid w, i_mode = m, i_nlink = 1,
      i_mtime = w_now w, i_ctime = w_now w\<rparr>"
  let ?u = "w\<lparr>w_inodes := (w_inodes w)(?i \<mapsto> ?nd), w_next := ?i + 1\<rparr>"
  from assms(1,2) have ne: "d \<noteq> ?i"
    by (auto simp: fresh_inode_def dir_of_def split: option.splits)
  from assms(2) obtain dn p es where d: "w_inodes w d = Some dn" "i_node dn = Directory p es"
    by (auto simp: dir_of_def split: option.splits node.splits)
  have v: "v = w\<lparr>w_inodes := (w_inodes w)(?i \<mapsto> ?nd, d \<mapsto> dn\<lparr>i_node := Directory p (AList.update n ?i es)\<rparr>),
      w_next := ?i + 1\<rparr>" and i: "i = ?i"
    using assms(3) d ne
    by (auto simp: create_inode_def Let_def set_entry_def dir_of_def set_node_def)
  show ?thesis
    unfolding created_def v i using d ne
    by (auto simp: entry_def dir_of_def fun_eq_iff file_bytes_def node_of_def attrs_def same_env_def
      update_conv')
qed

definition create_flags :: "oflag list \<Rightarrow> bool" where
  "create_flags fl \<longleftrightarrow> O_CREAT \<in> set fl \<and> O_EXCL \<in> set fl \<and> O_DIRECTORY \<notin> set fl \<and>
     (O_RDWR \<in> set fl \<or> O_WRONLY \<in> set fl) \<and> O_TRUNC \<notin> set fl"

lemma fresh_inode_quiet: "quiet w v \<Longrightarrow> fresh_inode v = fresh_inode w"
  by (simp add: fresh_inode_def quiet_def same_disk_def)

text \<open>
  \<open>open\<close> with \<open>O_CREAT | O_EXCL\<close>: success means that the name was free and now is a new
  empty file of the caller, open for writing; failure changes nothing.
\<close>

lemma openat_create_okD:
  assumes "sys_openat dfd n fl m w = (Inr fd, v)" and "create_flags fl" and "plain_name n"
    and "fresh_inode w"
  shows "\<exists>d. fd_ino w dfd = Some d \<and> entry w d n = None \<and> fd = w_nextfd w \<and>
    created w v d n \<lparr>i_node = Regular [], i_uid = w_uid w, i_mode = m, i_nlink = 1,
      i_mtime = w_now w, i_ctime = w_now w\<rparr> \<and>
    w_files v = (w_files w)(fd \<mapsto> \<lparr>f_ino = w_next w, f_pos = 0, f_wr = True\<rparr>) \<and>
    w_nextfd v = w_nextfd w + 1"
  using assms(1) unfolding sys_openat_def
proof (cases rule: syscall_cases)
  case (run lim)
  let ?w = "w\<lparr>w_script := tl (w_script w)\<rparr>"
  have fl: "O_CREAT \<in> set fl" "O_EXCL \<in> set fl" using assms(2) by (auto simp: create_flags_def)
  from run assms(3) obtain d i u where d: "fd_ino w dfd = Some d" "dir_of w d \<noteq> None"
    "entry w d n = None" and c: "create_inode d n (Regular []) m ?w = (i, u)"
    and o: "open_inode i fl u = (Inr fd, v)"
    by (auto simp: posix_simps fl dest!: plain_nameD split: option.splits if_splits prod.splits
      node.splits)
  have "fresh_inode ?w" "dir_of ?w d \<noteq> None" using assms(4) d by (auto simp: fresh_inode_def)
  from create_inode_created [OF this c] have
    u: "i = w_next w" "created ?w u d n \<lparr>i_node = Regular [], i_uid = w_uid w, i_mode = m,
      i_nlink = 1, i_mtime = w_now w, i_ctime = w_now w\<rparr>"
    "w_files u = w_files w" "w_nextfd u = w_nextfd w" by auto
  then have "node_of u i = Some (Regular [])" by (auto simp: created_def node_of_def)
  with o assms(2) u have "v = u\<lparr>w_files := (w_files w)(w_nextfd w \<mapsto> \<lparr>f_ino = i, f_pos = 0, f_wr = True\<rparr>),
      w_nextfd := w_nextfd w + 1\<rparr>" "fd = w_nextfd w"
    by (auto simp: open_inode_def create_flags_def new_fd_def Let_def)
  with u d show ?thesis
    by (auto simp: created_def same_env_def fun_eq_iff file_bytes_def attrs_def)
qed auto

lemma openat_create_errD:
  assumes "sys_openat dfd n fl m w = (Inl e, v)" and "create_flags fl" and "plain_name n"
    and "fresh_inode w"
  shows "quiet w v"
  using assms(1) unfolding sys_openat_def
proof (cases rule: syscall_cases)
  case (run lim)
  let ?w = "w\<lparr>w_script := tl (w_script w)\<rparr>"
  have fl: "O_CREAT \<in> set fl" "O_EXCL \<in> set fl" using assms(2) by (auto simp: create_flags_def)
  show ?thesis
  proof (rule ccontr)
    assume "\<not> quiet w v"
    with run assms(3) obtain d p es i u where d: "dir_of w d = Some (p, es)"
      and c: "create_inode d n (Regular []) m ?w = (i, u)" and o: "open_inode i fl u = (Inl e, v)"
      by (auto simp: posix_simps fl dest!: plain_nameD split: option.splits if_splits prod.splits
        node.splits)
    have "fresh_inode ?w" "dir_of ?w d \<noteq> None" using assms(4) d by (auto simp: fresh_inode_def)
    from create_inode_created [OF this c] have "node_of u i = Some (Regular [])"
      by (auto simp: created_def node_of_def)
    with o assms(2) show False
      by (auto simp: open_inode_def create_flags_def new_fd_def Let_def)
  qed
qed (rule pops_quiet)

lemma mkdirat_okD:
  assumes "sys_mkdirat dfd n m w = (Inr (), v)" and "plain_name n" and "fresh_inode w"
  shows "\<exists>d. fd_ino w dfd = Some d \<and> entry w d n = None \<and>
    created w v d n \<lparr>i_node = Directory d [], i_uid = w_uid w, i_mode = m, i_nlink = 1,
      i_mtime = w_now w, i_ctime = w_now w\<rparr> \<and>
    w_files v = w_files w \<and> w_nextfd v = w_nextfd w"
  using assms(1) unfolding sys_mkdirat_def
proof (cases rule: syscall_cases)
  case (run lim)
  let ?w = "w\<lparr>w_script := tl (w_script w)\<rparr>"
  from run assms(2) obtain d where d: "fd_ino w dfd = Some d" "dir_of w d \<noteq> None"
    "entry w d n = None" and c: "v = snd (create_inode d n (Directory d []) m ?w)"
    by (auto simp: posix_simps dest!: plain_nameD split: option.splits if_splits)
  have "fresh_inode ?w" "dir_of ?w d \<noteq> None" using assms(3) d by (auto simp: fresh_inode_def)
  moreover obtain i where "create_inode d n (Directory d []) m ?w = (i, v)"
    using c by (metis prod.collapse)
  ultimately have "i = w_next w \<and> created ?w v d n \<lparr>i_node = Directory d [], i_uid = w_uid w,
      i_mode = m, i_nlink = 1, i_mtime = w_now w, i_ctime = w_now w\<rparr> \<and>
    w_files v = w_files w \<and> w_nextfd v = w_nextfd w"
    using create_inode_created by fastforce
  with d show ?thesis by (auto simp: created_def same_env_def)
qed auto

lemma mkdirat_errD:
  assumes "sys_mkdirat dfd n m w = (Inl e, v)" and "plain_name n"
  shows "quiet w v"
  using assms(1) unfolding sys_mkdirat_def
  by (cases rule: syscall_cases)
    (use assms(2) in \<open>auto simp: posix_simps split: option.splits if_splits intro: pops_quiet\<close>)

section \<open>Open and check\<close>

text \<open>
  The pattern of the file components: open an existing entry without following a link, take
  its status, and close it again unless a test accepts the status. \<open>Inl (Some e)\<close> is a
  failed \<open>openat\<close>, \<open>Inl None\<close> a failed \<open>fstat\<close> or test.
\<close>

definition open_checked :: "oflag list \<Rightarrow> (nat \<Rightarrow> stat \<Rightarrow> bool) \<Rightarrow> fd \<Rightarrow> string \<Rightarrow> world \<Rightarrow>
    (errno option + fd) \<times> world" where
  "open_checked flags chk dirfd n w =
     (case sys_openat dirfd n flags 0 w of
        (Inl e, w) \<Rightarrow> (Inl (Some e), w)
      | (Inr fd, w) \<Rightarrow>
          (case sys_fstat fd w of
             (Inl e, w) \<Rightarrow> (Inl None, sys_close fd w)
           | (Inr st, w) \<Rightarrow> if chk (w_uid w) st then (Inr fd, w) else (Inl None, sys_close fd w)))"

lemma open_checked_ok:
  assumes "open_checked fl chk dfd n w = (Inr fd, v)" and "ro_flags fl" and "plain_name n"
  shows "\<exists>d i nd. fd_ino w dfd = Some d \<and> entry w d n = Some i \<and> w_inodes w i = Some nd \<and>
    chk (w_uid w) (stat_of i nd) \<and> (O_DIRECTORY \<in> set fl \<longrightarrow> dir_of w i \<noteq> None) \<and> opened w v fd i False"
proof -
  from assms(1) obtain u st where o: "sys_openat dfd n fl 0 w = (Inr fd, u)"
    and s: "sys_fstat fd u = (Inr st, v)" and c: "chk (w_uid v) st"
    by (auto simp: open_checked_def split: prod.splits sum.splits if_splits)
  from openat_ro_okD [OF o assms(2,3)] obtain d i where
    d: "fd_ino w dfd = Some d" "entry w d n = Some i" "O_DIRECTORY \<in> set fl \<longrightarrow> dir_of w i \<noteq> None"
      "opened w u fd i False"
    by blast
  from fstat_okD [OF s] opened_lookups(6) [OF d(4)] obtain nd where
    "quiet u v" "w_inodes u i = Some nd" "st = stat_of i nd" by auto
  with d c opened_quiet [OF d(4)] quiet_lookups(5) [of u v] opened_lookups(4,5) [OF d(4)]
  show ?thesis by auto
qed

lemma open_checked_err:
  assumes "open_checked fl chk dfd n w = (Inl e, v)" and "ro_flags fl" and "plain_name n" and "wf_fds w"
  shows "returned w v"
proof -
  obtain r u where o: "sys_openat dfd n fl 0 w = (r, u)" by fastforce
  show ?thesis
  proof (cases r)
    case (Inl e)
    with o openat_ro_errD [OF _ assms(2,3)] assms(1) show ?thesis
      by (auto simp: open_checked_def quiet_returned)
  next
    case (Inr g)
    with openat_ro_okD [OF _ assms(2,3)] o obtain i where op: "opened w u g i False" by blast
    from assms(1) o Inr obtain r' u' where s: "sys_fstat g u = (r', u')" and v: "v = sys_close g u'"
      by (auto simp: open_checked_def split: prod.splits sum.splits if_splits)
    from s have "quiet u u'" by (cases r') (auto dest: fstat_okD fstat_errD)
    from opened_closed [OF op assms(4) this] v show ?thesis by simp
  qed
qed

text \<open>Opening a directory by \<open>"."\<close> or by any path, links followed or not.\<close>

lemma openat_reaches:
  assumes "sys_openat dfd path fl m w = (r, v)" and "O_CREAT \<notin> set fl"
  shows "(\<exists>e. r = Inl e \<and> quiet w v) \<or> (\<exists>j. open_inode j fl (w\<lparr>w_script := tl (w_script w)\<rparr>) = (r, v))"
  using assms(1) unfolding sys_openat_def
proof (cases rule: syscall_cases)
  case (run lim)
  let ?w = "w\<lparr>w_script := tl (w_script w)\<rparr>"
  show ?thesis
  proof (cases "parent_of ?w dfd path")
    case (Inl e)
    with run show ?thesis by auto
  next
    case (Inr dn)
    obtain d n where dn: "dn = (d, n)" by (cases dn)
    have "v = ?w \<and> (\<exists>e. r = Inl e) \<or> (\<exists>j. open_inode j fl ?w = (r, v))"
    proof (cases "entry ?w d n")
      case None
      with run Inr dn assms(2) show ?thesis
        by (auto split: if_splits option.splits)
    next
      case (Some i)
      with run Inr dn assms(2) show ?thesis
        by (auto simp del: walk.simps split: if_splits option.splits node.splits sum.splits)
    qed
    then show ?thesis by auto
  qed
qed (auto intro: pops_quiet)

lemma open_inode_plain:
  assumes "open_inode j fl w = (r, v)" and "O_WRONLY \<notin> set fl" "O_RDWR \<notin> set fl"
  shows "(\<exists>e. r = Inl e \<and> v = w) \<or> r = Inr (w_nextfd w) \<and> opened w v (w_nextfd w) j False \<and>
    (O_DIRECTORY \<in> set fl \<longrightarrow> dir_of w j \<noteq> None)"
  using assms
  by (auto simp: open_inode_def new_fd_def opened_def node_of_def dir_of_def
      same_disk_def fewer_faults_def Let_def split: option.splits node.splits if_splits)

lemma openat_dir_okD:
  assumes "sys_openat dfd path fl m w = (Inr fd, v)" and "O_CREAT \<notin> set fl"
    and "O_WRONLY \<notin> set fl" "O_RDWR \<notin> set fl"
  shows "\<exists>i. opened w v fd i False \<and> (O_DIRECTORY \<in> set fl \<longrightarrow> dir_of w i \<noteq> None)"
  using openat_reaches [OF assms(1,2)] open_inode_plain [OF _ assms(3,4)] quiet_opened [OF quiet_script]
  by fastforce

lemma openat_dir_errD:
  assumes "sys_openat dfd path fl m w = (Inl e, v)" and "O_CREAT \<notin> set fl"
    and "O_WRONLY \<notin> set fl" "O_RDWR \<notin> set fl"
  shows "quiet w v"
  using openat_reaches [OF assms(1,2)] open_inode_plain [OF _ assms(3,4)] by fastforce

lemma parent_of_dot:
  "parent_of w dfd ''.'' = (case fd_ino w dfd of None \<Rightarrow> Inl EBADF
     | Some d \<Rightarrow> if dir_of w d = None then Inl ENOTDIR else Inr (d, ''.''))"
  by (auto simp: parent_of_def components_def has_prefix_def split: option.splits)

lemma openat_dot_okD:
  assumes "sys_openat dfd ''.'' fl m w = (Inr fd, v)" and "O_CREAT \<notin> set fl"
    and "O_WRONLY \<notin> set fl" "O_RDWR \<notin> set fl"
  shows "\<exists>d. fd_ino w dfd = Some d \<and> opened w v fd d False"
  using assms(1) unfolding sys_openat_def
proof (cases rule: syscall_cases)
  case (run lim)
  with assms(2) obtain d where d: "fd_ino w dfd = Some d"
    "open_inode d fl (w\<lparr>w_script := tl (w_script w)\<rparr>) = (Inr fd, v)"
    by (auto simp: parent_of_dot split: option.splits if_splits)
  from open_inode_plain [OF d(2) assms(3,4)] d(1) show ?thesis
    by (auto intro: quiet_opened [OF quiet_script])
qed auto

section \<open>Adding one name\<close>

text \<open>
  \<open>kept_but n w v\<close>: all entries and contents of \<open>w\<close> are kept in \<open>v\<close>, and
  entries were added under the name \<open>n\<close> only.
\<close>

definition kept_but :: "string \<Rightarrow> world \<Rightarrow> world \<Rightarrow> bool" where
  "kept_but n w v \<longleftrightarrow> (\<forall>d. entry w d \<subseteq>\<^sub>m entry v d) \<and>
    (\<forall>d m. m \<noteq> n \<longrightarrow> entry v d m = entry w d m) \<and> file_bytes w \<subseteq>\<^sub>m file_bytes v"

lemma kept_but_same: "same_disk w v \<Longrightarrow> kept_but n w v"
  by (auto simp: kept_but_def same_disk_def entry_def dir_of_def file_bytes_def node_of_def map_le_def)

lemma kept_but_frames:
  "quiet w v \<Longrightarrow> kept_but n w v" "opened w v fd i wr \<Longrightarrow> kept_but n w v"
  "returned w v \<Longrightarrow> kept_but n w v"
  by (auto simp: quiet_def opened_def returned_def dest: kept_but_same)

lemma kept_but_trans: "kept_but n u v \<Longrightarrow> kept_but n v w \<Longrightarrow> kept_but n u w"
  unfolding kept_but_def by (auto intro: map_le_trans)

lemma kept_but_close [simp]: "kept_but n w (sys_close p v) = kept_but n w v"
  by (simp add: kept_but_def)

lemma kept_but_entry: "kept_but n w v \<Longrightarrow> entry w d m = Some i \<Longrightarrow> entry v d m = Some i"
  unfolding kept_but_def map_le_def by (metis domI)

lemma created_kept:
  assumes "created w v d n nd" and "fresh_inode w" and "entry w d n = None"
    and "i_node nd = Directory d []"
  shows "kept_but n w v"
proof -
  let ?i = "w_next w"
  have fresh: "entry w ?i m = None" "file_bytes w ?i = None" for m
    using assms(2) by (auto simp: fresh_inode_def entry_def dir_of_def file_bytes_def node_of_def)
  have new: "d \<noteq> ?i \<Longrightarrow> entry v ?i m = None" for m
    using assms(1,4) by (simp add: created_def entry_def dir_of_def)
  have e: "entry v d = (entry w d)(n \<mapsto> ?i)" "\<And>k. k \<noteq> d \<Longrightarrow> k \<noteq> ?i \<Longrightarrow> entry v k = entry w k"
    "\<And>k. k \<noteq> ?i \<Longrightarrow> file_bytes v k = file_bytes w k"
    using assms(1) by (auto simp: created_def)
  have other: "entry v k m = entry w k m" if "k \<noteq> d \<or> m \<noteq> n" for k m
    using that e(1) e(2) [of k] new [of m] fresh(1) by (cases "k = d"; cases "k = ?i") auto
  have "entry w k \<subseteq>\<^sub>m entry v k" for k
    unfolding map_le_def using other [of k] assms(3) by (metis domIff)
  moreover have "file_bytes w \<subseteq>\<^sub>m file_bytes v"
    unfolding map_le_def using fresh(2) e(3) by (metis domIff)
  ultimately show ?thesis unfolding kept_but_def using other by blast
qed

lemma mkdirat_kept:
  assumes "sys_mkdirat p n m w = (r, v)" and "fresh_inode w" and "plain_name n"
  shows "kept_but n w v \<and> w_files v = w_files w \<and> w_nextfd v = w_nextfd w \<and> w_uid v = w_uid w"
proof (cases r)
  case (Inl e)
  with mkdirat_errD [OF _ assms(3)] assms(1) have "quiet w v" by blast
  then show ?thesis by (auto simp: quiet_def same_disk_def intro: kept_but_frames)
next
  case (Inr x)
  then have "sys_mkdirat p n m w = (Inr (), v)" using assms(1) by simp
  from mkdirat_okD [OF this assms(3,2)] show ?thesis
    by (auto simp: created_def same_env_def intro!: created_kept [OF _ assms(2)])
qed

section \<open>Walking down plain components\<close>

text \<open>The inode that names lead to, one entry after the other, no link followed.\<close>

fun chain :: "world \<Rightarrow> ino \<Rightarrow> string list \<Rightarrow> ino option" where
  "chain w d [] = Some d"
| "chain w d (c # cs) = (case entry w d c of None \<Rightarrow> None | Some i \<Rightarrow> chain w i cs)"

lemma chain_kept: "kept_but n w v \<Longrightarrow> chain w d cs = Some i \<Longrightarrow> chain v d cs = Some i"
  by (induction cs arbitrary: d) (auto split: option.splits dest: kept_but_entry)

lemma chain_cong: "entry w = entry v \<Longrightarrow> chain w d cs = chain v d cs"
  by (induction cs arbitrary: d) (auto split: option.splits)

text \<open>
  \<open>holds w v fd i\<close>: since \<open>w\<close> exactly the descriptor \<open>fd\<close> was opened, on inode
  \<open>i\<close>; \<open>freed w v\<close>: nothing is left open. The disk may have changed.
\<close>

definition holds :: "world \<Rightarrow> world \<Rightarrow> fd \<Rightarrow> ino \<Rightarrow> bool" where
  "holds w v fd i \<longleftrightarrow> w_nextfd w \<le> fd \<and> fd < w_nextfd v \<and> w_uid v = w_uid w \<and>
     w_files v = (w_files w)(fd \<mapsto> \<lparr>f_ino = i, f_pos = 0, f_wr = False\<rparr>)"

definition freed :: "world \<Rightarrow> world \<Rightarrow> bool" where
  "freed w v \<longleftrightarrow> w_nextfd w \<le> w_nextfd v \<and> w_uid v = w_uid w \<and> w_files v = w_files w"

lemma holds_wf: "holds w v fd i \<Longrightarrow> wf_fds w \<Longrightarrow> wf_fds v"
  by (auto simp: holds_def wf_fds_def)

lemma holds_nonneg: "holds w v fd i \<Longrightarrow> wf_fds w \<Longrightarrow> 0 \<le> fd"
  by (auto simp: holds_def wf_fds_def)

lemma holds_fd_ino: "holds w v fd i \<Longrightarrow> fd_ino v fd = Some i"
  by (simp add: holds_def fd_ino_def)

lemma opened_holds: "opened w v fd i False \<Longrightarrow> holds w v fd i"
  by (simp add: opened_def holds_def same_disk_def)

lemma holds_quiet: "holds w v fd i \<Longrightarrow> quiet v u \<Longrightarrow> holds w u fd i"
  by (simp add: holds_def quiet_def same_disk_def)

lemma holds_closed: "holds w v fd i \<Longrightarrow> wf_fds w \<Longrightarrow> freed w (sys_close fd v)"
  by (auto simp: holds_def freed_def wf_fds_def fun_upd_idem)

lemma holds_step:
  "wf_fds w \<Longrightarrow> holds w u d k \<Longrightarrow> opened u v fd i False \<Longrightarrow> holds w (sys_close d v) fd i"
  by (auto simp: holds_def opened_def wf_fds_def same_disk_def fun_eq_iff)

lemma quiet_freed: "quiet w v \<Longrightarrow> freed w v"
  by (simp add: quiet_def freed_def same_disk_def)

lemma holds_opened_up: "holds w v fd i \<Longrightarrow> same_disk w v \<Longrightarrow> fewer_faults w v \<Longrightarrow> opened_up w v fd i"
  by (simp add: holds_def opened_up_def)

section \<open>Removing names from a directory\<close>

definition minus_entries :: "(ino \<Rightarrow> string \<Rightarrow> ino option) \<Rightarrow> ino \<Rightarrow> string set \<Rightarrow> ino \<Rightarrow> string \<Rightarrow> ino option" where
  "minus_entries E d R = E(d := \<lambda>n. if n \<in> R then None else E d n)"

lemma minus_entries_apply: "minus_entries E d R e n = (if e = d \<and> n \<in> R then None else E e n)"
  by (simp add: minus_entries_def)

lemma minus_none [simp]: "minus_entries E d {} = E"
  by (simp add: minus_entries_def)

lemma minus_single: "E(a := (E a)(n := None)) = minus_entries E a {n}"
  by (auto simp: minus_entries_def fun_eq_iff)

lemma minus_minus: "minus_entries (minus_entries E d R) d S = minus_entries E d (R \<union> S)"
  by (auto simp: minus_entries_def fun_eq_iff)

lemma edited_minus_quiet: "quiet w v \<Longrightarrow> edited w v (minus_entries (entry w) d {})"
  using edited_quiet by simp

lemma edited_minus_trans:
  assumes "edited u v (minus_entries (entry u) d R)" and "edited v w (minus_entries (entry v) d S)"
  shows "edited u w (minus_entries (entry u) d (R \<union> S))"
proof -
  have "entry v = minus_entries (entry u) d R" using assms(1) by (simp add: edited_def)
  with edited_trans [OF assms] show ?thesis by (simp add: minus_minus)
qed

lemma unlink_minus:
  assumes "sys_unlinkat dfd n False w = (r, v)" and "plain_name n" and "fd_ino w dfd = Some d"
  shows "\<exists>R \<subseteq> {n}. edited w v (minus_entries (entry w) d R) \<and> (\<forall>x. r = Inr x \<longrightarrow> R = {n})"
proof (cases r)
  case (Inl e)
  with unlink_errD [OF _ assms(2)] assms(1) have "quiet w v" by blast
  from edited_minus_quiet [OF this] Inl show ?thesis by (intro exI [of _ "{}"]) auto
next
  case (Inr x)
  then have "sys_unlinkat dfd n False w = (Inr (), v)" using assms(1) by simp
  from unlink_okD [OF this assms(2)] assms(3) show ?thesis
    by (intro exI [of _ "{n}"]) (auto simp: minus_single)
qed

section \<open>A small world\<close>

text \<open>
  The concrete input of the witnesses: the root directory has a private directory
  \<open>up\<close> with a file \<open>f\<close> of two bytes and a symbolic link \<open>s\<close> to it;
  descriptor 3 is the root, descriptor 4 the private directory.
\<close>

definition sample_inode :: "node \<Rightarrow> mode \<Rightarrow> inode" where
  "sample_inode n m = \<lparr>i_node = n, i_uid = 7, i_mode = m, i_nlink = 1, i_mtime = (0, 0), i_ctime = (0, 0)\<rparr>"

definition sample_world :: "outcome list \<Rightarrow> world" where
  "sample_world script = \<lparr>w_inodes = (\<lambda>i. if i = 0 then Some (sample_inode (Directory 0 [(''up'', 1)]) M0700)
       else if i = 1 then Some (sample_inode (Directory 0 [(''f'', 2), (''s'', 3)]) M0700)
       else if i = 2 then Some (sample_inode (Regular ''hi'') M0600)
       else if i = 3 then Some (sample_inode (Symlink ''f'') M0777) else None),
     w_next = 4, w_root = 0,
     w_files = (\<lambda>fd. if fd = 3 then Some \<lparr>f_ino = 0, f_pos = 0, f_wr = False\<rparr>
       else if fd = 4 then Some \<lparr>f_ino = 1, f_pos = 0, f_wr = False\<rparr> else None),
     w_nextfd = 5, w_uid = 7, w_now = (0, 0), w_script = script\<rparr>"

lemma sample_wf: "wf_fds (sample_world s)" "fresh_inode (sample_world s)"
  by (auto simp: sample_world_def wf_fds_def fresh_inode_def)

lemma sample_wf_dirs: "wf_dirs (sample_world s)"
  by (auto simp: sample_world_def sample_inode_def wf_dirs_def entry_def dir_of_def plain_name_def
    split: if_splits)

lemmas posix_run = sys_openat_def sys_fstat_def sys_fstatat_def sys_close_def sys_fsync_def
  sys_unlinkat_def sys_renameat_def sys_mkdirat_def sys_fdopendir_def sys_readdir_def sys_write_def
  sys_read_def sys_pread_def sys_dup_def syscall_def tick_def parent_of_def walk.simps components_def
  has_prefix_def fd_ino_def dir_of_def entry_def node_of_def stat_of_def open_inode_def new_fd_def
  create_inode_def set_entry_def set_node_def add_nlink_def touch_def unlink_entry_def
  rename_entry_def file_bytes_def limited_def put_bytes_def Let_def S_ISREG_def S_ISDIR_def
  sample_world_def sample_inode_def mode_defs

end
