(* ===== verification/Uploads.thy ===== *)
theory Uploads
  imports Owned
begin

text \<open>
  \<open>src/relay/uploads.c\<close>: the relay keeps each upload in a private directory below an
  upload root that is already open. One definition per function; results are the C
  integers (a descriptor, 0 or -1). NULL names, which \<open>component\<close> refuses, are not
  represented.
\<close>

section \<open>Operations\<close>

text \<open>The name test \<open>component\<close> of the file.\<close>

definition upload_component :: "string \<Rightarrow> bool" where
  "upload_component name \<longleftrightarrow> name \<noteq> '''' \<and> name \<noteq> ''.'' \<and> name \<noteq> ''..'' \<and>
     CHR ''/'' \<notin> set name \<and> length name \<le> 255"

definition private_directory :: "fd \<Rightarrow> string \<Rightarrow> world \<Rightarrow> int \<times> world" where
  "private_directory root ident w =
     (if \<not> upload_component ident then (-1, w)
      else case sys_openat root ident [O_RDONLY, O_DIRECTORY, O_NOFOLLOW, O_CLOEXEC] 0 w of
        (Inl e, w) \<Rightarrow> (-1, w)
      | (Inr fd, w) \<Rightarrow>
          (case sys_fstat fd w of
             (Inl e, w) \<Rightarrow> (-1, sys_close fd w)
           | (Inr st, w) \<Rightarrow>
               if st_uid st \<noteq> w_uid w \<or> st_mode st AND M077 \<noteq> 0 then (-1, sys_close fd w)
               else (fd, w)))"

definition zr_upload_directory :: "fd \<Rightarrow> string \<Rightarrow> world \<Rightarrow> int \<times> world" where
  "zr_upload_directory root ident w =
     (if \<not> upload_component ident then (-1, w)
      else case sys_mkdirat root ident M0700 w of
        (Inl e, w) \<Rightarrow> (-1, w)
      | (Inr _, w) \<Rightarrow>
          (case private_directory root ident w of (fd, w) \<Rightarrow>
             if fd < 0 then (-1, w)
             else case sys_fsync root w of
               (Inl e, w) \<Rightarrow> (-1, sys_close fd w)
             | (Inr _, w) \<Rightarrow> (fd, w)))"

definition zr_upload_temporary :: "fd \<Rightarrow> string \<Rightarrow> world \<Rightarrow> int \<times> world" where
  "zr_upload_temporary directory name w =
     (if \<not> upload_component name then (-1, w)
      else case sys_openat directory name [O_RDWR, O_CREAT, O_EXCL, O_NOFOLLOW, O_CLOEXEC] M0600 w of
        (Inl e, w) \<Rightarrow> (-1, w)
      | (Inr fd, w) \<Rightarrow> (fd, w))"

definition zr_upload_write :: "fd \<Rightarrow> char list \<Rightarrow> world \<Rightarrow> int \<times> world" where
  "zr_upload_write fd bytes w =
     (case write_all fd bytes w of (ok, w) \<Rightarrow> (if ok then 0 else -1, w))"

definition max_upload :: nat where "max_upload = 100 * 1024 * 1024"

text \<open>The conditions of \<open>regular_file\<close> on the status, and the function itself.\<close>

definition upload_st_ok :: "nat \<Rightarrow> nat \<Rightarrow> stat \<Rightarrow> bool" where
  "upload_st_ok len uid st \<longleftrightarrow> S_ISREG st \<and> st_uid st = uid \<and> st_nlink st = 1 \<and>
     st_mode st AND M077 = 0 \<and> 0 \<le> st_size st \<and> nat (st_size st) = len"

definition regular_file :: "fd \<Rightarrow> nat \<Rightarrow> world \<Rightarrow> bool \<times> world" where
  "regular_file fd len w =
     (if \<not> len \<le> max_upload then (False, w)
      else case sys_fstat fd w of
        (Inl e, w) \<Rightarrow> (False, w)
      | (Inr st, w) \<Rightarrow> (upload_st_ok len (w_uid w) st, w))"

definition zr_upload_install :: "fd \<Rightarrow> fd \<Rightarrow> string \<Rightarrow> string \<Rightarrow> nat \<Rightarrow> world \<Rightarrow> int \<times> world" where
  "zr_upload_install directory fd temporary name len w =
     (if \<not> upload_component temporary \<or> \<not> upload_component name \<or> temporary = name then (-1, w)
      else case regular_file fd len w of (ok, w) \<Rightarrow>
        if \<not> ok then (-1, w)
        else case sys_fsync fd w of
          (Inl e, w) \<Rightarrow> (-1, w)
        | (Inr _, w) \<Rightarrow>
            (case sys_fstatat directory name w of
               (Inr st, w) \<Rightarrow> (-1, w)
             | (Inl e, w) \<Rightarrow>
                 if e \<noteq> ENOENT then (-1, w)
                 else case sys_renameat directory temporary directory name w of
                   (Inl e, w) \<Rightarrow> (-1, w)
                 | (Inr _, w) \<Rightarrow>
                     (case sys_fsync directory w of
                        (Inl e, w) \<Rightarrow> (-1, w)
                      | (Inr _, w) \<Rightarrow> (0, w))))"

definition zr_upload_open :: "fd \<Rightarrow> string \<Rightarrow> string \<Rightarrow> nat \<Rightarrow> world \<Rightarrow> int \<times> world" where
  "zr_upload_open root ident name len w =
     (if \<not> upload_component name then (-1, w)
      else case private_directory root ident w of (directory, w) \<Rightarrow>
        if directory < 0 then (-1, w)
        else case sys_openat directory name [O_RDONLY, O_NOFOLLOW, O_CLOEXEC, O_NONBLOCK] 0 w of
          (Inl e, w) \<Rightarrow> (-1, sys_close directory w)
        | (Inr fd, w) \<Rightarrow>
            (case regular_file fd len (sys_close directory w) of (ok, w) \<Rightarrow>
               if \<not> ok then (-1, sys_close fd w) else (fd, w)))"

text \<open>The loop over the directory stream of \<open>zr_upload_remove\<close>; the last two arguments
  before the world are \<open>count\<close> and the names \<open>readdir\<close> has not yet returned.\<close>

fun remove_entries :: "fd \<Rightarrow> nat \<Rightarrow> string list \<Rightarrow> world \<Rightarrow> int \<times> world" where
  "remove_entries fd count [] w =
     (case sys_readdir [] w of (Inl e, w) \<Rightarrow> (-1, w) | (Inr _, w) \<Rightarrow> (0, w))"
| "remove_entries fd count (ename # names) w =
     (case sys_readdir (ename # names) w of
        (Inl e, w) \<Rightarrow> (-1, w)
      | (Inr _, w) \<Rightarrow>
          if ename = ''.'' \<or> ename = ''..'' then remove_entries fd count names w
          else if Suc count > 16 then (-1, w)
          else (case sys_unlinkat fd ename False w of
              (Inl e, w) \<Rightarrow> (-1, w)
            | (Inr _, w) \<Rightarrow> remove_entries fd (Suc count) names w))"

definition zr_upload_remove :: "fd \<Rightarrow> string \<Rightarrow> world \<Rightarrow> int \<times> world" where
  "zr_upload_remove root ident w =
     (if \<not> upload_component ident then (-1, w)
      else case sys_fstatat root ident w of
        (Inl e, w) \<Rightarrow> (if e = ENOENT then 0 else -1, w)
      | (Inr st, w) \<Rightarrow>
          if \<not> S_ISDIR st then (-1, w)
          else case private_directory root ident w of (fd, w) \<Rightarrow>
            if fd < 0 then (-1, w)
            else case sys_fdopendir fd w of
              (Inl e, w) \<Rightarrow> (-1, sys_close fd w)
            | (Inr names, w) \<Rightarrow>
                (case remove_entries fd 0 names w of (result, w) \<Rightarrow>
                   let w = sys_close fd w in
                   if result \<noteq> 0 then (result, w)
                   else case sys_unlinkat root ident True w of
                     (Inl e, w) \<Rightarrow> (-1, w)
                   | (Inr _, w) \<Rightarrow>
                       (case sys_fsync root w of
                          (Inl e, w) \<Rightarrow> (-1, w)
                        | (Inr _, w) \<Rightarrow> (0, w))))"

section \<open>The contracts\<close>

lemma upload_component_plain [name_rules]: "upload_component n \<Longrightarrow> plain_name n"
  by (simp add: upload_component_def plain_name_def)

interpretation upload_names: name_guard upload_component
  by unfold_locales (rule upload_component_plain)

interpretation upload_writer: full_writer "\<lambda>fd bs w. (case zr_upload_write fd bs w of (r, w) \<Rightarrow> (r = 0, w))"
proof unfold_locales
  fix w fd bs ok v
  assume "writable w fd" "(case zr_upload_write fd bs w of (r, w) \<Rightarrow> (r = 0, w)) = (ok, v)"
  then show "\<exists>k\<le>length bs. wrote w v fd (take k bs) \<and> (ok \<longrightarrow> k = length bs)"
    using write_all_effect [of w fd bs ok v]
    by (auto simp: zr_upload_write_def split: prod.splits if_splits)
next
  fix w fd bs
  assume "writable w fd" "w_script w = []"
  then show "fst (case zr_upload_write fd bs w of (r, w) \<Rightarrow> (r = 0, w))"
    using write_all_no_faults [of w fd bs] by (auto simp: zr_upload_write_def split: prod.splits)
qed

text \<open>The directory \<open>private_directory\<close> stands for: an entry of the root, owned and private.\<close>

definition upload_dir :: "fd \<Rightarrow> string \<Rightarrow> world \<Rightarrow> ino option" where
  "upload_dir root ident w = (case fd_ino w root of None \<Rightarrow> None | Some r \<Rightarrow> entry w r ident)"

definition private_dir :: "world \<Rightarrow> ino \<Rightarrow> bool" where
  "private_dir w i \<longleftrightarrow> dir_of w i \<noteq> None \<and>
     (\<exists>nd. w_inodes w i = Some nd \<and> i_uid nd = w_uid w \<and> i_mode nd AND M077 = 0)"

lemma private_directory_ok:
  assumes "private_directory root ident w = (fd, v)" and "0 \<le> fd"
  shows "upload_component ident \<and> (\<exists>i. upload_dir root ident w = Some i \<and> private_dir w i \<and>
    opened w v fd i False)"
proof -
  from assms obtain u st where cid: "upload_component ident"
    and o: "sys_openat root ident [O_RDONLY, O_DIRECTORY, O_NOFOLLOW, O_CLOEXEC] 0 w = (Inr fd, u)"
    and s: "sys_fstat fd u = (Inr st, v)" and st: "st_uid st = w_uid v" "st_mode st AND M077 = 0"
    by (auto simp: private_directory_def split: prod.splits sum.splits if_splits)
  from openat_ro_okD [OF o _ upload_component_plain [OF cid]] obtain d i where
    d: "fd_ino w root = Some d" "entry w d ident = Some i" "dir_of w i \<noteq> None" "opened w u fd i False"
    by (auto simp: ro_flags_def)
  from fstat_okD [OF s] obtain nd where "quiet u v" "w_inodes u i = Some nd" "st = stat_of i nd"
    using opened_lookups(6) [OF d(4)] by auto
  with d st cid opened_quiet [OF d(4)] quiet_lookups(5) [of u v] opened_lookups(4,5) [OF d(4)]
  show ?thesis by (auto simp: upload_dir_def private_dir_def stat_of_def)
qed

lemma private_directory_err:
  assumes "private_directory root ident w = (fd, v)" and "fd < 0" and "wf_fds w"
  shows "fd = -1 \<and> returned w v"
proof (cases "upload_component ident")
  case False
  with assms show ?thesis by (auto simp: private_directory_def quiet_returned)
next
  case cid: True
  obtain r u where o: "sys_openat root ident [O_RDONLY, O_DIRECTORY, O_NOFOLLOW, O_CLOEXEC] 0 w = (r, u)"
    by fastforce
  have fl: "ro_flags [O_RDONLY, O_DIRECTORY, O_NOFOLLOW, O_CLOEXEC]" by (simp add: ro_flags_def)
  show ?thesis
  proof (cases r)
    case (Inl e)
    with o openat_ro_errD [OF _ fl upload_component_plain [OF cid]] assms cid show ?thesis
      by (auto simp: private_directory_def quiet_returned)
  next
    case (Inr g)
    with openat_ro_okD [OF _ fl upload_component_plain [OF cid]] o
    obtain i where op: "opened w u g i False" by blast
    from opened_nonneg [OF this assms(3)] have "\<not> g < 0" by simp
    with assms cid o Inr obtain r' u' where s: "sys_fstat g u = (r', u')"
      and v: "fd = -1" "v = sys_close g u'"
      by (auto simp: private_directory_def split: prod.splits sum.splits if_splits)
    from s have "quiet u u'" by (cases r') (auto dest: fstat_okD fstat_errD)
    from opened_closed [OF op assms(3) this] v show ?thesis by simp
  qed
qed

lemma regular_file_quiet: "regular_file fd len w = (ok, v) \<Longrightarrow> quiet w v"
  by (auto simp: regular_file_def dest: fstat_okD fstat_errD split: if_splits prod.splits sum.splits)

lemma regular_file_ok:
  assumes "regular_file fd len w = (True, v)"
  shows "len \<le> max_upload \<and> (\<exists>i nd. fd_ino w fd = Some i \<and> w_inodes w i = Some nd \<and>
    upload_st_ok len (w_uid w) (stat_of i nd))"
  using assms
  by (auto simp: regular_file_def quiet_lookups dest!: fstat_okD split: if_splits prod.splits sum.splits)

lemma upload_dir_cong: "returned w v \<Longrightarrow> upload_dir root ident v = upload_dir root ident w"
  by (simp add: upload_dir_def returned_lookups split: option.splits)

lemma upload_st_ok_checks: "upload_st_ok len u st \<Longrightarrow> S_ISREG st \<and> st_uid st = u \<and> st_nlink st = 1"
  by (simp add: upload_st_ok_def)

lemma zr_upload_open_ok:
  assumes "wf_fds w" and "zr_upload_open root ident name len w = (fd, v)" and "0 \<le> fd"
  shows "upload_component name \<and> len \<le> max_upload \<and> (\<exists>d i nd. upload_dir root ident w = Some d \<and>
    private_dir w d \<and> entry w d name = Some i \<and> w_inodes w i = Some nd \<and>
    upload_st_ok len (w_uid w) (stat_of i nd) \<and> opened_up w v fd i)"
proof -
  have fl: "ro_flags [O_RDONLY, O_NOFOLLOW, O_CLOEXEC, O_NONBLOCK]" by (simp add: ro_flags_def)
  from assms(2,3) obtain dfd u x where n: "upload_component name"
    and p: "private_directory root ident w = (dfd, u)" "0 \<le> dfd"
    and o: "sys_openat dfd name [O_RDONLY, O_NOFOLLOW, O_CLOEXEC, O_NONBLOCK] 0 u = (Inr fd, x)"
    and r: "regular_file fd len (sys_close dfd x) = (True, v)"
    by (auto simp: zr_upload_open_def split: prod.splits sum.splits if_splits)
  from private_directory_ok [OF p] obtain d where
    d: "upload_dir root ident w = Some d" "private_dir w d" and od: "opened w u dfd d False"
    by blast
  from openat_ro_okD [OF o fl upload_component_plain [OF n]] opened_lookups(3,6) [OF od]
  obtain i where i: "entry w d name = Some i" and oi: "opened u x fd i False"
    by auto
  have up: "opened_up w (sys_close dfd x) fd i"
    by (rule opened_opened_close [OF assms(1) od oi])
  from regular_file_ok [OF r] opened_up_lookups(5,6,4) [OF up] obtain nd where
    "len \<le> max_upload" "w_inodes w i = Some nd" "upload_st_ok len (w_uid w) (stat_of i nd)"
    by auto
  with n d i opened_up_quiet [OF up regular_file_quiet [OF r]] show ?thesis by blast
qed

lemma zr_upload_open_err:
  assumes "wf_fds w" and "zr_upload_open root ident name len w = (fd, v)" and "fd < 0"
  shows "returned w v"
proof (cases "upload_component name")
  case False
  with assms show ?thesis by (auto simp: zr_upload_open_def quiet_returned)
next
  case n: True
  have fl: "ro_flags [O_RDONLY, O_NOFOLLOW, O_CLOEXEC, O_NONBLOCK]" by (simp add: ro_flags_def)
  obtain dfd u where p: "private_directory root ident w = (dfd, u)" by fastforce
  show ?thesis
  proof (cases "dfd < 0")
    case True
    with private_directory_err [OF p True assms(1)] n p assms show ?thesis
      by (auto simp: zr_upload_open_def)
  next
    case False
    with private_directory_ok [OF p] obtain d where od: "opened w u dfd d False" by auto
    obtain r x where o: "sys_openat dfd name [O_RDONLY, O_NOFOLLOW, O_CLOEXEC, O_NONBLOCK] 0 u = (r, x)"
      by fastforce
    show ?thesis
    proof (cases r)
      case (Inl e)
      with o have "quiet u x" using openat_ro_errD [OF _ fl upload_component_plain [OF n]] by blast
      from opened_closed [OF od assms(1) this] assms(2) n p False o Inl show ?thesis
        by (simp add: zr_upload_open_def)
    next
      case (Inr g)
      with o openat_ro_okD [OF _ fl upload_component_plain [OF n]] obtain i
        where oi: "opened u x g i False" by blast
      from opened_opened_close [OF assms(1) od oi] have up: "opened_up w (sys_close dfd x) g i" .
      from opened_up_nonneg [OF this assms(1)] have "\<not> g < 0" by simp
      obtain ok y where rf: "regular_file g len (sys_close dfd x) = (ok, y)" by fastforce
      with assms(2,3) n p False o Inr \<open>\<not> g < 0\<close> have "v = sys_close g y"
        by (simp add: zr_upload_open_def split: if_splits)
      with opened_up_closed [OF up assms(1) regular_file_quiet [OF rf]] show ?thesis by simp
    qed
  qed
qed

text \<open>The directory an open looks into: the private directory of the upload, if there is one.\<close>

definition upload_open_dir :: "fd \<times> string \<times> nat \<Rightarrow> world \<Rightarrow> ino option" where
  "upload_open_dir k w = (case k of (root, ident, len) \<Rightarrow>
     (case upload_dir root ident w of None \<Rightarrow> None
      | Some d \<Rightarrow> if dir_of w d \<noteq> None then Some d else None))"

interpretation upload_opened: owned_open upload_component
    "\<lambda>(root, ident, len) name. zr_upload_open root ident name len" upload_open_dir
    "\<lambda>(root, ident, len). upload_st_ok len"
proof unfold_locales
  fix w k n fd v
  assume w: "wf_fds w" and o: "(\<lambda>(root, ident, len) name. zr_upload_open root ident name len) k n w = (fd, v)"
    and fd: "0 \<le> fd"
  obtain root ident len where k: "k = (root, ident, len)" by (cases k)
  with zr_upload_open_ok [OF w, of root ident n len fd v] o fd
  show "\<exists>d i nd. upload_component n \<and> upload_open_dir k w = Some d \<and> entry w d n = Some i \<and>
    w_inodes w i = Some nd \<and> (case k of (root, ident, len) \<Rightarrow> upload_st_ok len) (w_uid w) (stat_of i nd) \<and>
    opened_up w v fd i"
    by (auto simp: upload_open_dir_def private_dir_def)
next
  fix w k n fd v
  assume w: "wf_fds w" and o: "(\<lambda>(root, ident, len) name. zr_upload_open root ident name len) k n w = (fd, v)"
    and fd: "fd < 0"
  then show "returned w v" by (cases k) (auto intro: zr_upload_open_err)
qed (auto dest: upload_st_ok_checks)

section \<open>Removal\<close>

lemma remove_entries_effect:
  assumes "remove_entries fd count names w = (r, v)" and "fd_ino w fd = Some d" and "count \<le> 16"
    and "\<forall>n \<in> set names. n = ''.'' \<or> n = ''..'' \<or> plain_name n"
  shows "(r = 0 \<or> r = -1) \<and> (\<exists>R \<subseteq> set names - {''.'', ''..''}. card R + count \<le> 16 \<and>
    edited w v (minus_entries (entry w) d R) \<and>
    (r = 0 \<longrightarrow> R = set names - {''.'', ''..''}))"
  using assms
proof (induction names arbitrary: count w)
  case Nil
  from Nil.prems(1) have q: "quiet w v" "r = 0 \<or> r = -1"
    by (auto split: prod.splits sum.splits dest: readdir_quiet)
  then show ?case
    using edited_quiet [OF q(1)] Nil.prems(3) by (intro conjI exI [of _ "{}"]) auto
next
  case (Cons n names)
  obtain x u where x: "sys_readdir (n # names) w = (x, u)" by fastforce
  have q: "quiet w u" by (rule readdir_quiet [OF x])
  have none: "edited w u (minus_entries (entry w) d {})"
    using edited_quiet [OF q] by simp
  have fd: "fd_ino u fd = Some d" using Cons.prems(2) quiet_lookups(6) [OF q] by simp
  have names: "\<forall>m \<in> set names. m = ''.'' \<or> m = ''..'' \<or> plain_name m" using Cons.prems(4) by simp
  show ?case
  proof (cases "n = ''.'' \<or> n = ''..''")
    case True
    show ?thesis
    proof (cases x)
      case (Inl e)
      with Cons.prems x none show ?thesis by (intro conjI exI [of _ "{}"]) auto
    next
      case (Inr y)
      with Cons.prems True x have "remove_entries fd count names u = (r, v)" by auto
      from Cons.IH [OF this fd Cons.prems(3) names] obtain R where R: "r = 0 \<or> r = -1"
        "R \<subseteq> set names - {''.'', ''..''}" "card R + count \<le> 16"
        "edited u v (minus_entries (entry u) d R)"
        "r = 0 \<longrightarrow> R = set names - {''.'', ''..''}"
        by blast
      have "edited w v (minus_entries (entry w) d R)"
        using edited_trans [OF edited_quiet [OF q] R(4)]
        unfolding quiet_entry [OF q] .
      with R True show ?thesis by (intro conjI exI [of _ R]) auto
    qed
  next
    case False
    then have p: "plain_name n" using Cons.prems(4) by simp
    show ?thesis
    proof (cases "\<exists>y. x = Inr y \<and> count < 16")
      case False
      with Cons.prems x none \<open>\<not> (n = ''.'' \<or> n = ''..'')\<close> have "r = -1" "v = u"
        by (auto split: sum.splits)
      with none Cons.prems(3) show ?thesis by (intro conjI exI [of _ "{}"]) auto
    next
      case True
      obtain z t where z: "sys_unlinkat fd n False u = (z, t)" by fastforce
      from True False x z have step: "remove_entries fd count (n # names) w =
          (case z of Inl e \<Rightarrow> (-1, t) | Inr y \<Rightarrow> remove_entries fd (Suc count) names t)"
        by (auto split: sum.splits)
      show ?thesis
      proof (cases z)
        case (Inl e)
        with Cons.prems(1) step have r: "r = -1" "v = t" by simp_all
        from unlink_errD [OF z [unfolded Inl] p] have "edited w t (entry w)"
          using quiet_trans [OF q] edited_quiet by blast
        with r Cons.prems(3) show ?thesis by (intro conjI exI [of _ "{}"]) auto
      next
        case (Inr u0)
        then have Inr: "z = Inr ()" by simp
        from Cons.prems(1) step Inr have rec: "remove_entries fd (Suc count) names t = (r, v)"
          by simp
        from unlink_okD [OF z [unfolded Inr] p] fd
        have e1: "edited u t ((entry u)(d := (entry u d)(n := None)))" by auto
        have e2: "edited w t ((entry w)(d := (entry w d)(n := None)))"
          using edited_trans [OF edited_quiet [OF q] e1] unfolding quiet_entry [OF q] .
        have "fd_ino t fd = Some d" using edited_fd_ino [OF e1] fd by simp
        from Cons.IH [OF rec this _ names] True obtain R where R: "r = 0 \<or> r = -1"
          "R \<subseteq> set names - {''.'', ''..''}" "card R + Suc count \<le> 16"
          "edited t v (minus_entries (entry t) d R)"
          "r = 0 \<longrightarrow> R = set names - {''.'', ''..''}"
          by auto
        have "minus_entries (entry t) d R = minus_entries (entry w) d (insert n R)"
          using e2 by (auto simp: edited_def minus_entries_def fun_eq_iff)
        with edited_trans [OF e2 R(4)]
        have e3: "edited w v (minus_entries (entry w) d (insert n R))"
          by simp
        have "card (insert n R) + count \<le> 16"
          using R(3) card_insert_le_m1 [of "Suc (card R)" R n] by simp
        with R e3 False show ?thesis by (intro conjI exI [of _ "insert n R"]) auto
      qed
    qed
  qed
qed

text \<open>
  The outcomes of \<open>zr_upload_remove\<close>: nothing to do, refused, partly cleared, removed.
  The set \<open>R\<close> holds the names unlinked in the upload directory \<open>d\<close>.
\<close>

inductive upload_removal :: "fd \<Rightarrow> string \<Rightarrow> world \<Rightarrow> int \<Rightarrow> world \<Rightarrow> bool"
  for root :: fd and ident :: string and w :: world where
  absent: "upload_dir root ident w = None \<Longrightarrow> returned w v \<Longrightarrow> upload_removal root ident w 0 v"
| refused: "returned w v \<Longrightarrow> upload_removal root ident w (-1) v"
| cleared: "upload_dir root ident w = Some d \<Longrightarrow> private_dir w d \<Longrightarrow> card R \<le> 16 \<Longrightarrow>
    w_files v = w_files w \<Longrightarrow> disk_edit w v (minus_entries (entry w) d R) \<Longrightarrow>
    upload_removal root ident w (-1) v"
| removed: "fd_ino w root = Some a \<Longrightarrow> entry w a ident = Some d \<Longrightarrow> private_dir w d \<Longrightarrow>
    card R \<le> 16 \<Longrightarrow> w_files v = w_files w \<Longrightarrow>
    disk_edit w v (minus_entries (minus_entries (entry w) d R) a {ident}) \<Longrightarrow>
    minus_entries (entry w) d R d = (\<lambda>_. None) \<Longrightarrow> r = 0 \<or> r = -1 \<Longrightarrow>
    upload_removal root ident w r v"

lemma zr_upload_remove_effect:
  assumes "zr_upload_remove root ident w = (r, v)" and "wf_fds w" and "wf_dirs w"
  shows "upload_removal root ident w r v"
proof (cases "upload_component ident")
  case False
  with assms(1) have "r = -1" "v = w" by (auto simp: zr_upload_remove_def)
  then show ?thesis using quiet_returned [OF quiet_refl] by (auto intro: refused)
next
  case cid: True
  note pn = upload_component_plain [OF cid]
  obtain s w1 where s: "sys_fstatat root ident w = (s, w1)" by fastforce
  have q1: "quiet w w1" using s fstatat_errD fstatat_okD pn by (cases s) blast+
  show ?thesis
  proof (cases "\<exists>st. s = Inr st \<and> S_ISDIR st")
    case False
    then have "v = w1 \<and> (r = -1 \<or> r = 0 \<and> s = Inl ENOENT)"
      using assms(1) cid s by (auto simp: zr_upload_remove_def split: sum.splits if_splits)
    moreover have "s = Inl ENOENT \<Longrightarrow> upload_dir root ident w = None"
      using fstatat_ENOENT [of root ident w w1] s pn by (auto simp: upload_dir_def)
    ultimately show ?thesis using quiet_returned [OF q1] by (auto intro: refused absent)
  next
    case True
    obtain fd w2 where p: "private_directory root ident w1 = (fd, w2)" by fastforce
    show ?thesis
    proof (cases "fd < 0")
      case neg: True
      then have "r = -1 \<and> v = w2"
        using assms(1) cid s p True by (auto simp: zr_upload_remove_def)
      with private_directory_err [OF p neg quiet_wf [OF q1 assms(2)]] quiet_returned [OF q1]
      show ?thesis by (auto intro: returned_trans refused)
    next
      case pos: False
      with private_directory_ok [OF p] obtain d where
        "upload_dir root ident w1 = Some d" "private_dir w1 d" and o1: "opened w1 w2 fd d False"
        by auto
      with quiet_lookups [OF q1] have d: "upload_dir root ident w = Some d" "private_dir w d"
        by (auto simp: upload_dir_def private_dir_def split: option.splits)
      then obtain a where a: "fd_ino w root = Some a" "entry w a ident = Some d"
        by (auto simp: upload_dir_def split: option.splits)
      have o: "opened w w2 fd d False" by (rule quiet_opened [OF q1 o1])
      obtain x w3 where x: "sys_fdopendir fd w2 = (x, w3)" by fastforce
      have q3: "quiet w2 w3" by (rule fdopendir_quiet [OF x])
      show ?thesis
      proof (cases x)
        case (Inl e)
        then have "r = -1 \<and> v = sys_close fd w3"
          using assms(1) cid s p True pos x by (auto simp: zr_upload_remove_def)
        with opened_closed [OF o assms(2) q3] show ?thesis by (auto intro: refused)
      next
        case (Inr names)
        obtain res w4 where rm: "remove_entries fd 0 names w3 = (res, w4)" by fastforce
        from fdopendir_okD [OF x [unfolded Inr]] opened_lookups(1,6) [OF o] obtain pp es
          where es: "dir_of w d = Some (pp, es)" "names = ''.'' # ''..'' # map fst es" by auto
        have fd3: "fd_ino w3 fd = Some d" using quiet_lookups(6) [OF q3] opened_lookups(6) [OF o] by simp
        have e3: "entry w3 = entry w"
          using quiet_lookups(3) [OF q3] opened_lookups(3) [OF o] by (simp add: fun_eq_iff)
        from remove_entries_effect [OF rm fd3] stream_names_plain [OF assms(3) es(1)] es(2) e3
        obtain R where R: "res = 0 \<or> res = -1" "card R \<le> 16" "edited w3 w4 (minus_entries (entry w) d R)"
          "res = 0 \<longrightarrow> R = set names - {''.'', ''..''}"
          by auto
        have d4: "disk_edit w w4 (minus_entries (entry w) d R)"
          using disk_edit_trans [OF disk_edit_trans [OF disk_edit_frames(2) [OF o]
            disk_edit_frames(1) [OF q3]] disk_edit_edited [OF R(3)]] .
        have f4: "w_files (sys_close fd w4) = w_files w"
          using R(3) q3 o assms(2) by (auto simp: edited_def quiet_def opened_def wf_fds_def fun_upd_idem)
        let ?M = "minus_entries (entry w) d R"
        show ?thesis
        proof (cases "res = 0")
          case False
          then have "r = -1 \<and> v = sys_close fd w4"
            using assms(1) cid s p True pos x Inr rm R(1) by (auto simp: zr_upload_remove_def)
          with d d4 f4 R(2) show ?thesis by (auto intro: cleared)
        next
          case res: True
          obtain y w5 where y: "sys_unlinkat root ident True (sys_close fd w4) = (y, w5)" by fastforce
          show ?thesis
          proof (cases y)
            case (Inl e)
            then have "r = -1 \<and> v = w5"
              using assms(1) cid s p True pos x Inr rm res y by (auto simp: zr_upload_remove_def)
            moreover have q5: "quiet (sys_close fd w4) w5" by (rule unlink_errD [OF y [unfolded Inl] pn])
            moreover have "disk_edit w w5 ?M"
              using disk_edit_trans [OF _ disk_edit_frames(1) [OF q5]] d4 disk_edit_entry [OF d4]
              by (metis disk_edit_close disk_edit_entry)
            moreover have "w_files w5 = w_files w" using f4 q5 by (simp add: quiet_def)
            ultimately show ?thesis using d R(2) by (auto intro: cleared)
          next
            case (Inr u0)
            then have y': "sys_unlinkat root ident True (sys_close fd w4) = (Inr (), w5)" using y by simp
            obtain z w6 where z: "sys_fsync root w5 = (z, w6)" by fastforce
            have r6: "(r = 0 \<or> r = -1) \<and> v = w6"
              using assms(1) cid s p True pos x \<open>x = Inr names\<close> rm res y y' z
              by (auto simp: zr_upload_remove_def split: sum.splits)
            have a4: "fd_ino (sys_close fd w4) root = Some a"
              using a f4 by (simp add: fd_ino_def)
            have d4': "disk_edit w (sys_close fd w4) ?M" using d4 by simp
            have e4: "entry (sys_close fd w4) = ?M" by (rule disk_edit_entry [OF d4'])
            from unlink_okD [OF y' pn, unfolded e4] a4
            have e5: "edited (sys_close fd w4) w5 (minus_entries ?M a {ident})"
              and i5: "\<exists>i. ?M a ident = Some i \<and> ?M i = (\<lambda>_. None)"
              by (auto simp: minus_single)
            have q6: "quiet w5 w6" by (rule fsync_quiet [OF z])
            have "disk_edit w w6 (minus_entries ?M a {ident})"
              using disk_edit_trans [OF disk_edit_trans [OF d4' disk_edit_edited [OF e5]]
                disk_edit_frames(1) [OF q6]] e5 by (simp add: edited_def)
            moreover from i5 a have "?M d = (\<lambda>_. None)"
              by (auto simp: minus_entries_def split: if_splits)
            moreover have "w_files w6 = w_files w" using e5 q6 f4 by (auto simp: edited_def quiet_def)
            ultimately show ?thesis
              using removed [OF a d(2) R(2)] r6 by blast
          qed
        qed
      qed
    qed
  qed
qed

section \<open>Installation\<close>

text \<open>
  What a call of \<open>zr_upload_install\<close> that passes its checks has done to the directory
  \<open>d\<close>: the temporary name became the final one, which was free.
\<close>

definition installed :: "fd \<Rightarrow> string \<Rightarrow> string \<Rightarrow> world \<Rightarrow> world \<Rightarrow> bool" where
  "installed directory temporary name w v \<longleftrightarrow> (\<exists>d i. fd_ino w directory = Some d \<and>
     entry w d temporary = Some i \<and> dir_of w i = None \<and> entry w d name = None \<and>
     edited w v ((entry w)(d := (entry w d)(temporary := None, name \<mapsto> i))))"

lemma zr_upload_install_cases:
  assumes "zr_upload_install directory fd temporary name len w = (r, v)"
  obtains (refused) "r = -1" "quiet w v"
  | (renamed) "r = 0 \<or> r = -1" "installed directory temporary name w v"
      "len \<le> max_upload" "\<exists>i nd. fd_ino w fd = Some i \<and> w_inodes w i = Some nd \<and>
        upload_st_ok len (w_uid w) (stat_of i nd)"
proof (cases "upload_component temporary \<and> upload_component name \<and> temporary \<noteq> name")
  case False
  with assms show ?thesis by (intro refused) (auto simp: zr_upload_install_def)
next
  case names: True
  note pt = upload_component_plain [OF conjunct1 [OF names]]
  note pn = upload_component_plain [OF conjunct1 [OF conjunct2 [OF names]]]
  obtain ok w1 where 1: "regular_file fd len w = (ok, w1)" by fastforce
  have q1: "quiet w w1" by (rule regular_file_quiet [OF 1])
  obtain x w2 where 2: "sys_fsync fd w1 = (x, w2)" by fastforce
  have q2: "quiet w w2" by (rule quiet_trans [OF q1 fsync_quiet [OF 2]])
  obtain y w3 where 3: "sys_fstatat directory name w2 = (y, w3)" by fastforce
  have "quiet w2 w3" using 3 fstatat_okD [OF _ pn] fstatat_errD [OF _ pn] by (cases y) blast+
  then have q3: "quiet w w3" by (rule quiet_trans [OF q2])
  obtain z w4 where 4: "sys_renameat directory temporary directory name w3 = (z, w4)" by fastforce
  show ?thesis
  proof (cases "ok \<and> (\<exists>u. x = Inr u) \<and> y = Inl ENOENT \<and> (\<exists>u. z = Inr u)")
    case False
    have "quiet w w4" if "z = Inl e" for e
      using quiet_trans [OF q3] rename_errD [OF _ pt pn] 4 that by blast
    with False names assms 1 2 3 4 q1 q2 q3 show ?thesis
      by (intro refused) (auto simp: zr_upload_install_def split: sum.splits if_splits)
  next
    case True
    then have z: "z = Inr ()" by auto
    obtain t w5 where 5: "sys_fsync directory w4 = (t, w5)" by fastforce
    with True names assms 1 2 3 4 have r: "r = 0 \<or> r = -1" "v = w5"
      by (auto simp: zr_upload_install_def split: sum.splits)
    from rename_okD [OF 4 [unfolded z] pt pn] obtain d i where
      di: "fd_ino w3 directory = Some d" "entry w3 d temporary = Some i" "dir_of w3 i = None"
      and e4: "edited w3 w4 (if entry w3 d name = Some i then entry w3
        else (entry w3)(d := (entry w3 d)(temporary := None, name \<mapsto> i)))"
      by blast
    have "fd_ino w2 directory = Some d" "entry w2 = entry w3"
      using di(1) quiet_lookups(6) [OF \<open>quiet w2 w3\<close>] quiet_entry [OF \<open>quiet w2 w3\<close>] by auto
    with fstatat_ENOENT [of directory name w2 w3] 3 True pn have none: "entry w3 d name = None"
      by auto
    have "edited w w5 ((entry w3)(d := (entry w3 d)(temporary := None, name \<mapsto> i)))"
      using edited_trans [OF edited_trans [OF edited_quiet [OF q3] e4]
        edited_quiet [OF fsync_quiet [OF 5]]] none e4 by (simp add: edited_def)
    then have "installed directory temporary name w w5"
      unfolding installed_def using di none quiet_lookups(1,6) [OF q3]
      unfolding quiet_entry [OF q3] by auto
    with r regular_file_ok [of fd len w w1] 1 True show ?thesis by (intro renamed) auto
  qed
qed

lemma zr_upload_temporary_okD:
  assumes "zr_upload_temporary directory name w = (fd, v)" and "0 \<le> fd" and "fresh_inode w"
  shows "upload_component name \<and> (\<exists>d. fd_ino w directory = Some d \<and> entry w d name = None \<and>
    fd = w_nextfd w \<and> created w v d name \<lparr>i_node = Regular [], i_uid = w_uid w, i_mode = M0600,
      i_nlink = 1, i_mtime = w_now w, i_ctime = w_now w\<rparr> \<and>
    w_files v = (w_files w)(fd \<mapsto> \<lparr>f_ino = w_next w, f_pos = 0, f_wr = True\<rparr>) \<and>
    w_nextfd v = w_nextfd w + 1)"
proof -
  have fl: "create_flags [O_RDWR, O_CREAT, O_EXCL, O_NOFOLLOW, O_CLOEXEC]"
    by (simp add: create_flags_def)
  from assms(1,2) have n: "upload_component name" and
    o: "sys_openat directory name [O_RDWR, O_CREAT, O_EXCL, O_NOFOLLOW, O_CLOEXEC] M0600 w = (Inr fd, v)"
    by (auto simp: zr_upload_temporary_def split: prod.splits sum.splits if_splits)
  with openat_create_okD [OF o fl upload_component_plain [OF n] assms(3)] show ?thesis by blast
qed

section \<open>Properties\<close>

text \<open>
  \<open>zr_upload_open\<close> hands out a descriptor only for the entry \<open>name\<close> of the
  private directory of the upload, and only if it is a regular file of the relay's user, not
  readable by others, with a single link and exactly the announced length of at most 100 MiB.
  Whatever happens, nothing on disk changes and no other descriptor is left open.
\<close>

theorem zr_upload_open_owned:
  assumes "wf_fds w" and "zr_upload_open root ident name len w = (fd, v)"
  shows "same_disk w v \<and>
    (if fd < 0 then w_files v = w_files w
     else len \<le> 100 * 1024 * 1024 \<and>
       (\<exists>d i nd bs. upload_dir root ident w = Some d \<and> private_dir w d \<and> entry w d name = Some i \<and>
          w_inodes w i = Some nd \<and> i_node nd = Regular bs \<and> length bs = len \<and> i_uid nd = w_uid w \<and>
          i_mode nd AND M077 = 0 \<and> i_nlink nd = 1 \<and>
          w_files v = (w_files w)(fd \<mapsto> \<lparr>f_ino = i, f_pos = 0, f_wr = False\<rparr>)))"
proof (cases "fd < 0")
  case True
  with zr_upload_open_err [OF assms] show ?thesis by (simp add: returned_def)
next
  case False
  then have "0 \<le> fd" by simp
  from zr_upload_open_ok [OF assms this] obtain d i nd where
    d: "len \<le> max_upload" "upload_dir root ident w = Some d" "private_dir w d"
      "entry w d name = Some i" "w_inodes w i = Some nd" "upload_st_ok len (w_uid w) (stat_of i nd)"
      "opened_up w v fd i"
    by blast
  then obtain bs where "i_node nd = Regular bs"
    by (cases "i_node nd") (auto simp: upload_st_ok_def S_ISREG_def stat_of_def)
  with d False show ?thesis
    by (auto simp: opened_up_def upload_st_ok_def stat_of_def max_upload_def)
qed

text \<open>
  C9: \<open>zr_upload_install\<close> never replaces a file: unless it moves the temporary entry to a
  final name that was free, it changes nothing; it reports success only after such a move,
  with the descriptor a private regular file of the announced length; and no file's contents,
  owner or mode change.
\<close>

theorem zr_upload_install_never_replaces:
  assumes "zr_upload_install directory fd temporary name len w = (r, v)"
  shows "r = -1 \<and> quiet w v \<or>
    (r = 0 \<or> r = -1) \<and> len \<le> 100 * 1024 * 1024 \<and>
    (\<exists>i nd. fd_ino w fd = Some i \<and> w_inodes w i = Some nd \<and> upload_st_ok len (w_uid w) (stat_of i nd)) \<and>
    (\<exists>d j. fd_ino w directory = Some d \<and> entry w d temporary = Some j \<and> entry w d name = None \<and>
       edited w v ((entry w)(d := (entry w d)(temporary := None, name \<mapsto> j))))"
  using assms by (cases rule: zr_upload_install_cases) (auto simp: installed_def max_upload_def)

text \<open>
  \<open>zr_upload_remove\<close> is confined: whatever it finds and wherever a call fails, the only
  entries it can remove are the upload's own and at most 16 names inside the upload's private
  directory; nothing is added, no file's contents change, no descriptor is left open, and
  result 0 means that the upload's entry is gone.
\<close>

theorem zr_upload_remove_confined:
  assumes "zr_upload_remove root ident w = (r, v)" and "wf_fds w" and "wf_dirs w"
    and "fd_ino w root = Some a"
  shows "(\<exists>R. card R \<le> 16 \<and> (\<forall>d n. entry v d n = entry w d n \<or> entry v d n = None \<and>
      (d = a \<and> n = ident \<or> entry w a ident = Some d \<and> private_dir w d \<and> n \<in> R))) \<and>
    (\<forall>i. file_bytes v i = file_bytes w i) \<and> w_files v = w_files w \<and>
    (r = 0 \<or> r = -1) \<and> (r = 0 \<longrightarrow> entry v a ident = None)"
  using zr_upload_remove_effect [OF assms(1-3)]
proof (cases rule: upload_removal.cases)
  case absent
  with assms(4) disk_edit_frames(3) [OF absent(3)] show ?thesis
    by (auto simp: upload_dir_def returned_def disk_edit_def intro!: exI [of _ "{}"])
next
  case refused
  with disk_edit_frames(3) [OF refused(2)] show ?thesis
    by (auto simp: returned_def disk_edit_def intro!: exI [of _ "{}"])
next
  case (cleared d R)
  with assms(4) disk_edit_entry [OF cleared(6)] show ?thesis
    by (auto simp: disk_edit_def upload_dir_def minus_entries_apply intro!: exI [of _ R])
next
  case (removed b d R)
  have ent: "entry v e n = (if e = b \<and> n = ident \<or> e = d \<and> n \<in> R then None else entry w e n)" for e n
    unfolding disk_edit_entry [OF removed(6)] minus_entries_apply by auto
  from removed assms(4) have "b = a" "\<forall>i. file_bytes v i = file_bytes w i"
    by (simp_all add: disk_edit_def)
  with removed ent show ?thesis by (auto intro!: exI [of _ R])
qed

text \<open>
  C36: Round trip of an upload. If creating the temporary file, writing the bytes, installing
  under the final name and opening that upload all report success, then, whatever partial or
  interrupted calls happened on the way, the opened file holds exactly the written bytes.
\<close>

theorem zr_upload_roundtrip:
  assumes "wf_fds w" and "fresh_inode w"
    and dir: "upload_dir root ident w = Some d" "fd_ino w directory = Some d"
    and 1: "zr_upload_temporary directory temporary w = (fd, w1)" "0 \<le> fd"
    and 2: "zr_upload_write fd bytes w1 = (0, w2)"
    and 3: "zr_upload_install directory fd temporary name (length bytes) w2 = (0, w3)"
    and 4: "zr_upload_open root ident name (length bytes) (sys_close fd w3) = (g, w4)" "0 \<le> g"
    and old: "0 \<le> root" "root < w_nextfd w" "directory < w_nextfd w"
  shows "\<exists>i. fd_ino w4 g = Some i \<and> entry w4 d name = Some i \<and> file_bytes w4 i = Some bytes"
proof -
  let ?i = "w_next w"
  from zr_upload_temporary_okD [OF 1 assms(2)] dir(2) obtain nd where
    t: "entry w d temporary = None" "fd = w_nextfd w" "created w w1 d temporary nd"
      "w_files w1 = (w_files w)(fd \<mapsto> \<lparr>f_ino = ?i, f_pos = 0, f_wr = True\<rparr>)"
      "i_node nd = Regular []" "w_nextfd w1 = w_nextfd w + 1"
    by auto
  from t(3,5) have fb1: "file_bytes w1 ?i = Some []" and di1: "dir_of w1 ?i = None"
    by (auto simp: created_def file_bytes_def node_of_def dir_of_def)
  with t(4) have wr: "writable w1 fd" by (simp add: writable_def)
  from 2 have wrote: "wrote w1 w2 fd bytes" by (intro upload_writer.complete [OF wr]) simp
  with t(4) fb1 have fb2: "file_bytes w2 ?i = Some bytes" and e2: "entry w2 = entry w1"
    and f2: "w_files w2 = (w_files w)(fd \<mapsto> \<lparr>f_ino = ?i, f_pos = length bytes, f_wr = True\<rparr>)"
    by (auto simp: wrote_def)
  have keep: "fd_ino w2 h = fd_ino w h" if "h < w_nextfd w" for h
    using that f2 t(2) by (simp add: fd_ino_def)
  from 3 have "installed directory temporary name w2 w3"
    by (cases rule: zr_upload_install_cases) auto
  moreover have "entry w2 d temporary = Some ?i" using e2 t(3) by (simp add: created_def)
  ultimately have n2: "entry w2 d name = None"
    and ed: "edited w2 w3 ((entry w2)(d := (entry w2 d)(temporary := None, name \<mapsto> ?i)))"
    using keep [of directory] dir(2) old by (auto simp: installed_def)
  obtain a where a: "fd_ino w root = Some a" "entry w a ident = Some d"
    using dir(1) by (auto simp: upload_dir_def split: option.splits)
  have "fd_ino w3 root = Some a" using keep [of root] edited_fd_ino [OF ed] old a by simp
  then have rt: "fd_ino (sys_close fd w3) root = Some a" using old t(2) by (simp add: fd_ino_def)
  have cl: "entry (sys_close fd w3) = entry w3" "file_bytes (sys_close fd w3) = file_bytes w3"
    by (auto simp: entry_def dir_of_def file_bytes_def node_of_def fun_eq_iff)
  have "a \<noteq> ?i" using a(2) assms(2)
    by (auto simp: entry_def dir_of_def fresh_inode_def split: option.splits)
  then have e1a: "entry w1 a ident = Some d" using t(1,3) a(2) by (cases "a = d") (auto simp: created_def)
  then have "entry w3 a ident = Some d" using ed n2 t(1) a(2) e2 by (auto simp: edited_def)
  then have d3: "upload_dir root ident (sys_close fd w3) = Some d"
    using rt cl by (simp add: upload_dir_def)
  have wf3: "wf_fds (sys_close fd w3)"
    using assms(1) f2 t(2,6) ed wrote
    by (auto simp: wf_fds_def edited_def wrote_def)
  from zr_upload_open_ok [OF wf3 4] d3 obtain i where
    i: "entry (sys_close fd w3) d name = Some i" "opened_up (sys_close fd w3) w4 g i" by auto
  have "i = ?i" using i(1) cl ed by (simp add: edited_def)
  with i opened_up_lookups(3,6) [OF i(2)] disk_edit_frames(4) [OF i(2)] cl ed fb2 show ?thesis
    by (auto simp: edited_def disk_edit_def)
qed

lemmas upload_run = zr_upload_open_def private_directory_def upload_component_def regular_file_def
  upload_st_ok_def max_upload_def zr_upload_remove_def remove_entries.simps zr_upload_install_def
  zr_upload_temporary_def zr_upload_write_def write_all.simps

theorem zr_upload_open_owned_witness:
  "same_disk (sample_world []) (snd (zr_upload_open 3 ''up'' ''f'' 2 (sample_world []))) \<and>
   fst (zr_upload_open 3 ''up'' ''f'' 2 (sample_world [])) = 6"
  using zr_upload_open_owned [OF sample_wf(1) surjective_pairing, of "[]" 3 "''up''" "''f''" 2]
  by (simp add: upload_run posix_run)

theorem zr_upload_install_never_replaces_witness:
  "fst (zr_upload_install 4 9 ''t'' ''f'' 2 (sample_world [])) = -1 \<and>
   quiet (sample_world []) (snd (zr_upload_install 4 9 ''t'' ''f'' 2 (sample_world [])))"
  using zr_upload_install_never_replaces [OF surjective_pairing, of 4 9 "''t''" "''f''" 2 "sample_world []"]
  by (simp add: upload_run posix_run)

theorem zr_upload_remove_confined_witness:
  "fst (zr_upload_remove 3 ''up'' (sample_world [])) = 0 \<and>
   entry (snd (zr_upload_remove 3 ''up'' (sample_world []))) 0 ''up'' = None"
proof -
  have "fst (zr_upload_remove 3 ''up'' (sample_world [])) = 0"
    by (simp add: upload_run posix_run)
  moreover have "fd_ino (sample_world []) 3 = Some 0" by (simp add: fd_ino_def sample_world_def)
  ultimately show ?thesis
    using zr_upload_remove_confined [OF surjective_pairing sample_wf(1) sample_wf_dirs, of "[]" 3 0 "''up''"]
    by blast
qed

text \<open>A run of the four calls in which the first \<open>write\<close> is partial and the second interrupted.\<close>

definition upload_run_1 :: "int \<times> world" where
  "upload_run_1 = zr_upload_temporary 4 ''t'' (sample_world [Ok, Short 1, Fail EINTR])"

definition upload_run_2 :: "int \<times> world" where
  "upload_run_2 = zr_upload_write 5 ''abc'' (snd upload_run_1)"

definition upload_run_3 :: "int \<times> world" where
  "upload_run_3 = zr_upload_install 4 5 ''t'' ''n'' 3 (snd upload_run_2)"

definition upload_run_4 :: "int \<times> world" where
  "upload_run_4 = zr_upload_open 3 ''up'' ''n'' 3 (sys_close 5 (snd upload_run_3))"

theorem zr_upload_roundtrip_witness:
  "\<exists>i. fd_ino (snd upload_run_4) 7 = Some i \<and> file_bytes (snd upload_run_4) i = Some ''abc''"
proof -
  let ?w = "sample_world [Ok, Short 1, Fail EINTR]"
  note def = upload_run_1_def upload_run_2_def upload_run_3_def upload_run_4_def
  have 1: "zr_upload_temporary 4 ''t'' ?w = (5, snd upload_run_1)"
    by (simp add: def upload_run posix_run)
  have 2: "zr_upload_write 5 ''abc'' (snd upload_run_1) = (0, snd upload_run_2)"
    by (simp add: def upload_run posix_run)
  have 3: "zr_upload_install 4 5 ''t'' ''n'' (length ''abc'') (snd upload_run_2) = (0, snd upload_run_3)"
    by (simp add: def upload_run posix_run)
  have 4: "zr_upload_open 3 ''up'' ''n'' (length ''abc'') (sys_close 5 (snd upload_run_3)) = (7, snd upload_run_4)"
    by (simp add: def upload_run posix_run)
  have dir: "upload_dir 3 ''up'' ?w = Some 1" "fd_ino ?w 4 = Some 1"
    by (simp_all add: upload_dir_def posix_run)
  have "w_nextfd ?w = 5" by (simp add: sample_world_def)
  with zr_upload_roundtrip [OF sample_wf dir 1 _ 2 3 4] show ?thesis by auto
qed

end
