(* ===== verification/Outgoing.thy ===== *)
theory Outgoing
  imports Owned "HOL-Library.Sublist"
begin

text \<open>
  \<open>src/client/outgoing.c\<close>: the client's staging directory for attachments that wait to be
  sent, one file per base64url id. One definition per function; a descriptor or -1 where the
  source returns one, \<open>True\<close>/\<open>False\<close> for its 1/0. An out parameter is a further
  component of the result. The model has one device, so \<open>st_dev\<close> is left out of the
  fingerprint. A directory stream is the list of names still to be returned.
\<close>

section \<open>Operations\<close>

definition valid_id :: "string \<Rightarrow> bool" where
  "valid_id ident \<longleftrightarrow> length ident = 22 \<and>
     list_all (\<lambda>c. (byte c \<ge> 97 \<and> byte c \<le> 122) \<or> (byte c \<ge> 65 \<and> byte c \<le> 90) \<or>
       (byte c \<ge> 48 \<and> byte c \<le> 57) \<or> c = CHR ''-'' \<or> c = CHR ''_'') ident"

definition zc_outgoing_directory :: "string \<Rightarrow> world \<Rightarrow> int \<times> world" where
  "zc_outgoing_directory data w =
     (case sys_open data [O_RDONLY, O_DIRECTORY, O_NOFOLLOW, O_CLOEXEC] 0 w of
        (Inl e, w) \<Rightarrow> (-1, w)
      | (Inr parent, w) \<Rightarrow>
          (case sys_mkdirat parent ''outgoing'' M0700 w of (made, w) \<Rightarrow>
             if (case made of Inl e \<Rightarrow> e \<noteq> EEXIST | Inr _ \<Rightarrow> False) then (-1, sys_close parent w)
             else case sys_openat parent ''outgoing'' [O_RDONLY, O_DIRECTORY, O_NOFOLLOW, O_CLOEXEC] 0 w of
               (Inl e, w) \<Rightarrow> (-1, sys_close parent w)
             | (Inr dir, w) \<Rightarrow>
                 (case sys_fstat dir w of
                    (Inl e, w) \<Rightarrow> (-1, sys_close parent (sys_close dir w))
                  | (Inr st, w) \<Rightarrow>
                      if st_uid st \<noteq> w_uid w \<or> st_mode st AND M0777 \<noteq> M0700
                      then (-1, sys_close parent (sys_close dir w))
                      else (case sys_fsync parent w of
                          (Inl e, w) \<Rightarrow> (-1, sys_close parent (sys_close dir w))
                        | (Inr _, w) \<Rightarrow> (dir, sys_close parent w)))))"

record outgoing_fingerprint =
  inode_number :: ino
  bytes_count :: int
  modified :: "int \<times> int"
  changed :: "int \<times> int"

definition zc_outgoing_fingerprint :: "fd \<Rightarrow> outgoing_fingerprint \<Rightarrow> world \<Rightarrow>
    bool \<times> outgoing_fingerprint \<times> world" where
  "zc_outgoing_fingerprint fd fingerprint w =
     (case sys_fstat fd w of
        (Inl e, w) \<Rightarrow> (False, fingerprint, w)
      | (Inr st, w) \<Rightarrow>
          if \<not> S_ISREG st \<or> st_size st < 0 then (False, fingerprint, w)
          else (True, \<lparr>inode_number = st_ino st, bytes_count = st_size st,
                 modified = st_mtim st, changed = st_ctim st\<rparr>, w))"

definition zc_outgoing_source :: "string \<Rightarrow> outgoing_fingerprint \<Rightarrow> world \<Rightarrow>
    int \<times> outgoing_fingerprint \<times> world" where
  "zc_outgoing_source path fingerprint w =
     (case sys_open path [O_RDONLY, O_NONBLOCK, O_NOFOLLOW, O_CLOEXEC] 0 w of
        (Inl e, w) \<Rightarrow> (-1, fingerprint, w)
      | (Inr fd, w) \<Rightarrow>
          (case zc_outgoing_fingerprint fd fingerprint w of (ok, fingerprint, w) \<Rightarrow>
             if \<not> ok then (-1, fingerprint, sys_close fd w) else (fd, fingerprint, w)))"

definition zc_outgoing_create :: "fd \<Rightarrow> string \<Rightarrow> world \<Rightarrow> int \<times> world" where
  "zc_outgoing_create directory ident w =
     (if \<not> valid_id ident then (-1, w)
      else case sys_openat directory ident [O_RDWR, O_CREAT, O_EXCL, O_NOFOLLOW, O_CLOEXEC] M0600 w of
        (Inl e, w) \<Rightarrow> (-1, w)
      | (Inr fd, w) \<Rightarrow> (fd, w))"

definition outgoing_st_ok :: "nat \<Rightarrow> nat \<Rightarrow> stat \<Rightarrow> bool" where
  "outgoing_st_ok len uid st \<longleftrightarrow> \<not> (\<not> S_ISREG st \<or> st_uid st \<noteq> uid \<or> st_nlink st \<noteq> 1 \<or>
     st_mode st AND M077 \<noteq> 0 \<or> st_size st < 0 \<or> nat (st_size st) \<noteq> len)"

definition zc_outgoing_open :: "fd \<Rightarrow> string \<Rightarrow> nat \<Rightarrow> world \<Rightarrow> int \<times> world" where
  "zc_outgoing_open directory ident len w =
     (if \<not> valid_id ident then (-1, w)
      else case sys_openat directory ident [O_RDONLY, O_NONBLOCK, O_NOFOLLOW, O_CLOEXEC] 0 w of
        (Inl e, w) \<Rightarrow> (-1, w)
      | (Inr fd, w) \<Rightarrow>
          (case sys_fstat fd w of
             (Inl e, w) \<Rightarrow> (-1, sys_close fd w)
           | (Inr st, w) \<Rightarrow>
               if \<not> outgoing_st_ok len (w_uid w) st then (-1, sys_close fd w) else (fd, w)))"

definition zc_outgoing_write :: "fd \<Rightarrow> char list \<Rightarrow> world \<Rightarrow> bool \<times> world" where
  "zc_outgoing_write fd bytes w = write_all fd bytes w"

definition zc_outgoing_remove :: "fd \<Rightarrow> string \<Rightarrow> world \<Rightarrow> bool \<times> world" where
  "zc_outgoing_remove directory ident w =
     (if \<not> valid_id ident then (False, w)
      else case sys_unlinkat directory ident False w of (gone, w) \<Rightarrow>
        if (case gone of Inl e \<Rightarrow> e \<noteq> ENOENT | Inr _ \<Rightarrow> False) then (False, w)
        else case sys_fsync directory w of (synced, w) \<Rightarrow> (synced = Inr (), w))"

text \<open>A scan is its descriptor and its stream.\<close>

definition zc_outgoing_scan :: "fd \<Rightarrow> world \<Rightarrow> (fd \<times> string list) option \<times> world" where
  "zc_outgoing_scan directory w =
     (case sys_openat directory ''.'' [O_RDONLY, O_DIRECTORY, O_CLOEXEC] 0 w of
        (Inl e, w) \<Rightarrow> (None, w)
      | (Inr copy, w) \<Rightarrow>
          (case sys_fdopendir copy w of
             (Inl e, w) \<Rightarrow> (None, sys_close copy w)
           | (Inr names, w) \<Rightarrow> (Some (copy, names), w)))"

text \<open>The result, the name stored in the buffer, and the rest of the stream.\<close>

fun zc_outgoing_next :: "string list \<Rightarrow> nat \<Rightarrow> world \<Rightarrow> int \<times> string option \<times> string list \<times> world" where
  "zc_outgoing_next [] capacity w =
     (case sys_readdir [] w of (Inl e, w) \<Rightarrow> (-1, None, [], w) | (Inr _, w) \<Rightarrow> (0, None, [], w))"
| "zc_outgoing_next (d_name # names) capacity w =
     (case sys_readdir (d_name # names) w of
        (Inl e, w) \<Rightarrow> (-1, None, d_name # names, w)
      | (Inr _, w) \<Rightarrow>
          if \<not> valid_id d_name then zc_outgoing_next names capacity w
          else if capacity \<le> length d_name then (-1, None, names, w)
          else (int (length d_name), Some d_name, names, w))"

definition zc_outgoing_scan_close :: "fd \<times> string list \<Rightarrow> world \<Rightarrow> world" where
  "zc_outgoing_scan_close scan w = sys_close (fst scan) w"

section \<open>The contracts\<close>

lemma valid_id_plain [name_rules]: "valid_id n \<Longrightarrow> plain_name n"
  by (auto simp: valid_id_def plain_name_def list_all_iff)

interpretation outgoing_names: name_guard valid_id
  by unfold_locales (rule valid_id_plain)

interpretation outgoing_writer: full_writer zc_outgoing_write
  unfolding zc_outgoing_write_def
  by unfold_locales (auto intro: write_all_effect write_all_no_faults)

lemma zc_outgoing_open_checked:
  "zc_outgoing_open directory ident len w =
     (if \<not> valid_id ident then (-1, w)
      else case open_checked [O_RDONLY, O_NONBLOCK, O_NOFOLLOW, O_CLOEXEC] (outgoing_st_ok len)
          directory ident w of
        (Inl e, w) \<Rightarrow> (-1, w) | (Inr fd, w) \<Rightarrow> (fd, w))"
  by (auto simp: zc_outgoing_open_def open_checked_def split: prod.splits sum.splits if_splits)

lemma outgoing_flags: "ro_flags [O_RDONLY, O_NONBLOCK, O_NOFOLLOW, O_CLOEXEC]"
  by (simp add: ro_flags_def)

lemma zc_outgoing_open_ok:
  assumes "zc_outgoing_open directory ident len w = (fd, v)" and "0 \<le> fd"
  shows "valid_id ident \<and> (\<exists>d i nd. fd_ino w directory = Some d \<and> entry w d ident = Some i \<and>
    w_inodes w i = Some nd \<and> outgoing_st_ok len (w_uid w) (stat_of i nd) \<and> opened w v fd i False)"
proof -
  from assms have n: "valid_id ident" and
    o: "open_checked [O_RDONLY, O_NONBLOCK, O_NOFOLLOW, O_CLOEXEC] (outgoing_st_ok len)
      directory ident w = (Inr fd, v)"
    by (auto simp: zc_outgoing_open_checked split: prod.splits sum.splits if_splits)
  from open_checked_ok [OF o outgoing_flags valid_id_plain [OF n]] n show ?thesis by blast
qed

lemma zc_outgoing_open_err:
  assumes "wf_fds w" and "zc_outgoing_open directory ident len w = (fd, v)" and "fd < 0"
  shows "returned w v"
proof (cases "valid_id ident")
  case True
  note pl = valid_id_plain [OF True]
  obtain r u where o: "open_checked [O_RDONLY, O_NONBLOCK, O_NOFOLLOW, O_CLOEXEC] (outgoing_st_ok len)
      directory ident w = (r, u)" by fastforce
  show ?thesis
  proof (cases r)
    case (Inl e)
    with o open_checked_err [OF _ outgoing_flags pl assms(1)] assms(2) True show ?thesis
      by (auto simp: zc_outgoing_open_checked)
  next
    case (Inr g)
    with o open_checked_ok [OF _ outgoing_flags pl] obtain i where "opened w u g i False" by blast
    from opened_nonneg [OF this assms(1)] Inr o assms(2,3) True show ?thesis
      by (simp add: zc_outgoing_open_checked)
  qed
qed (use assms in \<open>simp add: zc_outgoing_open_checked quiet_returned\<close>)

interpretation outgoing_opened: owned_open valid_id
    "\<lambda>(directory, len) ident. zc_outgoing_open directory ident len"
    "\<lambda>(directory, len) w. case fd_ino w directory of None \<Rightarrow> None
       | Some d \<Rightarrow> if dir_of w d = None then None else Some d"
    "\<lambda>(directory, len). outgoing_st_ok len"
proof unfold_locales
  fix w k n fd v
  assume o: "(\<lambda>(directory, len) ident. zc_outgoing_open directory ident len) k n w = (fd, v)"
    and fd: "0 \<le> fd"
  obtain directory len where k: "k = (directory, len)" by (cases k)
  with zc_outgoing_open_ok [of directory n len w fd v] o fd
  show "\<exists>d i nd. valid_id n \<and> (case k of (directory, len) \<Rightarrow> \<lambda>w. case fd_ino w directory of
      None \<Rightarrow> None | Some d \<Rightarrow> if dir_of w d = None then None else Some d) w = Some d \<and>
    entry w d n = Some i \<and> w_inodes w i = Some nd \<and>
    (case k of (directory, len) \<Rightarrow> outgoing_st_ok len) (w_uid w) (stat_of i nd) \<and> opened_up w v fd i"
    by (auto simp: opened_opened_up entry_dir_of)
next
  fix w k n fd v
  assume "wf_fds w" and "(\<lambda>(directory, len) ident. zc_outgoing_open directory ident len) k n w = (fd, v)"
    and "fd < 0"
  then show "returned w v" by (cases k) (auto intro: zc_outgoing_open_err)
qed (auto simp: outgoing_st_ok_def)

lemma zc_outgoing_create_okD:
  assumes "zc_outgoing_create directory ident w = (fd, v)" and "0 \<le> fd" and "fresh_inode w"
  shows "\<exists>d. fd_ino w directory = Some d \<and> entry w d ident = None \<and> fd = w_nextfd w \<and>
    created w v d ident \<lparr>i_node = Regular [], i_uid = w_uid w, i_mode = M0600, i_nlink = 1,
      i_mtime = w_now w, i_ctime = w_now w\<rparr> \<and>
    w_files v = (w_files w)(fd \<mapsto> \<lparr>f_ino = w_next w, f_pos = 0, f_wr = True\<rparr>) \<and>
    w_nextfd v = w_nextfd w + 1"
proof -
  have fl: "create_flags [O_RDWR, O_CREAT, O_EXCL, O_NOFOLLOW, O_CLOEXEC]"
    by (simp add: create_flags_def)
  from assms(1,2) have n: "valid_id ident" and
    o: "sys_openat directory ident [O_RDWR, O_CREAT, O_EXCL, O_NOFOLLOW, O_CLOEXEC] M0600 w = (Inr fd, v)"
    by (auto simp: zc_outgoing_create_def split: prod.splits sum.splits if_splits)
  from openat_create_okD [OF o fl valid_id_plain [OF n] assms(3)] show ?thesis by blast
qed

text \<open>Reading a scan to its end, or to its first error.\<close>

lemma zc_outgoing_next_shorter:
  "zc_outgoing_next names capacity w = (r, Some n, rest, v) \<Longrightarrow> length rest < length names"
  by (induction names capacity w rule: zc_outgoing_next.induct)
    (auto split: prod.splits sum.splits if_splits)

function scan_all :: "string list \<Rightarrow> nat \<Rightarrow> world \<Rightarrow> int \<times> string list" where
  "scan_all names capacity w =
     (case zc_outgoing_next names capacity w of
        (r, None, rest, v) \<Rightarrow> (r, [])
      | (r, Some n, rest, v) \<Rightarrow> (case scan_all rest capacity v of (r, ns) \<Rightarrow> (r, n # ns)))"
  by pat_completeness auto
termination
  by (relation "measure (\<lambda>(names, capacity, w). length names)")
    (auto simp: zc_outgoing_next_shorter [OF sym])

declare scan_all.simps [simp del]

lemma zc_outgoing_next_result:
  assumes "zc_outgoing_next names capacity w = (r, x, rest, v)" and "22 < capacity"
  shows "(x = None \<longrightarrow> r = -1 \<or> r = 0 \<and> filter valid_id names = []) \<and>
    (\<forall>n. x = Some n \<longrightarrow> r = 22 \<and> valid_id n \<and> filter valid_id names = n # filter valid_id rest) \<and>
    (w_script w = [] \<longrightarrow> r \<noteq> -1 \<and> w_script v = [])"
  using assms
proof (induction names capacity w rule: zc_outgoing_next.induct)
  case (1 capacity w)
  then show ?case
    by (auto simp: sys_readdir_def syscall_def tick_def split: prod.splits sum.splits list.splits outcome.splits)
next
  case (2 d names capacity w)
  obtain y u where y: "sys_readdir (d # names) w = (y, u)" by fastforce
  have s: "w_script w = [] \<Longrightarrow> w_script u = [] \<and> y = Inr (Some d)"
    using y by (auto simp: sys_readdir_def syscall_def tick_def)
  show ?case
  proof (cases y)
    case (Inl e)
    with "2.prems"(1) y s show ?thesis by auto
  next
    case (Inr z)
    show ?thesis
    proof (cases "valid_id d")
      case True
      then have "length d = 22" by (simp add: valid_id_def)
      with "2.prems" y Inr True have "r = 22" "x = Some d" "rest = names" "v = u" by simp_all
      with True s show ?thesis by simp
    next
      case False
      with "2.prems"(1) y Inr have "zc_outgoing_next names capacity u = (r, x, rest, v)" by simp
      from "2.IH" [OF y [symmetric] Inr False this "2.prems"(2)] False s show ?thesis by auto
    qed
  qed
qed

lemma scan_all_result:
  "22 < capacity \<Longrightarrow> scan_all names capacity w = (r, ids) \<Longrightarrow>
   prefix ids (filter valid_id names) \<and> (r = 0 \<or> r = -1) \<and>
   (r = 0 \<longrightarrow> ids = filter valid_id names) \<and> (w_script w = [] \<longrightarrow> r = 0)"
proof (induction names capacity w arbitrary: r ids rule: scan_all.induct)
  case (1 names capacity w)
  obtain q x rest v where x: "zc_outgoing_next names capacity w = (q, x, rest, v)"
    by (metis prod_cases4)
  note res = zc_outgoing_next_result [OF x "1.prems"(1)]
  show ?case
  proof (cases x)
    case None
    with 1 x res show ?thesis by (auto simp: scan_all.simps [of names])
  next
    case (Some n)
    obtain r' ns where s: "scan_all rest capacity v = (r', ns)" by fastforce
    with 1 x Some have "r = r'" "ids = n # ns" by (auto simp: scan_all.simps [of names])
    from "1.IH" [OF x [symmetric] refl Some refl "1.prems"(1) s] res Some
      \<open>r = r'\<close> \<open>ids = n # ns\<close> show ?thesis by auto
  qed
qed

lemma outgoing_dir_checked:
  "(case sys_openat parent ''outgoing'' fl 0 w of
      (Inl e, w) \<Rightarrow> (-1, sys_close parent w)
    | (Inr dir, w) \<Rightarrow>
        (case sys_fstat dir w of
           (Inl e, w) \<Rightarrow> (-1, sys_close parent (sys_close dir w))
         | (Inr st, w) \<Rightarrow>
             if st_uid st \<noteq> w_uid w \<or> st_mode st AND M0777 \<noteq> M0700
             then (-1, sys_close parent (sys_close dir w))
             else (case sys_fsync parent w of
                 (Inl e, w) \<Rightarrow> (-1, sys_close parent (sys_close dir w))
               | (Inr _, w) \<Rightarrow> (dir, sys_close parent w)))) =
   (case open_checked fl (\<lambda>u st. st_uid st = u \<and> st_mode st AND M0777 = M0700) parent ''outgoing'' w of
      (Inl e, w) \<Rightarrow> (-1, sys_close parent w)
    | (Inr dir, w) \<Rightarrow> (case sys_fsync parent w of
        (Inl e, w) \<Rightarrow> (-1, sys_close parent (sys_close dir w))
      | (Inr _, w) \<Rightarrow> (dir, sys_close parent w)))"
proof -
  obtain r u where o: "sys_openat parent ''outgoing'' fl 0 w = (r, u)" by fastforce
  show ?thesis
  proof (cases r)
    case (Inr dir)
    obtain s v where s: "sys_fstat dir u = (s, v)" by fastforce
    with o Inr show ?thesis by (cases s) (simp_all add: open_checked_def)
  qed (simp add: open_checked_def o)
qed

section \<open>Properties\<close>

text \<open>
  C37: Staging round trip. If creating the file of an id and writing the bytes succeed, and
  later that id is opened with the same length, the descriptor reads exactly the bytes, and
  the file is private to the user; partial and interrupted writes do not matter.
\<close>

theorem zc_outgoing_roundtrip:
  assumes "wf_fds w" and "fresh_inode w" and dir: "fd_ino w directory = Some d" "directory < w_nextfd w"
    and 1: "zc_outgoing_create directory ident w = (fd, w1)" "0 \<le> fd"
    and 2: "zc_outgoing_write fd bytes w1 = (True, w2)"
    and 3: "zc_outgoing_open directory ident (length bytes) (sys_close fd w2) = (g, w3)" "0 \<le> g"
  shows "\<exists>i. fd_ino w3 g = Some i \<and> entry w d ident = None \<and> entry w3 d ident = Some i \<and>
    file_bytes w3 i = Some bytes \<and> attrs w3 i = Some (w_uid w, M0600, S_REG)"
proof -
  let ?i = "w_next w"
  from zc_outgoing_create_okD [OF 1 assms(2)] dir(1) have
    c: "entry w d ident = None" "fd = w_nextfd w" "created w w1 d ident \<lparr>i_node = Regular [],
      i_uid = w_uid w, i_mode = M0600, i_nlink = 1, i_mtime = w_now w, i_ctime = w_now w\<rparr>"
    "w_files w1 = (w_files w)(fd \<mapsto> \<lparr>f_ino = ?i, f_pos = 0, f_wr = True\<rparr>)" by auto
  then have fb1: "file_bytes w1 ?i = Some []" and at1: "attrs w1 ?i = Some (w_uid w, M0600, S_REG)"
    by (auto simp: created_def file_bytes_def node_of_def attrs_def)
  with c(4) have "writable w1 fd" by (simp add: writable_def)
  from outgoing_writer.complete [OF this 2] have wrote: "wrote w1 w2 fd bytes" .
  with c(4) fb1 have fb2: "file_bytes w2 ?i = Some bytes" and e2: "entry w2 = entry w1"
    and f2: "w_files w2 = (w_files w)(fd \<mapsto> \<lparr>f_ino = ?i, f_pos = length bytes, f_wr = True\<rparr>)"
    and at2: "attrs w2 ?i = Some (w_uid w, M0600, S_REG)"
    using at1 by (auto simp: wrote_def)
  let ?u = "sys_close fd w2"
  have cl: "entry ?u = entry w2" "file_bytes ?u = file_bytes w2" "attrs ?u = attrs w2"
    by (auto simp: entry_def dir_of_def file_bytes_def node_of_def attrs_def fun_eq_iff)
  have "fd_ino ?u directory = Some d" using dir c(2) f2 by (simp add: fd_ino_def)
  with zc_outgoing_open_ok [OF 3] obtain i where i: "entry ?u d ident = Some i" "opened ?u w3 g i False"
    by auto
  have "i = ?i" using i(1) cl e2 c(3) by (simp add: created_def)
  with i opened_lookups(3,6) [OF i(2)] disk_edit_frames(2) [OF i(2)] cl fb2 at2 c(1) show ?thesis
    by (auto simp: disk_edit_def)
qed

theorem zc_outgoing_roundtrip_witness:
  "\<exists>i. file_bytes (snd (zc_outgoing_open 4 ''AAAAAAAAAAAAAAAAAAAAA_'' 3 (sys_close 5
      (snd (zc_outgoing_write 5 ''abc'' (snd (zc_outgoing_create 4 ''AAAAAAAAAAAAAAAAAAAAA_''
        (sample_world [Ok, Fail EINTR, Short 2]))))))) ) i = Some ''abc''"
proof -
  let ?n = "''AAAAAAAAAAAAAAAAAAAAA_''" and ?w = "sample_world [Ok, Fail EINTR, Short 2]"
  let ?w1 = "snd (zc_outgoing_create 4 ?n ?w)"
  let ?w2 = "snd (zc_outgoing_write 5 ''abc'' ?w1)"
  let ?w3 = "snd (zc_outgoing_open 4 ?n 3 (sys_close 5 ?w2))"
  note run = zc_outgoing_create_def zc_outgoing_write_def zc_outgoing_open_def outgoing_st_ok_def
    valid_id_def write_all.simps posix_run
  have 1: "zc_outgoing_create 4 ?n ?w = (5, ?w1)" by (simp add: run)
  have 2: "zc_outgoing_write 5 ''abc'' ?w1 = (True, ?w2)" by (simp add: run)
  have 3: "zc_outgoing_open 4 ?n (length ''abc'') (sys_close 5 ?w2) = (6, ?w3)" by (simp add: run)
  have d: "fd_ino ?w 4 = Some 1" "4 < w_nextfd ?w" by (simp_all add: fd_ino_def sample_world_def)
  from zc_outgoing_roundtrip [OF sample_wf d 1 _ 2 3] show ?thesis by fastforce
qed

text \<open>
  Opening a staged file gives a descriptor only for the entry of that id in the staging
  directory, never through a symbolic link, and only if it is a regular file of the user with
  one link, closed to others and of the expected length; otherwise nothing stays open. The
  disk is never changed.
\<close>

theorem zc_outgoing_open_owned:
  assumes "wf_fds w" and "zc_outgoing_open directory ident len w = (fd, v)"
  shows "same_disk w v \<and> wf_fds v \<and>
    (if fd < 0 then w_files v = w_files w
     else valid_id ident \<and> (\<exists>d i nd bs. fd_ino w directory = Some d \<and> entry w d ident = Some i \<and>
       w_inodes w i = Some nd \<and> i_node nd = Regular bs \<and> length bs = len \<and> i_uid nd = w_uid w \<and>
       i_nlink nd = 1 \<and> i_mode nd AND M077 = 0 \<and>
       w_files v = (w_files w)(fd \<mapsto> \<lparr>f_ino = i, f_pos = 0, f_wr = False\<rparr>)))"
proof (cases "fd < 0")
  case True
  with outgoing_opened.balanced [of w "(directory, len)" ident fd v] assms show ?thesis by simp
next
  case False
  with zc_outgoing_open_ok [OF assms(2)] obtain d i nd where
    d: "valid_id ident" "fd_ino w directory = Some d" "entry w d ident = Some i" "w_inodes w i = Some nd"
      "outgoing_st_ok len (w_uid w) (stat_of i nd)" "opened w v fd i False"
    by auto
  then obtain bs where "i_node nd = Regular bs"
    by (cases "i_node nd") (auto simp: outgoing_st_ok_def S_ISREG_def stat_of_def)
  with d False outgoing_opened.balanced [of w "(directory, len)" ident fd v] assms show ?thesis
    by (auto simp: opened_def outgoing_st_ok_def stat_of_def)
qed

theorem zc_outgoing_open_owned_witness:
  "same_disk (sample_world []) (snd (zc_outgoing_open 4 ''f'' 2 (sample_world []))) \<and>
   w_files (snd (zc_outgoing_open 4 ''f'' 2 (sample_world []))) = w_files (sample_world [])"
  using zc_outgoing_open_owned [OF sample_wf(1) surjective_pairing, of "[]" 4 "''f''" 2]
  by (simp add: zc_outgoing_open_def valid_id_def)

text \<open>
  \<open>zc_outgoing_remove\<close> touches no entry but that of the id, changes no file's
  contents, and reports success only if the id is absent afterwards.
\<close>

theorem zc_outgoing_remove_exact:
  assumes "zc_outgoing_remove directory ident w = (ok, v)" and "fd_ino w directory = Some d"
  shows "(\<forall>e n. (e, n) \<noteq> (d, ident) \<longrightarrow> entry v e n = entry w e n) \<and>
    (entry v d ident = entry w d ident \<or> entry v d ident = None) \<and>
    (\<forall>i. file_bytes v i = file_bytes w i) \<and> w_files v = w_files w \<and>
    (ok \<longrightarrow> valid_id ident \<and> entry v d ident = None)"
proof (cases "valid_id ident")
  case False
  with assms show ?thesis by (auto simp: zc_outgoing_remove_def)
next
  case n: True
  note pl = valid_id_plain [OF n]
  obtain g u where g: "sys_unlinkat directory ident False w = (g, u)" by fastforce
  obtain s t where s: "sys_fsync directory u = (s, t)" by fastforce
  have v: "v = u \<and> \<not> ok \<and> (\<exists>e. g = Inl e) \<or> v = t \<and> (g = Inl ENOENT \<or> g = Inr ())"
    using assms(1) n g s by (auto simp: zc_outgoing_remove_def split: sum.splits if_splits)
  have q: "quiet u t" by (rule fsync_quiet [OF s])
  show ?thesis
  proof (cases g)
    case (Inl e)
    have qu: "quiet w u" by (rule unlink_errD [OF g [unfolded Inl] pl])
    have "e = ENOENT \<Longrightarrow> entry w d ident = None"
      using unlink_ENOENT [of directory ident False w u] g Inl pl assms(2) by auto
    with v Inl n edited_quiet [OF qu] edited_quiet [OF quiet_trans [OF qu q]] show ?thesis
      by (auto simp: edited_def)
  next
    case (Inr x)
    then have "edited w u ((entry w)(d := (entry w d)(ident := None)))"
      using unlink_okD [of directory ident False w u] g pl assms(2) by auto
    with v Inr n edited_quiet [OF q] show ?thesis by (auto simp: edited_def)
  qed
qed

theorem zc_outgoing_remove_exact_witness:
  "entry (snd (zc_outgoing_remove 4 ''f'' (sample_world []))) 1 ''f'' = Some 2"
proof -
  have "fd_ino (sample_world []) 4 = Some 1" by (simp add: posix_run)
  then show ?thesis
    using zc_outgoing_remove_exact [OF surjective_pairing, where directory = 4 and ident = "''f''" and d = 1 and w = "sample_world []"]
    by (simp add: zc_outgoing_remove_def valid_id_def posix_run)
qed

text \<open>
  Scanning the staging directory returns the valid ids among its entries, each once, in
  order, and nothing else; it ends with 0 only when all were returned, ends with -1 after a
  failed read, and always ends with 0 when no call fails.
\<close>

theorem zc_outgoing_scan_complete:
  assumes "22 < capacity" and "scan_all names capacity w = (r, ids)"
  shows "prefix ids (filter valid_id names) \<and> (r = 0 \<or> r = -1) \<and>
    (r = 0 \<longrightarrow> ids = filter valid_id names) \<and> (w_script w = [] \<longrightarrow> r = 0)"
  using assms by (rule scan_all_result)

theorem zc_outgoing_scan_complete_witness:
  "scan_all [''.'', ''..'', ''x'', ''AAAAAAAAAAAAAAAAAAAAA_''] 23 (sample_world []) =
    (0, [''AAAAAAAAAAAAAAAAAAAAA_''])"
proof -
  let ?ns = "[''.'', ''..'', ''x'', ''AAAAAAAAAAAAAAAAAAAAA_'']"
  obtain r ids where s: "scan_all ?ns 23 (sample_world []) = (r, ids)" by fastforce
  from zc_outgoing_scan_complete [OF _ s] have "r = 0" "ids = filter valid_id ?ns"
    by (auto simp: sample_world_def)
  then show ?thesis using s by (simp add: valid_id_def)
qed

text \<open>
  \<open>zc_outgoing_directory\<close> returns a descriptor only for a directory named
  \<open>outgoing\<close>, owned by the user and with mode exactly 0700; apart from possibly creating
  it, it changes no entry and no file, and every other descriptor it opened is closed again.
\<close>

theorem zc_outgoing_directory_private:
  assumes "wf_fds w" and "fresh_inode w" and "zc_outgoing_directory data w = (fd, v)"
  shows "(if fd < 0 then w_files v = w_files w
      else \<exists>p i nd. entry v p ''outgoing'' = Some i \<and> dir_of v i \<noteq> None \<and> w_inodes v i = Some nd \<and>
        i_uid nd = w_uid w \<and> i_mode nd AND M0777 = M0700 \<and>
        w_files v = (w_files w)(fd \<mapsto> \<lparr>f_ino = i, f_pos = 0, f_wr = False\<rparr>)) \<and>
    (\<forall>d. entry w d \<subseteq>\<^sub>m entry v d) \<and>
    (\<forall>d n. n \<noteq> ''outgoing'' \<longrightarrow> entry v d n = entry w d n) \<and> file_bytes w \<subseteq>\<^sub>m file_bytes v"
proof -
  have pl: "plain_name ''outgoing''" by (simp add: plain_name_def)
  have fl: "ro_flags [O_RDONLY, O_DIRECTORY, O_NOFOLLOW, O_CLOEXEC]" by (simp add: ro_flags_def)
  have base: ?thesis if "fd < 0" "kept_but ''outgoing'' w v" "w_files v = w_files w"
    using that(2,3) unfolding kept_but_def if_P [OF that(1)] by blast
  obtain r1 w1 where 1: "sys_open data [O_RDONLY, O_DIRECTORY, O_NOFOLLOW, O_CLOEXEC] 0 w = (r1, w1)"
    by fastforce
  show ?thesis
  proof (cases r1)
    case (Inl e)
    with 1 assms(3) openat_dir_errD [of "-100" data "[O_RDONLY, O_DIRECTORY, O_NOFOLLOW, O_CLOEXEC]" 0 w e w1] have "fd = -1" "v = w1" "quiet w w1"
      by (auto simp: zc_outgoing_directory_def sys_open_def)
    then show ?thesis by (intro base kept_but_frames(1)) (auto simp: quiet_def)
  next
    case (Inr p)
    with 1 openat_dir_okD [of "-100" data "[O_RDONLY, O_DIRECTORY, O_NOFOLLOW, O_CLOEXEC]" 0 w p w1]
    obtain P where o1: "opened w w1 p P False" by (auto simp: sys_open_def)
    from opened_wf [OF o1 assms(1)] have wf1: "wf_fds w1" .
    obtain m w2 where 2: "sys_mkdirat p ''outgoing'' M0700 w1 = (m, w2)" by fastforce
    have fr1: "fresh_inode w1" using o1 assms(2) by (simp add: fresh_inode_def opened_def same_disk_def)
    have k2: "kept_but ''outgoing'' w w2" and f2: "w_files w2 = w_files w1" "w_nextfd w2 = w_nextfd w1"
      "w_uid w2 = w_uid w"
      using mkdirat_kept [OF 2 fr1 pl] kept_but_frames(2) [OF o1] o1
      by (auto intro: kept_but_trans simp: opened_def same_disk_def)
    have wf2: "wf_fds w2" using wf1 f2 by (simp add: wf_fds_def)
    have closed: "w_files (sys_close p w2) = w_files w"
      using o1 f2 assms(1) by (auto simp: opened_def wf_fds_def fun_upd_idem)
    show ?thesis
    proof (cases "\<exists>e. m = Inl e \<and> e \<noteq> EEXIST")
      case True
      with 1 2 Inr assms(3) have "fd = -1" "v = sys_close p w2" by (auto simp: zc_outgoing_directory_def)
      with closed k2 show ?thesis by (intro base) auto
    next
      case False
      let ?chk = "\<lambda>u st. st_uid st = u \<and> st_mode st AND M0777 = M0700"
      obtain r3 w3 where 3: "open_checked [O_RDONLY, O_DIRECTORY, O_NOFOLLOW, O_CLOEXEC] ?chk p ''outgoing'' w2 = (r3, w3)"
        by fastforce
      have step: "zc_outgoing_directory data w = (case r3 of Inl e \<Rightarrow> (-1, sys_close p w3)
          | Inr dir \<Rightarrow> (case sys_fsync p w3 of (Inl e, u) \<Rightarrow> (-1, sys_close p (sys_close dir u))
             | (Inr _, u) \<Rightarrow> (dir, sys_close p u)))"
        using False unfolding zc_outgoing_directory_def 1 Inr
        by (simp add: 2 outgoing_dir_checked 3 split: sum.splits)
      show ?thesis
      proof (cases r3)
        case (Inl e)
        with step assms(3) have "fd = -1" "v = sys_close p w3" by auto
        moreover have ret: "returned w2 w3" by (rule open_checked_err [OF 3 [unfolded Inl] fl pl wf2])
        ultimately show ?thesis
          using closed kept_but_trans [OF k2 kept_but_frames(3) [OF ret]] ret
          by (intro base) (auto simp: returned_def)
      next
        case (Inr dir)
        from open_checked_ok [OF 3 [unfolded Inr] fl pl] obtain d i nd where
          d: "entry w2 d ''outgoing'' = Some i" "w_inodes w2 i = Some nd" "dir_of w2 i \<noteq> None"
            "?chk (w_uid w2) (stat_of i nd)" "opened w2 w3 dir i False" by auto
        obtain s w4 where s: "sys_fsync p w3 = (s, w4)" by fastforce
        have q: "quiet w3 w4" by (rule fsync_quiet [OF s])
        have k4: "kept_but ''outgoing'' w w4"
          using kept_but_trans [OF kept_but_trans [OF k2 kept_but_frames(2) [OF d(5)]]
            kept_but_frames(1) [OF q]] .
        have p_dir: "p \<noteq> dir" "0 \<le> dir" using d(5) o1 f2 wf1 by (auto simp: opened_def wf_fds_def)
        have f4: "w_files w4 = (w_files w)(p \<mapsto> \<lparr>f_ino = P, f_pos = 0, f_wr = False\<rparr>,
            dir \<mapsto> \<lparr>f_ino = i, f_pos = 0, f_wr = False\<rparr>)" and free: "w_files w p = None" "w_files w dir = None"
          using d(5) q o1 f2 assms(1) by (auto simp: opened_def quiet_def wf_fds_def)
        show ?thesis
        proof (cases s)
          case (Inl e)
          with step assms(3) \<open>r3 = Inr dir\<close> s have "fd = -1" "v = sys_close p (sys_close dir w4)" by auto
          moreover have "w_files (sys_close p (sys_close dir w4)) = w_files w"
            using f4 free by auto
          ultimately show ?thesis using k4 by (intro base) auto
        next
          case (Inr x)
          with step assms(3) \<open>r3 = Inr dir\<close> s have fd: "fd = dir" and v: "v = sys_close p w4" by auto
          have vi: "w_inodes v = w_inodes w2" using v q d(5) by (simp add: quiet_def opened_def same_disk_def)
          then have e: "entry v d ''outgoing'' = Some i" "dir_of v i \<noteq> None" "w_inodes v i = Some nd"
            using d(1-3) by (simp_all add: entry_def dir_of_def)
          have a: "i_uid nd = w_uid w" "i_mode nd AND M0777 = M0700" and neg: "\<not> fd < 0"
            using d(4) f2(3) p_dir fd by (auto simp: stat_of_def)
          have f: "w_files v = (w_files w)(fd \<mapsto> \<lparr>f_ino = i, f_pos = 0, f_wr = False\<rparr>)"
            using v fd f4 p_dir free by (auto simp: fun_eq_iff)
          have k: "kept_but ''outgoing'' w v" using k4 v by simp
          show ?thesis unfolding if_not_P [OF neg]
            by (intro conjI exI) (rule e a f k [unfolded kept_but_def, THEN conjunct1]
              k [unfolded kept_but_def, THEN conjunct2, THEN conjunct1]
              k [unfolded kept_but_def, THEN conjunct2, THEN conjunct2])+
        qed
      qed
    qed
  qed
qed

theorem zc_outgoing_directory_private_witness:
  "fst (zc_outgoing_directory ''/up'' (sample_world [])) = 6 \<and>
   (\<exists>p i. entry (snd (zc_outgoing_directory ''/up'' (sample_world []))) p ''outgoing'' = Some i)"
proof -
  have "fst (zc_outgoing_directory ''/up'' (sample_world [])) = 6"
    by (simp add: zc_outgoing_directory_def sys_open_def posix_run max_links_def)
  then show ?thesis
    using zc_outgoing_directory_private [OF sample_wf surjective_pairing, where data = "''/up''" and s2 = "[]"] by auto
qed


end
