(* ===== verification/RelayMedia.thy ===== *)
theory RelayMedia
  imports Owned
begin

text \<open>
  \<open>src/relay/media.c\<close>: the relay's access to originals and derivatives on disk, and the
  supervision of the image helper. Results are the C integers, with the negative categories of
  \<open>media.h\<close>. A NULL path and a failed \<open>malloc\<close> are not represented. The model
  has one device, so \<open>st_dev\<close> is left out of the fingerprint. The Apple branches are the
  ones modelled (the relay runs on macOS): the resident size of the helper is watched.
\<close>

section \<open>Names and directories\<close>

definition media_component :: "string \<Rightarrow> bool" where
  "media_component name \<longleftrightarrow> name \<noteq> '''' \<and> name \<noteq> ''.'' \<and> name \<noteq> ''..'' \<and> CHR ''/'' \<notin> set name"

definition error_code :: "errno \<Rightarrow> int" where
  "error_code e = (if e = ENOENT then -2 else if e = ELOOP \<or> e = ENOTDIR then -3 else -1)"

text \<open>The value of Linux; on Apple systems it is 1024. No theorem depends on it.\<close>

definition PATH_MAX :: nat where "PATH_MAX = 4096"

text \<open>The \<open>strsep\<close> loop of \<open>zr_media_directory\<close> over the remaining parts.\<close>

fun directory_parts :: "string list \<Rightarrow> bool \<Rightarrow> fd \<Rightarrow> world \<Rightarrow> int \<times> world" where
  "directory_parts [] create_private fd w = (fd, w)"
| "directory_parts (part # remaining) create_private fd w =
     (if \<not> media_component part then (-3, sys_close fd w)
      else case sys_openat fd part [O_RDONLY, O_DIRECTORY, O_NOFOLLOW, O_CLOEXEC] 0 w of
        (Inr dir, w) \<Rightarrow> directory_parts remaining create_private dir (sys_close fd w)
      | (Inl e, w) \<Rightarrow>
          if e = ENOENT \<and> remaining = [] \<and> create_private then
            (case sys_mkdirat fd part M0700 w of (made, w) \<Rightarrow>
               if (case made of Inl e \<Rightarrow> e \<noteq> EEXIST | Inr _ \<Rightarrow> False) then (-1, sys_close fd w)
               else case sys_openat fd part [O_RDONLY, O_DIRECTORY, O_NOFOLLOW, O_CLOEXEC] 0 w of
                 (Inr dir, w) \<Rightarrow> directory_parts remaining create_private dir (sys_close fd w)
               | (Inl e, w) \<Rightarrow> (error_code e, sys_close fd w))
          else (error_code e, sys_close fd w))"

definition zr_media_directory :: "string \<Rightarrow> bool \<Rightarrow> world \<Rightarrow> int \<times> world" where
  "zr_media_directory path create_private w =
     (if \<not> has_prefix ''/'' path \<or> length path \<ge> PATH_MAX then (-3, w)
      else case sys_open ''/'' [O_RDONLY, O_DIRECTORY, O_CLOEXEC] 0 w of
        (Inl e, w) \<Rightarrow> (-1, w)
      | (Inr fd, w) \<Rightarrow>
          (case directory_parts (components (tl path)) create_private fd w of (fd, w) \<Rightarrow>
             if fd < 0 \<or> \<not> create_private then (fd, w)
             else case sys_fstat fd w of
               (Inl e, w) \<Rightarrow> (-3, sys_close fd w)
             | (Inr st, w) \<Rightarrow>
                 if st_uid st \<noteq> w_uid w \<or> st_mode st AND M077 \<noteq> 0 then (-3, sys_close fd w)
                 else (fd, w)))"

section \<open>Fingerprints and originals\<close>

record media_fingerprint =
  fp_inode :: ino
  fp_bytes :: int
  fp_modified :: "int \<times> int"
  fp_changed :: "int \<times> int"

definition max_original :: int where "max_original = 100 * 1024 * 1024"

definition zr_media_fingerprint :: "fd \<Rightarrow> media_fingerprint \<Rightarrow> world \<Rightarrow>
    int \<times> media_fingerprint \<times> world" where
  "zr_media_fingerprint fd out w =
     (case sys_fstat fd w of
        (Inl e, w) \<Rightarrow> (-1, out, w)
      | (Inr st, w) \<Rightarrow>
          if \<not> S_ISREG st \<or> st_uid st \<noteq> w_uid w \<or> st_nlink st \<noteq> 1 \<or> st_size st < 0 then (-3, out, w)
          else if st_size st > max_original then (-4, out, w)
          else (0, \<lparr>fp_inode = st_ino st, fp_bytes = st_size st, fp_modified = st_mtim st,
                  fp_changed = st_ctim st\<rparr>, w))"

definition zr_media_same :: "media_fingerprint \<Rightarrow> media_fingerprint \<Rightarrow> bool" where
  "zr_media_same a b \<longleftrightarrow> fp_inode a = fp_inode b \<and> fp_bytes a = fp_bytes b \<and>
     fst (fp_modified a) = fst (fp_modified b) \<and> snd (fp_modified a) = snd (fp_modified b) \<and>
     fst (fp_changed a) = fst (fp_changed b) \<and> snd (fp_changed a) = snd (fp_changed b)"

text \<open>The \<open>strsep\<close> loop of \<open>zr_media_source\<close>: all parts but the last must be directories.\<close>

fun source_parts :: "string list \<Rightarrow> fd \<Rightarrow> world \<Rightarrow> int \<times> world" where
  "source_parts [] dir w = (dir, w)"
| "source_parts (part # remaining) dir w =
     (if \<not> media_component part then (-3, sys_close dir w)
      else case sys_openat dir part ([O_RDONLY, O_NOFOLLOW, O_CLOEXEC, O_NONBLOCK] @
          (if remaining \<noteq> [] then [O_DIRECTORY] else [])) 0 w of
        (Inl e, w) \<Rightarrow> (error_code e, sys_close dir w)
      | (Inr fd, w) \<Rightarrow> source_parts remaining fd (sys_close dir w))"

definition zr_media_source :: "fd \<Rightarrow> string \<Rightarrow> media_fingerprint \<Rightarrow> world \<Rightarrow>
    int \<times> media_fingerprint \<times> world" where
  "zr_media_source root relative fingerprint w =
     (if root < 0 then (-2, fingerprint, w)
      else if has_prefix ''/'' relative \<or> length relative \<ge> PATH_MAX then (-3, fingerprint, w)
      else case sys_dup root w of
        (Inl e, w) \<Rightarrow> (-1, fingerprint, w)
      | (Inr dir, w) \<Rightarrow>
          (case source_parts (components relative) dir w of (dir, w) \<Rightarrow>
             if dir < 0 then (dir, fingerprint, w)
             else case zr_media_fingerprint dir fingerprint w of (status, fingerprint, w) \<Rightarrow>
               if status < 0 then (status, fingerprint, sys_close dir w)
               else (dir, fingerprint, w)))"

section \<open>Derivatives\<close>

definition zr_media_temporary :: "fd \<Rightarrow> string \<Rightarrow> world \<Rightarrow> int \<times> world" where
  "zr_media_temporary directory name w =
     (if \<not> media_component name \<or> \<not> has_prefix ''.tmp-'' name then (-3, w)
      else case sys_openat directory name [O_RDWR, O_CREAT, O_EXCL, O_NOFOLLOW, O_CLOEXEC] M0600 w of
        (Inl e, w) \<Rightarrow> (-1, w)
      | (Inr fd, w) \<Rightarrow> (fd, w))"

definition max_encoded :: int where "max_encoded = 8 * 1024 * 1024"

definition zr_media_install :: "fd \<Rightarrow> fd \<Rightarrow> string \<Rightarrow> string \<Rightarrow> world \<Rightarrow> int \<times> world" where
  "zr_media_install directory fd temporary name w =
     (if \<not> media_component temporary \<or> \<not> media_component name then (-1, w)
      else case sys_fstat fd w of
        (Inl e, w) \<Rightarrow> (-1, w)
      | (Inr st, w) \<Rightarrow>
          if \<not> S_ISREG st \<or> st_uid st \<noteq> w_uid w \<or> st_nlink st \<noteq> 1 \<or> st_size st < 1 \<or>
             st_size st > max_encoded then (-1, w)
          else case sys_fchmod fd M0600 w of
            (Inl e, w) \<Rightarrow> (-1, w)
          | (Inr _, w) \<Rightarrow>
              (case sys_fsync fd w of
                 (Inl e, w) \<Rightarrow> (-1, w)
               | (Inr _, w) \<Rightarrow>
                   (case sys_renameat directory temporary directory name w of
                      (Inl e, w) \<Rightarrow> (-1, w)
                    | (Inr _, w) \<Rightarrow>
                        (case sys_fsync directory w of
                           (Inl e, w) \<Rightarrow> (-1, w)
                         | (Inr _, w) \<Rightarrow> (0, w)))))"

definition cached_st_ok :: "int \<Rightarrow> nat \<Rightarrow> stat \<Rightarrow> bool" where
  "cached_st_ok expected_bytes uid st \<longleftrightarrow> \<not> (\<not> S_ISREG st \<or> st_uid st \<noteq> uid \<or> st_nlink st \<noteq> 1 \<or>
     st_mode st AND M077 \<noteq> 0 \<or> st_size st < 1 \<or> st_size st > max_encoded \<or> st_size st \<noteq> expected_bytes)"

definition zr_media_cached :: "fd \<Rightarrow> string \<Rightarrow> int \<Rightarrow> world \<Rightarrow> int \<times> world" where
  "zr_media_cached directory name expected_bytes w =
     (if \<not> media_component name then (-3, w)
      else case sys_openat directory name [O_RDONLY, O_NOFOLLOW, O_CLOEXEC, O_NONBLOCK] 0 w of
        (Inl e, w) \<Rightarrow> (error_code e, w)
      | (Inr fd, w) \<Rightarrow>
          (case sys_fstat fd w of
             (Inl e, w) \<Rightarrow> (-3, sys_close fd w)
           | (Inr st, w) \<Rightarrow>
               if \<not> cached_st_ok expected_bytes (w_uid w) st then (-3, sys_close fd w) else (fd, w)))"

definition zr_media_remove :: "fd \<Rightarrow> string \<Rightarrow> world \<Rightarrow> int \<times> world" where
  "zr_media_remove directory name w =
     (if \<not> media_component name then (-3, w)
      else case sys_unlinkat directory name False w of
        (Inl e, w) \<Rightarrow> (-1, w) | (Inr _, w) \<Rightarrow> (0, w))"

text \<open>The loop of \<open>zr_media_sweep\<close>; it ends at the first failed \<open>readdir\<close> and ignores
  failed removals.\<close>

fun sweep_entries :: "fd \<Rightarrow> string list \<Rightarrow> world \<Rightarrow> world" where
  "sweep_entries directory [] w = snd (sys_readdir [] w)"
| "sweep_entries directory (d_name # names) w =
     (case sys_readdir (d_name # names) w of
        (Inl e, w) \<Rightarrow> w
      | (Inr _, w) \<Rightarrow>
          if has_prefix ''.tmp-'' d_name then
            (case sys_unlinkat directory d_name False w of (_, w) \<Rightarrow> sweep_entries directory names w)
          else sweep_entries directory names w)"

definition zr_media_sweep :: "fd \<Rightarrow> world \<Rightarrow> int \<times> world" where
  "zr_media_sweep directory w =
     (case sys_dup directory w of
        (Inl e, w) \<Rightarrow> (-1, w)
      | (Inr copy, w) \<Rightarrow>
          (case sys_fdopendir copy w of
             (Inl e, w) \<Rightarrow> (-1, sys_close copy w)
           | (Inr names, w) \<Rightarrow> (0, sys_close copy (sweep_entries directory names w))))"

definition zr_media_scan :: "fd \<Rightarrow> world \<Rightarrow> (fd \<times> string list) option \<times> world" where
  "zr_media_scan directory w =
     (case sys_openat directory ''.'' [O_RDONLY, O_DIRECTORY, O_CLOEXEC] 0 w of
        (Inl e, w) \<Rightarrow> (None, w)
      | (Inr copy, w) \<Rightarrow>
          (case sys_fdopendir copy w of
             (Inl e, w) \<Rightarrow> (None, sys_close copy w)
           | (Inr names, w) \<Rightarrow> (Some (copy, names), w)))"

fun zr_media_scan_next :: "string list \<Rightarrow> nat \<Rightarrow> world \<Rightarrow> int \<times> string option \<times> string list \<times> world" where
  "zr_media_scan_next [] capacity w = (0, None, [], snd (sys_readdir [] w))"
| "zr_media_scan_next (d_name # names) capacity w =
     (case sys_readdir (d_name # names) w of
        (Inl e, w) \<Rightarrow> (0, None, d_name # names, w)
      | (Inr _, w) \<Rightarrow>
          if length d_name \<ge> capacity \<or> \<not> media_component d_name then zr_media_scan_next names capacity w
          else (int (length d_name), Some d_name, names, w))"

definition zr_media_scan_close :: "(fd \<times> string list) option \<Rightarrow> world \<Rightarrow> world" where
  "zr_media_scan_close scan w = (case scan of None \<Rightarrow> w | Some (fd, _) \<Rightarrow> sys_close fd w)"

section \<open>The image helper\<close>

text \<open>
  \<open>zr_media_convert\<close> runs a helper process on two descriptors and reads an
  \<open>image_info\<close> from a pipe. The process and the pipe are outside the file system model:
  \<open>convert_env\<close> holds what the process calls answer, one observation of the child,
  its resident size and the clock per round of the wait loop. \<open>convert_state\<close> records the
  descriptors the function holds and what became of the child.
\<close>

record image_info =
  width :: "32 word"
  height :: "32 word"
  png :: "32 word"
  still :: "32 word"
  bytes :: "64 word"

datatype status = Exited nat | Signalled nat

datatype waited = Waited status | NotYet | WaitFail errno

datatype child = Absent | Running | Reaped status | Lost

datatype handle = PipeRead | PipeWrite | Input | Result | Meta

record observation =
  o_waited :: waited
  o_resident :: "nat option"
  o_clock :: int

record convert_env =
  e_pipe :: bool
  e_pipe_flags :: bool
  e_input :: bool
  e_result :: bool
  e_meta :: bool
  e_actions_init :: bool
  e_attr_init :: bool
  e_actions :: bool
  e_spawn :: bool
  e_started :: int
  e_rounds :: "observation list"
  e_killed :: "status option"
  e_read :: "int \<times> image_info"

record convert_state =
  c_open :: "handle list"
  c_child :: child
  c_kills :: nat

definition close_all :: "handle list \<Rightarrow> convert_state \<Rightarrow> convert_state" where
  "close_all hs c = c\<lparr>c_open := filter (\<lambda>h. h \<notin> set hs) (c_open c)\<rparr>"

text \<open>How the wait loop ends; \<open>None\<close> if it goes on after the last observation.\<close>

datatype wait_end = WaitDone status | WaitLost | WaitTimeout | WaitMemory

definition max_resident :: nat where "max_resident = 512 * 1024 * 1024"

fun wait_child :: "observation list \<Rightarrow> int \<Rightarrow> wait_end option" where
  "wait_child [] deadline = None"
| "wait_child (ob # obs) deadline =
     (let rest = (if (case o_resident ob of None \<Rightarrow> False | Some r \<Rightarrow> r > max_resident) then Some WaitMemory
                  else if o_clock ob \<ge> deadline then Some WaitTimeout
                  else wait_child obs deadline)
      in case o_waited ob of
           Waited st \<Rightarrow> Some (WaitDone st)
         | WaitFail e \<Rightarrow> if e \<noteq> EINTR then Some WaitLost else rest
         | NotYet \<Rightarrow> rest)"

definition variant_edge :: "string \<Rightarrow> 32 word" where
  "variant_edge variant = (if variant = ''avatar'' then 128 else if variant = ''inline_image'' then 1024
     else if variant = ''viewer'' then 2560 else 0)"

definition info_size :: int where "info_size = 24"

definition info_bad :: "32 word \<Rightarrow> int \<Rightarrow> image_info \<Rightarrow> bool" where
  "info_bad edge n info \<longleftrightarrow> n \<noteq> info_size \<or> width info = 0 \<or> height info = 0 \<or>
     width info > edge \<or> height info > edge \<or>
     (ucast (width info) :: 64 word) * ucast (height info) * 4 > 32 * 1024 * 1024 \<or>
     bytes info = 0 \<or> bytes info > 8 * 1024 * 1024 \<or> png info > 1 \<or> still info > 1"

text \<open>The part after the child was reaped with a status; \<open>v\<close> is the world it left.\<close>

definition convert_result :: "fd \<Rightarrow> fd \<Rightarrow> string \<Rightarrow> media_fingerprint \<Rightarrow> convert_env \<Rightarrow> status \<Rightarrow> world \<Rightarrow>
    int \<times> world" where
  "convert_result source output variant before env status v =
     (if status \<noteq> Exited 0 then (if status = Exited 4 then -4 else -5, v)
      else case e_read env of (n, info) \<Rightarrow>
        if info_bad (variant_edge variant) n info then (-5, v)
        else case zr_media_fingerprint source before v of (s, after, v) \<Rightarrow>
          if s \<noteq> 0 \<or> \<not> zr_media_same before after then (-7, v)
          else case sys_fstat output v of
            (Inl e, v) \<Rightarrow> (-5, v)
          | (Inr encoded, v) \<Rightarrow> if st_size encoded \<noteq> uint (bytes info) then (-5, v) else (0, v))"

text \<open>After the kill the function waits for the child; \<open>None\<close> is a failure of that wait.\<close>

definition after_kill :: "status option \<Rightarrow> child" where
  "after_kill st = (case st of None \<Rightarrow> Lost | Some st \<Rightarrow> Reaped st)"

text \<open>
  The parameter \<open>helper\<close> is what the helper process does to the world while it runs.
  \<open>no_fingerprint\<close> stands for the uninitialised out structure.
\<close>

definition no_fingerprint :: media_fingerprint where
  "no_fingerprint = \<lparr>fp_inode = 0, fp_bytes = 0, fp_modified = (0, 0), fp_changed = (0, 0)\<rparr>"

definition zr_media_convert :: "(world \<Rightarrow> world) \<Rightarrow> fd \<Rightarrow> fd \<Rightarrow> string \<Rightarrow> int \<Rightarrow> convert_env \<Rightarrow> world \<Rightarrow>
    (int \<times> convert_state \<times> world) option" where
  "zr_media_convert helper source output variant timeout_ms env w =
     (case zr_media_fingerprint source no_fingerprint w of (source_status, before, w) \<Rightarrow>
      let c = \<lparr>c_open = [], c_child = Absent, c_kills = 0\<rparr> in
      if source_status \<noteq> 0 then Some (source_status, c, w)
      else if \<not> e_pipe env then Some (-1, c, w)
      else let c = c\<lparr>c_open := [PipeRead, PipeWrite]\<rparr> in
      if \<not> e_pipe_flags env then Some (-1, close_all [PipeRead, PipeWrite] c, w)
      else let c = c\<lparr>c_open := (if e_input env then [Input] else []) @ (if e_result env then [Result] else [])
             @ (if e_meta env then [Meta] else []) @ c_open c\<rparr>;
               c = close_all [PipeWrite] c in
      if \<not> e_input env \<or> \<not> e_result env \<or> \<not> e_meta env
      then Some (-1, close_all [Input, Result, Meta, PipeRead] c, w)
      else if \<not> e_actions_init env then Some (-1, close_all [Input, Result, Meta, PipeRead] c, w)
      else if \<not> e_attr_init env then Some (-1, close_all [Input, Result, Meta, PipeRead] c, w)
      else let c = (if e_actions env \<and> e_spawn env then c\<lparr>c_child := Running\<rparr> else c);
               c = close_all [Input, Result, Meta] c in
      if \<not> (e_actions env \<and> e_spawn env) then Some (-8, close_all [PipeRead] c, w)
      else case wait_child (e_rounds env) (e_started env + timeout_ms) of
        None \<Rightarrow> None
      | Some WaitLost \<Rightarrow> Some (-5, close_all [PipeRead] (c\<lparr>c_child := Lost\<rparr>), helper w)
      | Some WaitTimeout \<Rightarrow>
          Some (-6, close_all [PipeRead] (c\<lparr>c_kills := c_kills c + 1, c_child := after_kill (e_killed env)\<rparr>), helper w)
      | Some WaitMemory \<Rightarrow>
          Some (-4, close_all [PipeRead] (c\<lparr>c_kills := c_kills c + 1, c_child := after_kill (e_killed env)\<rparr>), helper w)
      | Some (WaitDone status) \<Rightarrow>
          (case convert_result source output variant before env status (helper w) of (r, v) \<Rightarrow>
             Some (r, close_all [PipeRead] (c\<lparr>c_child := Reaped status\<rparr>), v)))"

section \<open>The contracts\<close>

lemma media_component_plain [name_rules]: "media_component n \<Longrightarrow> plain_name n"
  by (simp add: media_component_def plain_name_def)

interpretation media_names: name_guard media_component
  by unfold_locales (rule media_component_plain)

lemma error_code_neg: "error_code e < 0"
  by (simp add: error_code_def)

lemma cached_flags: "ro_flags [O_RDONLY, O_NOFOLLOW, O_CLOEXEC, O_NONBLOCK]"
  by (simp add: ro_flags_def)

lemma zr_media_cached_checked:
  "zr_media_cached directory name expected w =
     (if \<not> media_component name then (-3, w)
      else case open_checked [O_RDONLY, O_NOFOLLOW, O_CLOEXEC, O_NONBLOCK] (cached_st_ok expected)
          directory name w of
        (Inl (Some e), w) \<Rightarrow> (error_code e, w) | (Inl None, w) \<Rightarrow> (-3, w) | (Inr fd, w) \<Rightarrow> (fd, w))"
  by (auto simp: zr_media_cached_def open_checked_def split: prod.splits sum.splits if_splits)

lemma zr_media_cached_ok:
  assumes "zr_media_cached directory name expected w = (fd, v)" and "0 \<le> fd"
  shows "media_component name \<and> (\<exists>d i nd. fd_ino w directory = Some d \<and> entry w d name = Some i \<and>
    w_inodes w i = Some nd \<and> cached_st_ok expected (w_uid w) (stat_of i nd) \<and> opened w v fd i False)"
proof -
  from assms have n: "media_component name" and
    o: "open_checked [O_RDONLY, O_NOFOLLOW, O_CLOEXEC, O_NONBLOCK] (cached_st_ok expected)
      directory name w = (Inr fd, v)"
    by (auto simp: zr_media_cached_checked error_code_def
      split: prod.splits sum.splits if_splits option.splits)
  from open_checked_ok [OF o cached_flags media_component_plain [OF n]] n show ?thesis by blast
qed

lemma zr_media_cached_err:
  assumes "wf_fds w" and "zr_media_cached directory name expected w = (fd, v)" and "fd < 0"
  shows "returned w v"
proof (cases "media_component name")
  case True
  note pl = media_component_plain [OF True]
  obtain r u where o: "open_checked [O_RDONLY, O_NOFOLLOW, O_CLOEXEC, O_NONBLOCK] (cached_st_ok expected)
      directory name w = (r, u)" by fastforce
  show ?thesis
  proof (cases r)
    case (Inl e)
    with o open_checked_err [OF _ cached_flags pl assms(1)] assms(2) True show ?thesis
      by (auto simp: zr_media_cached_checked split: option.splits)
  next
    case (Inr g)
    with o open_checked_ok [OF _ cached_flags pl] obtain i where "opened w u g i False" by blast
    from opened_nonneg [OF this assms(1)] Inr o assms(2,3) True show ?thesis
      by (simp add: zr_media_cached_checked)
  qed
qed (use assms in \<open>simp add: zr_media_cached_checked quiet_returned\<close>)

text \<open>The directory behind a descriptor, for the opening contract.\<close>

definition fd_dir :: "fd \<Rightarrow> world \<Rightarrow> ino option" where
  "fd_dir fd w = (case fd_ino w fd of None \<Rightarrow> None | Some d \<Rightarrow> if dir_of w d = None then None else Some d)"

interpretation media_opened: owned_open media_component
    "\<lambda>(directory, expected) name. zr_media_cached directory name expected"
    "\<lambda>(directory, expected). fd_dir directory" "\<lambda>(directory, expected). cached_st_ok expected"
proof unfold_locales
  fix w k n fd v
  assume o: "(\<lambda>(directory, expected) name. zr_media_cached directory name expected) k n w = (fd, v)"
    and fd: "0 \<le> fd"
  obtain directory expected where k: "k = (directory, expected)" by (cases k)
  with zr_media_cached_ok [of directory n expected w fd v] o fd
  show "\<exists>d i nd. media_component n \<and> (case k of (directory, expected) \<Rightarrow> fd_dir directory) w = Some d \<and>
    entry w d n = Some i \<and> w_inodes w i = Some nd \<and>
    (case k of (directory, expected) \<Rightarrow> cached_st_ok expected) (w_uid w) (stat_of i nd) \<and> opened_up w v fd i"
    by (auto simp: opened_opened_up entry_dir_of fd_dir_def)
next
  fix w k n fd v
  assume "wf_fds w" and "(\<lambda>(directory, expected) name. zr_media_cached directory name expected) k n w = (fd, v)"
    and "fd < 0"
  then show "returned w v" by (cases k) (auto intro: zr_media_cached_err)
qed (auto simp: cached_st_ok_def)

section \<open>Path walks\<close>

lemma source_flags:
  "ro_flags ([O_RDONLY, O_NOFOLLOW, O_CLOEXEC, O_NONBLOCK] @ (if b then [O_DIRECTORY] else []))"
  "ro_flags [O_RDONLY, O_DIRECTORY, O_NOFOLLOW, O_CLOEXEC]"
  by (auto simp: ro_flags_def)

lemma same_disk_quiet: "same_disk u w \<Longrightarrow> quiet w v \<Longrightarrow> same_disk u v"
  by (auto simp: quiet_def same_disk_def)

lemma same_disk_opened: "same_disk u w \<Longrightarrow> opened w v fd i wr \<Longrightarrow> same_disk u v"
  by (auto simp: opened_def same_disk_def)

lemma source_parts_effect:
  assumes "source_parts parts dir w = (r, v)" and "wf_fds w0" and "holds w0 w dir d" and "same_disk w0 w"
  shows "same_disk w0 v \<and> (if r < 0 then freed w0 v
    else list_all media_component parts \<and> (\<exists>i. chain w0 d parts = Some i \<and> holds w0 v r i))"
  using assms(1,3,4)
proof (induction parts arbitrary: dir w d)
  case Nil
  then show ?case using holds_nonneg [OF Nil(2) assms(2)] by auto
next
  case (Cons part parts)
  show ?case
  proof (cases "media_component part")
    case False
    with Cons holds_closed [OF Cons.prems(2) assms(2)] show ?thesis by auto
  next
    case True
    note pl = media_component_plain [OF True]
    obtain x u where x: "sys_openat dir part ([O_RDONLY, O_NOFOLLOW, O_CLOEXEC, O_NONBLOCK] @
        (if parts \<noteq> [] then [O_DIRECTORY] else [])) 0 w = (x, u)" by fastforce
    show ?thesis
    proof (cases x)
      case (Inl e)
      with x have q: "quiet w u" using openat_ro_errD [OF _ source_flags(1) pl] by blast
      from Cons.prems(1) True x Inl have "r = error_code e" "v = sys_close dir u" by auto
      with holds_closed [OF holds_quiet [OF Cons.prems(2) q] assms(2)] same_disk_quiet [OF Cons.prems(3) q]
      show ?thesis by (auto simp: error_code_neg)
    next
      case (Inr fd)
      with openat_ro_okD [OF _ source_flags(1) pl] x holds_fd_ino [OF Cons.prems(2)] obtain i where
        i: "entry w d part = Some i" "opened w u fd i False" by fastforce
      from Cons.prems(1) True x Inr have "source_parts parts fd (sys_close dir u) = (r, v)" by auto
      from Cons.IH [OF this holds_step [OF assms(2) Cons.prems(2) i(2)]]
        same_disk_opened [OF Cons.prems(3) i(2)] same_disk_lookups(3) [OF Cons.prems(3)] i(1) True
      show ?thesis by (auto split: if_splits)
    qed
  qed
qed

lemma zr_media_fingerprint_quiet: "zr_media_fingerprint fd out w = (s, fp, v) \<Longrightarrow> quiet w v"
  by (auto simp: zr_media_fingerprint_def dest: fstat_okD fstat_errD split: prod.splits sum.splits if_splits)

text \<open>The fingerprint of an inode, and what a fingerprint that was taken says.\<close>

definition fingerprint_of :: "ino \<Rightarrow> inode \<Rightarrow> media_fingerprint" where
  "fingerprint_of i nd = \<lparr>fp_inode = i, fp_bytes = size_of (i_node nd), fp_modified = i_mtime nd,
     fp_changed = i_ctime nd\<rparr>"

lemma zr_media_fingerprint_ok:
  assumes "zr_media_fingerprint fd out w = (s, fp, v)" and "0 \<le> s"
  shows "s = 0 \<and> (\<exists>i nd bs. fd_ino w fd = Some i \<and> w_inodes w i = Some nd \<and> i_node nd = Regular bs \<and>
    i_uid nd = w_uid w \<and> i_nlink nd = 1 \<and> int (length bs) \<le> max_original \<and> fp = fingerprint_of i nd)"
proof -
  from assms obtain st where f: "sys_fstat fd w = (Inr st, v)" and st: "S_ISREG st" "st_uid st = w_uid v"
    "st_nlink st = 1" "st_size st \<le> max_original" and s: "s = 0"
    and fp: "fp = \<lparr>fp_inode = st_ino st, fp_bytes = st_size st, fp_modified = st_mtim st, fp_changed = st_ctim st\<rparr>"
    by (auto simp: zr_media_fingerprint_def split: prod.splits sum.splits if_splits)
  from fstat_okD [OF f] obtain i nd where i: "quiet w v" "fd_ino w fd = Some i" "w_inodes w i = Some nd"
    "st = stat_of i nd" by blast
  with st(1) obtain bs where "i_node nd = Regular bs"
    by (cases "i_node nd") (auto simp: S_ISREG_def stat_of_def)
  with st i s fp quiet_lookups(5) [OF i(1)] show ?thesis
    by (auto simp: stat_of_def fingerprint_of_def)
qed

lemma parent_of_root:
  "parent_of w dfd ''/'' = (if dir_of w (w_root w) = None then Inl ENOTDIR else Inr (w_root w, ''''))"
  by (auto simp: parent_of_def components_def has_prefix_def split: option.splits)

lemma open_root_okD:
  assumes "sys_open ''/'' [O_RDONLY, O_DIRECTORY, O_CLOEXEC] 0 w = (Inr fd, v)"
  shows "opened w v fd (w_root w) False"
  using assms unfolding sys_open_def sys_openat_def
proof (cases rule: syscall_cases)
  case (run lim)
  let ?w = "w\<lparr>w_script := tl (w_script w)\<rparr>"
  from run have "open_inode (w_root w) [O_RDONLY, O_DIRECTORY, O_CLOEXEC] ?w = (Inr fd, v)"
    by (auto simp: parent_of_root split: if_splits)
  from open_inode_plain [OF this] show ?thesis by (auto intro: quiet_opened [OF quiet_script])
qed auto

lemma open_root_errD:
  "sys_open ''/'' [O_RDONLY, O_DIRECTORY, O_CLOEXEC] 0 w = (Inl e, v) \<Longrightarrow> quiet w v"
  unfolding sys_open_def by (erule openat_dir_errD) auto

lemma fresh_inode_same: "same_disk w v \<Longrightarrow> fresh_inode v = fresh_inode w"
  by (simp add: fresh_inode_def same_disk_def)

lemma holds_same_files:
  "holds w u fd i \<Longrightarrow> w_files v = w_files u \<Longrightarrow> w_nextfd v = w_nextfd u \<Longrightarrow> w_uid v = w_uid u \<Longrightarrow>
   holds w v fd i"
  by (simp add: holds_def)

text \<open>The last component is created; the descriptor of its parent is closed in any case.\<close>

lemma directory_create_effect:
  assumes "sys_mkdirat fd part M0700 w = (made, u)" and "holds w0 w fd d" and "same_disk w0 w"
    and "wf_fds w0" and "fresh_inode w0" and "media_component part"
    and "sys_openat fd part [O_RDONLY, O_DIRECTORY, O_NOFOLLOW, O_CLOEXEC] 0 u = (x, t)"
  shows "kept_but part w0 t \<and> kept_but part w0 u \<and> freed w0 (sys_close fd u) \<and>
    (case x of Inl e \<Rightarrow> freed w0 (sys_close fd t)
     | Inr dir \<Rightarrow> \<exists>i. entry t d part = Some i \<and> holds w0 (sys_close fd t) dir i)"
proof -
  note pl = media_component_plain [OF assms(6)]
  from mkdirat_kept [OF assms(1) _ pl] assms(3,5) have
    k: "kept_but part w u" "w_files u = w_files w" "w_nextfd u = w_nextfd w" "w_uid u = w_uid w"
    by (auto simp: fresh_inode_same)
  have ku: "kept_but part w0 u" using kept_but_trans [OF kept_but_same [OF assms(3)] k(1)] .
  have hu: "holds w0 u fd d" using holds_same_files [OF assms(2) k(2-4)] .
  show ?thesis
  proof (cases x)
    case (Inl e)
    with assms(7) have q: "quiet u t" using openat_ro_errD [OF _ source_flags(2) pl] by blast
    with Inl ku hu kept_but_trans [OF ku kept_but_frames(1) [OF q]] holds_closed [OF hu assms(4)]
      holds_closed [OF holds_quiet [OF hu q] assms(4)] show ?thesis by auto
  next
    case (Inr dir)
    with openat_ro_okD [OF _ source_flags(2) pl] assms(7) holds_fd_ino [OF hu] obtain i where
      i: "entry u d part = Some i" "opened u t dir i False" by fastforce
    with Inr ku hu kept_but_trans [OF ku kept_but_frames(2) [OF i(2)]] holds_closed [OF hu assms(4)]
      holds_step [OF assms(4) hu i(2)] opened_lookups(3) [OF i(2)] show ?thesis by auto
  qed
qed

lemma directory_parts_effect:
  assumes "directory_parts parts cp fd w = (r, v)" and "wf_fds w0" and "fresh_inode w0"
    and "holds w0 w fd d" and "same_disk w0 w" and "parts \<noteq> [] \<Longrightarrow> n = last parts"
  shows "kept_but n w0 v \<and> (cp \<or> same_disk w0 v) \<and> (if r < 0 then freed w0 v
    else list_all media_component parts \<and> (\<exists>i. chain v d parts = Some i \<and> holds w0 v r i))"
  using assms(1,4-6)
proof (induction parts arbitrary: fd w d)
  case Nil
  then show ?case using holds_nonneg [OF Nil(2) assms(2)] by (auto intro: kept_but_same)
next
  case (Cons part parts)
  note h = Cons.prems(2) and sd = Cons.prems(3)
  show ?case
  proof (cases "media_component part")
    case False
    with Cons.prems(1) have "r = -3" "v = sys_close fd w" by auto
    with holds_closed [OF h assms(2)] sd show ?thesis by (auto intro: kept_but_same)
  next
    case True
    note pl = media_component_plain [OF True]
    obtain x u where x: "sys_openat fd part [O_RDONLY, O_DIRECTORY, O_NOFOLLOW, O_CLOEXEC] 0 w = (x, u)"
      by fastforce
    show ?thesis
    proof (cases x)
      case (Inr dir)
      with openat_ro_okD [OF _ source_flags(2) pl] x holds_fd_ino [OF h] obtain i where
        i: "entry w d part = Some i" "opened w u dir i False" by fastforce
      have sdu: "same_disk w0 (sys_close fd u)" using same_disk_opened [OF sd i(2)] by simp
      from Cons.prems(1) True x Inr have rec: "directory_parts parts cp dir (sys_close fd u) = (r, v)" by simp
      have res: "kept_but n w0 v \<and> (cp \<or> same_disk w0 v) \<and> (if r < 0 then freed w0 v
          else list_all media_component parts \<and> (\<exists>j. chain v i parts = Some j \<and> holds w0 v r j))"
        using Cons.IH [OF rec holds_step [OF assms(2) h i(2)] sdu] Cons.prems(4) by auto
      have "entry w0 d part = Some i" using i(1) same_disk_lookups(3) [OF sd] by simp
      then have "entry v d part = Some i" using res kept_but_entry by blast
      with res True show ?thesis by (auto split: if_splits)
    next
      case (Inl e)
      with x have q: "quiet w u" using openat_ro_errD [OF _ source_flags(2) pl] by blast
      note hu = holds_quiet [OF h q] and sdu = same_disk_quiet [OF sd q]
      show ?thesis
      proof (cases "e = ENOENT \<and> parts = [] \<and> cp")
        case False
        with Cons.prems(1) True x Inl have "r = error_code e" "v = sys_close fd u" by auto
        with holds_closed [OF hu assms(2)] sdu show ?thesis
          by (auto simp: error_code_neg intro: kept_but_same)
      next
        case create: True
        then have n: "n = part" using Cons.prems(4) by simp
        obtain made u1 where m: "sys_mkdirat fd part M0700 u = (made, u1)" by fastforce
        obtain y t where y: "sys_openat fd part [O_RDONLY, O_DIRECTORY, O_NOFOLLOW, O_CLOEXEC] 0 u1 = (y, t)"
          by fastforce
        note eff = directory_create_effect [OF m hu sdu assms(2,3) True y]
        show ?thesis
        proof (cases "\<exists>e. made = Inl e \<and> e \<noteq> EEXIST")
          case bad: True
          with Cons.prems(1) True x Inl create m have "r = -1" "v = sys_close fd u1" by auto
          with eff create n show ?thesis by auto
        next
          case False
          then have ok: "\<not> (case made of Inl e \<Rightarrow> e \<noteq> EEXIST | Inr _ \<Rightarrow> False)"
            by (auto split: sum.splits)
          show ?thesis
          proof (cases y)
            case (Inl e')
            with ok Cons.prems(1) True x \<open>x = Inl e\<close> create m y have "r = error_code e'" "v = sys_close fd t"
              by auto
            with eff create n Inl show ?thesis by (auto simp: error_code_neg)
          next
            case (Inr dir)
            with ok Cons.prems(1) True x \<open>x = Inl e\<close> create m y have v: "r = dir" "v = sys_close fd t"
              by auto
            from eff Inr obtain i where "entry t d part = Some i" "holds w0 (sys_close fd t) dir i" by auto
            with v eff create n True holds_nonneg [OF _ assms(2)] show ?thesis by fastforce
          qed
        qed
      qed
    qed
  qed
qed

section \<open>Sweeping\<close>

lemma sweep_entries_effect:
  assumes "fd_ino w directory = Some d" and "\<forall>n \<in> set names. n = ''.'' \<or> n = ''..'' \<or> plain_name n"
  shows "\<exists>R \<subseteq> {n \<in> set names. has_prefix ''.tmp-'' n}.
    edited w (sweep_entries directory names w) ((entry w)(d := entry w d |` (- R)))"
  using assms
proof (induction names arbitrary: w)
  case Nil
  obtain x u where x: "sys_readdir [] w = (x, u)" by fastforce
  from edited_quiet [OF readdir_quiet [OF x]] x show ?case by (intro exI [of _ "{}"]) auto
next
  case (Cons n names)
  obtain x u where x: "sys_readdir (n # names) w = (x, u)" by fastforce
  have q: "quiet w u" by (rule readdir_quiet [OF x])
  have names: "\<forall>m \<in> set names. m = ''.'' \<or> m = ''..'' \<or> plain_name m" using Cons.prems(2) by simp
  have rec: "\<exists>R \<subseteq> {m \<in> set (n # names). has_prefix ''.tmp-'' m}.
      edited w (sweep_entries directory names t) ((entry w)(d := entry w d |` (- R)))"
    if t: "edited w t ((entry w)(d := entry w d |` (- S)))" "S \<subseteq> {n}" "S \<noteq> {} \<longrightarrow> has_prefix ''.tmp-'' n" for t S
  proof -
    have "fd_ino t directory = Some d" using edited_fd_ino [OF t(1)] Cons.prems(1) by simp
    from Cons.IH [OF this names] obtain R where R: "R \<subseteq> {m \<in> set names. has_prefix ''.tmp-'' m}"
      "edited t (sweep_entries directory names t) ((entry t)(d := entry t d |` (- R)))" by blast
    have "entry t = (entry w)(d := entry w d |` (- S))" using t(1) by (simp add: edited_def)
    then have "(entry t)(d := entry t d |` (- R)) = (entry w)(d := entry w d |` (- (S \<union> R)))"
      by (auto simp: restrict_map_def fun_eq_iff)
    with edited_trans [OF t(1) R(2)] R(1) t(2,3) show ?thesis
      by (intro exI [of _ "S \<union> R"]) auto
  qed
  have none: "edited w u ((entry w)(d := entry w d |` (- {})))"
    using edited_quiet [OF q] by simp
  show ?case
  proof (cases x)
    case (Inl e)
    with x none show ?thesis by (intro exI [of _ "{}"]) auto
  next
    case (Inr y)
    show ?thesis
    proof (cases "has_prefix ''.tmp-'' n")
      case False
      with x Inr have step: "sweep_entries directory (n # names) w = sweep_entries directory names u"
        by simp
      show ?thesis unfolding step by (rule rec [OF none]) auto
    next
      case True
      then have "n \<noteq> ''.''" "n \<noteq> ''..''" by (auto simp: has_prefix_def)
      then have pl: "plain_name n" using Cons.prems(2) by auto
      obtain z t where z: "sys_unlinkat directory n False u = (z, t)" by fastforce
      have step: "sweep_entries directory (n # names) w = sweep_entries directory names t"
        using x Inr True z by simp
      show ?thesis
      proof (cases z)
        case (Inl e)
        have "quiet w t" using quiet_trans [OF q unlink_errD [OF z [unfolded Inl] pl]] .
        then have "edited w t ((entry w)(d := entry w d |` (- {})))" using edited_quiet by simp
        then show ?thesis unfolding step by (rule rec) auto
      next
        case (Inr u0)
        then have z': "sys_unlinkat directory n False u = (Inr (), t)" using z by simp
        have "fd_ino u directory = Some d" using quiet_lookups(6) [OF q] Cons.prems(1) by simp
        with unlink_okD [OF z' pl] have "edited u t ((entry u)(d := (entry u d)(n := None)))" by auto
        moreover have "(entry w d)(n := None) = entry w d |` (- {n})"
          by (auto simp: restrict_map_def fun_eq_iff)
        ultimately have "edited w t ((entry w)(d := entry w d |` (- {n})))"
          using edited_trans [OF edited_quiet [OF q]] quiet_entry [OF q] by simp
        then show ?thesis unfolding step by (rule rec) (use True in auto)
      qed
    qed
  qed
qed

section \<open>The helper\<close>

text \<open>The wait loop ends as soon as the child was reaped or the deadline was seen to pass.\<close>

lemma wait_child_going:
  "wait_child obs deadline = None \<Longrightarrow>
   \<forall>ob \<in> set obs. (\<forall>st. o_waited ob \<noteq> Waited st) \<and> o_clock ob < deadline"
  by (induction obs deadline rule: wait_child.induct)
    (auto simp: Let_def split: waited.splits option.splits if_splits)

lemma wait_child_done:
  "wait_child obs deadline = Some (WaitDone st) \<Longrightarrow> \<exists>ob \<in> set obs. o_waited ob = Waited st"
  by (induction obs deadline rule: wait_child.induct)
    (auto simp: Let_def split: waited.splits option.splits if_splits)

lemma filter_handles [simp]:
  "filter (\<lambda>h. h \<notin> set hs) ((if b then [h'] else []) @ rest) =
    (if b \<and> h' \<notin> set hs then [h'] else []) @ filter (\<lambda>h. h \<notin> set hs) rest"
  by simp

lemma close_all_fields [simp]:
  "c_child (close_all hs c) = c_child c" "c_kills (close_all hs c) = c_kills c"
  "c_open (close_all hs c) = filter (\<lambda>h. h \<notin> set hs) (c_open c)"
  by (simp_all add: close_all_def)

section \<open>Changing the mode\<close>

text \<open>\<open>same_fs w v\<close>: the same descriptors, entries and contents; modes may differ.\<close>

definition same_fs :: "world \<Rightarrow> world \<Rightarrow> bool" where
  "same_fs w v \<longleftrightarrow> w_files v = w_files w \<and> entry v = entry w \<and> file_bytes v = file_bytes w"

lemma quiet_same_fs: "quiet w v \<Longrightarrow> same_fs w v"
  using quiet_lookups(2,7) [of w v] quiet_entry [of w v] by (simp add: same_fs_def file_bytes_def fun_eq_iff)

lemma same_fs_trans: "same_fs u v \<Longrightarrow> same_fs v w \<Longrightarrow> same_fs u w"
  by (simp add: same_fs_def)

lemma same_fs_fd_ino: "same_fs w v \<Longrightarrow> fd_ino v fd = fd_ino w fd"
  by (simp add: same_fs_def fd_ino_def)

lemma quiet_attrs: "quiet w v \<Longrightarrow> attrs v = attrs w"
  by (simp add: attrs_def quiet_def same_disk_def fun_eq_iff)

lemma fchmod_okD:
  assumes "sys_fchmod fd m w = (Inr (), v)"
  shows "same_fs w v \<and> w_uid v = w_uid w \<and> (\<exists>i nd. fd_ino w fd = Some i \<and> w_inodes w i = Some nd \<and>
    attrs v = (attrs w)(i \<mapsto> (i_uid nd, m, kind_of (i_node nd))))"
  using assms unfolding sys_fchmod_def
proof (cases rule: syscall_cases)
  case (run lim)
  let ?w = "w\<lparr>w_script := tl (w_script w)\<rparr>"
  from run obtain i nd where i: "fd_ino w fd = Some i" "w_inodes w i = Some nd"
    and v: "v = ?w\<lparr>w_inodes := (w_inodes w)(i \<mapsto> nd\<lparr>i_mode := m\<rparr>)\<rparr>"
    by (auto split: option.splits)
  have "dir_of v j = dir_of w j" for j using v i by (simp add: dir_of_def)
  then have "entry v = entry w" by (simp add: entry_def fun_eq_iff)
  moreover have "file_bytes v = file_bytes w" using v i by (auto simp: file_bytes_def node_of_def)
  moreover have "attrs v = (attrs w)(i \<mapsto> (i_uid nd, m, kind_of (i_node nd)))"
    using v i by (auto simp: attrs_def)
  ultimately show ?thesis using i v by (auto simp: same_fs_def)
qed auto

lemma fchmod_errD: "sys_fchmod fd m w = (Inl e, v) \<Longrightarrow> quiet w v"
  unfolding sys_fchmod_def by (cases rule: syscall_cases) (auto split: option.splits intro: pops_quiet)

section \<open>Properties\<close>

text \<open>
  C26: An original is opened only by walking from the media root down the components of the
  relative path, none of them a dot name, without following any symbolic link; it is a regular
  file of the user with one link and at most 100 MiB, and the fingerprint handed out is its.
  On every error all descriptors the walk opened are closed. The disk never changes.
\<close>

theorem zr_media_source_confined:
  assumes "wf_fds w" and "w_files w root = Some f" and "\<not> f_wr f"
    and "zr_media_source root relative fp w = (r, fp', v)"
  shows "same_disk w v \<and>
    (if r < 0 then w_files v = w_files w
     else list_all media_component (components relative) \<and>
       (\<exists>i nd bs. chain w (f_ino f) (components relative) = Some i \<and> w_inodes w i = Some nd \<and>
          i_node nd = Regular bs \<and> i_uid nd = w_uid w \<and> i_nlink nd = 1 \<and>
          length bs \<le> 100 * 1024 * 1024 \<and> fp' = fingerprint_of i nd \<and>
          w_files v = (w_files w)(r \<mapsto> \<lparr>f_ino = i, f_pos = 0, f_wr = False\<rparr>)))"
proof (cases "root < 0 \<or> has_prefix ''/'' relative \<or> length relative \<ge> PATH_MAX")
  case True
  with assms(4) show ?thesis by (auto simp: zr_media_source_def split: if_splits)
next
  case False
  obtain x u where x: "sys_dup root w = (x, u)" by fastforce
  show ?thesis
  proof (cases x)
    case (Inl e)
    with x have "quiet w u" by (auto dest: dup_errD)
    with Inl x False assms(4) show ?thesis by (auto simp: zr_media_source_def quiet_def)
  next
    case (Inr dir)
    with x dup_okD [of root w dir u] assms(2,3) have o: "opened w u dir (f_ino f) False" by auto
    obtain r1 t where p: "source_parts (components relative) dir u = (r1, t)" by fastforce
    note eff = source_parts_effect [OF p assms(1) opened_holds [OF o] same_disk_opened [OF same_disk_refl o]]
    obtain s fp1 t1 where g: "zr_media_fingerprint r1 fp t = (s, fp1, t1)" by (metis prod_cases3)
    have q: "quiet t t1" by (rule zr_media_fingerprint_quiet [OF g])
    show ?thesis
    proof (cases "r1 < 0")
      case True
      with eff x Inr p False assms(4) show ?thesis by (auto simp: zr_media_source_def freed_def)
    next
      case nonneg: False
      with eff obtain i where i: "list_all media_component (components relative)"
        "chain w (f_ino f) (components relative) = Some i" "holds w t r1 i" "same_disk w t" by auto
      note h = holds_quiet [OF i(3) q] and sd = same_disk_quiet [OF i(4) q]
      show ?thesis
      proof (cases "s < 0")
        case True
        with nonneg x Inr p g False assms(4) have "r = s" "v = sys_close r1 t1"
          by (auto simp: zr_media_source_def)
        with True holds_closed [OF h assms(1)] sd show ?thesis by (simp add: freed_def)
      next
        case ok: False
        with nonneg x Inr p g False assms(4) have v: "r = r1" "v = t1" "fp' = fp1"
          by (auto simp: zr_media_source_def)
        from ok zr_media_fingerprint_ok [OF g] holds_fd_ino [OF i(3)] obtain nd bs where
          nd: "w_inodes t i = Some nd" "i_node nd = Regular bs" "i_uid nd = w_uid t" "i_nlink nd = 1"
            "int (length bs) \<le> max_original" "fp1 = fingerprint_of i nd" by auto
        have len: "length bs \<le> 100 * 1024 * 1024" using nd(5) by (simp add: max_original_def)
        have w: "w_inodes w i = Some nd" "w_uid t = w_uid w"
          using nd(1) same_disk_lookups(6,5) [OF i(4)] by simp_all
        have "w_files v = (w_files w)(r \<mapsto> \<lparr>f_ino = i, f_pos = 0, f_wr = False\<rparr>)"
          using h v by (simp add: holds_def)
        with i(1,2) nd len w v sd nonneg show ?thesis by auto
      qed
    qed
  qed
qed

text \<open>
  The directory walk. A descriptor is returned only for the directory the absolute path
  leads to, component by component and without following a link; when a private directory was
  asked for, it belongs to the user and is closed to others. Nothing else stays open, at most
  the last component is created, and without \<open>create_private\<close> the disk does not change.
\<close>

theorem zr_media_directory_walk:
  assumes "wf_fds w" and "fresh_inode w" and "zr_media_directory path create_private w = (r, v)"
  shows "kept_but (last (components (tl path))) w v \<and> (create_private \<or> same_disk w v) \<and>
    (if r < 0 then w_files v = w_files w
     else list_all media_component (components (tl path)) \<and>
       (\<exists>i. chain v (w_root w) (components (tl path)) = Some i \<and>
          w_files v = (w_files w)(r \<mapsto> \<lparr>f_ino = i, f_pos = 0, f_wr = False\<rparr>) \<and>
          (create_private \<longrightarrow> (\<exists>nd. w_inodes v i = Some nd \<and> i_uid nd = w_uid w \<and> i_mode nd AND M077 = 0))))"
proof (cases "\<not> has_prefix ''/'' path \<or> length path \<ge> PATH_MAX")
  case True
  with assms(3) show ?thesis by (auto simp: zr_media_directory_def intro: kept_but_same)
next
  case False
  let ?ps = "components (tl path)"
  obtain x u where x: "sys_open ''/'' [O_RDONLY, O_DIRECTORY, O_CLOEXEC] 0 w = (x, u)" by fastforce
  show ?thesis
  proof (cases x)
    case (Inl e)
    with x have "quiet w u" by (auto dest: open_root_errD)
    with Inl x False assms(3) show ?thesis
      by (auto simp: zr_media_directory_def quiet_def intro: kept_but_same)
  next
    case (Inr fd)
    with x have o: "opened w u fd (w_root w) False" by (auto dest: open_root_okD)
    obtain r1 t where p: "directory_parts ?ps create_private fd u = (r1, t)" by fastforce
    note eff = directory_parts_effect [OF p assms(1,2) opened_holds [OF o] same_disk_opened [OF same_disk_refl o] refl]
    show ?thesis
    proof (cases "r1 < 0 \<or> \<not> create_private")
      case True
      with Inr x False p assms(3) have "r = r1" "v = t" by (auto simp: zr_media_directory_def)
      with eff True show ?thesis by (auto simp: freed_def holds_def)
    next
      case ask: False
      with eff obtain i where i: "list_all media_component ?ps" "chain t (w_root w) ?ps = Some i"
        "holds w t r1 i" "kept_but (last ?ps) w t" by auto
      obtain y t1 where y: "sys_fstat r1 t = (y, t1)" by fastforce
      have q: "quiet t t1" using y fstat_okD fstat_errD by (cases y) blast+
      note h = holds_quiet [OF i(3) q] and k = kept_but_trans [OF i(4) kept_but_frames(1) [OF q]]
      show ?thesis
      proof (cases "\<exists>st. y = Inr st \<and> st_uid st = w_uid t1 \<and> st_mode st AND M077 = 0")
        case False
        with ask Inr x \<open>\<not> (\<not> has_prefix ''/'' path \<or> length path \<ge> PATH_MAX)\<close> p y assms(3)
        have "r = -3" "v = sys_close r1 t1" by (auto simp: zr_media_directory_def split: sum.splits if_splits)
        with holds_closed [OF h assms(1)] k ask show ?thesis by (simp add: freed_def)
      next
        case True
        then obtain st where st: "y = Inr st" "st_uid st = w_uid t1" "st_mode st AND M077 = 0" by blast
        with ask Inr x False p y assms(3) have v: "r = r1" "v = t1" by (auto simp: zr_media_directory_def)
        from fstat_okD [of r1 t st t1] y st(1) holds_fd_ino [OF i(3)] obtain nd where
          nd: "w_inodes t i = Some nd" "st = stat_of i nd" by auto
        have "chain t1 (w_root w) ?ps = Some i" using i(2) chain_cong [OF quiet_entry [OF q]] by simp
        moreover have "w_inodes t1 i = Some nd" "i_uid nd = w_uid w" "i_mode nd AND M077 = 0"
          using nd st h quiet_lookups(4) [OF q] by (simp_all add: stat_of_def holds_def)
        ultimately show ?thesis using v ask i(1) k h by (auto simp: holds_def)
      qed
    qed
  qed
qed

lemmas media_run = zr_media_source_def zr_media_directory_def directory_parts.simps source_parts.simps
  zr_media_fingerprint_def media_component_def PATH_MAX_def max_original_def sys_open_def posix_run
  zr_media_cached_def cached_st_ok_def max_encoded_def zr_media_install_def sys_fchmod_def

theorem zr_media_source_confined_witness:
  "fst (zr_media_source 3 ''up/f'' no_fingerprint (sample_world [])) = 7 \<and>
   chain (sample_world []) 0 (components ''up/f'') = Some 2"
proof -
  have 1: "fst (zr_media_source 3 ''up/f'' no_fingerprint (sample_world [])) = 7"
    by (simp add: media_run)
  have 2: "w_files (sample_world []) 3 = Some \<lparr>f_ino = 0, f_pos = 0, f_wr = False\<rparr>"
    by (simp add: sample_world_def)
  obtain r fp v where r: "zr_media_source 3 ''up/f'' no_fingerprint (sample_world []) = (r, fp, v)"
    by (metis prod_cases3)
  from zr_media_source_confined [OF sample_wf(1) 2 _ r] 1 r have
    "\<exists>i nd. chain (sample_world []) 0 (components ''up/f'') = Some i \<and> w_inodes (sample_world []) i = Some nd"
    by auto
  then have "chain (sample_world []) 0 (components ''up/f'') = Some 2"
    by (auto simp: components_def sample_world_def sample_inode_def entry_def dir_of_def split: if_splits)
  with 1 show ?thesis by simp
qed

theorem zr_media_directory_walk_witness:
  "fst (zr_media_directory ''/up/new'' True (sample_world [])) = 7 \<and>
   (\<exists>i. chain (snd (zr_media_directory ''/up/new'' True (sample_world []))) 0 (components ''up/new'') = Some i)"
proof -
  have "fst (zr_media_directory ''/up/new'' True (sample_world [])) = 7" by (simp add: media_run)
  moreover have "w_root (sample_world []) = 0" by (simp add: sample_world_def)
  ultimately show ?thesis
    using zr_media_directory_walk [OF sample_wf [of "[]"] surjective_pairing, where path = "''/up/new''" and create_private = True] by auto
qed

text \<open>
  Installing a derivative replaces atomically: under any failure the final name holds
  either what it held before or the temporary file, no other name changes and no contents
  change; success means that the final name is the temporary file's inode, and that the file
  written to is a regular file of the user of 1 byte to 8 MiB with mode 0600.
\<close>

theorem zr_media_install_atomic:
  assumes "zr_media_install directory fd temporary name w = (r, v)"
  shows "w_files v = w_files w \<and> file_bytes v = file_bytes w \<and> (r = 0 \<or> r = -1) \<and>
    (entry v = entry w \<or> (\<exists>d i. fd_ino w directory = Some d \<and> entry w d temporary = Some i \<and>
       entry v = (entry w)(d := (entry w d)(temporary := None, name \<mapsto> i)))) \<and>
    (r = 0 \<longrightarrow> (\<exists>d i j bs. fd_ino w directory = Some d \<and> entry w d temporary = Some i \<and>
       entry v d name = Some i \<and> fd_ino w fd = Some j \<and> file_bytes v j = Some bs \<and>
       1 \<le> length bs \<and> length bs \<le> 8 * 1024 * 1024 \<and> attrs v j = Some (w_uid w, M0600, S_REG)))"
proof -
  have refused: ?thesis if "r = -1" "same_fs w v"
    using that by (simp add: same_fs_def)
  show ?thesis
  proof (cases "media_component temporary \<and> media_component name")
    case False
    with assms show ?thesis by (intro refused) (auto simp: zr_media_install_def same_fs_def)
  next
    case names: True
    note pt = media_component_plain [OF conjunct1 [OF names]]
    note pn = media_component_plain [OF conjunct2 [OF names]]
    let ?ok = "\<lambda>st u. S_ISREG st \<and> st_uid st = u \<and> st_nlink st = 1 \<and> 1 \<le> st_size st \<and> st_size st \<le> max_encoded"
    obtain a w1 where 1: "sys_fstat fd w = (a, w1)" by fastforce
    obtain b w2 where 2: "sys_fchmod fd M0600 w1 = (b, w2)" by fastforce
    obtain c w3 where 3: "sys_fsync fd w2 = (c, w3)" by fastforce
    obtain e w4 where 4: "sys_renameat directory temporary directory name w3 = (e, w4)" by fastforce
    obtain f w5 where 5: "sys_fsync directory w4 = (f, w5)" by fastforce
    have q1: "quiet w w1" using 1 fstat_okD fstat_errD by (cases a) blast+
    have s2: "same_fs w w2"
    proof (cases b)
      case (Inl x)
      with 2 fchmod_errD quiet_trans [OF q1] quiet_same_fs show ?thesis by blast
    next
      case (Inr x)
      with 2 have "sys_fchmod fd M0600 w1 = (Inr (), w2)" by simp
      with fchmod_okD same_fs_trans [OF quiet_same_fs [OF q1]] show ?thesis by blast
    qed
    have s3: "same_fs w w3" using same_fs_trans [OF s2 quiet_same_fs [OF fsync_quiet [OF 3]]] .
    show ?thesis
    proof (cases "(\<exists>st. a = Inr st \<and> ?ok st (w_uid w1)) \<and> (\<exists>x. b = Inr x) \<and> (\<exists>x. c = Inr x) \<and> (\<exists>x. e = Inr x)")
      case False
      have "r = -1 \<and> (v = w1 \<or> v = w2 \<or> v = w3 \<or> v = w4 \<and> (\<exists>x. e = Inl x))"
        using assms names 1 2 3 4 False
        by (auto simp: zr_media_install_def split: sum.splits if_splits)
      moreover have "same_fs w w4" if "e = Inl x" for x
        using rename_errD [OF 4 [unfolded that] pt pn] same_fs_trans [OF s3 quiet_same_fs] by blast
      ultimately show ?thesis using quiet_same_fs [OF q1] s2 s3 by (intro refused) auto
    next
      case True
      then obtain st where st: "a = Inr st" "?ok st (w_uid w1)" by blast
      from True 2 4 have 2: "sys_fchmod fd M0600 w1 = (Inr (), w2)"
        and 4: "sys_renameat directory temporary directory name w3 = (Inr (), w4)" by auto
      have r: "(r = 0 \<or> r = -1) \<and> v = w5"
        using assms names 1 2 3 4 5 True st by (auto simp: zr_media_install_def split: sum.splits)
      from fstat_okD [of fd w st w1] 1 st obtain j nd where
        j: "fd_ino w fd = Some j" "w_inodes w j = Some nd" "st = stat_of j nd" by auto
      with st(2) obtain bs where bs: "i_node nd = Regular bs"
        by (cases "i_node nd") (auto simp: S_ISREG_def stat_of_def)
      from fchmod_okD [OF 2] j quiet_lookups(4,6) [OF q1] have
        at2: "attrs w2 j = Some (i_uid nd, M0600, S_REG)" using bs by auto
      obtain d i where d: "fd_ino w directory = Some d" "entry w d temporary = Some i"
        and ed: "edited w3 w4 (if entry w d name = Some i then entry w
          else (entry w)(d := (entry w d)(temporary := None, name \<mapsto> i)))"
      proof -
        have es: "entry w3 = entry w" using s3 by (simp add: same_fs_def)
        show ?thesis using rename_okD [OF 4 pt pn] that unfolding es same_fs_fd_ino [OF s3] by blast
      qed
      have q5: "quiet w4 w5" by (rule fsync_quiet [OF 5])
      have e5: "entry w5 = (if entry w d name = Some i then entry w
          else (entry w)(d := (entry w d)(temporary := None, name \<mapsto> i)))"
        and fb: "file_bytes w5 = file_bytes w" "w_files w5 = w_files w"
        using ed quiet_same_fs [OF q5] s3 by (auto simp: edited_def same_fs_def fun_eq_iff)
      have "attrs w5 j = attrs w2 j"
        using ed quiet_attrs [OF q5] quiet_attrs [OF fsync_quiet [OF 3]] by (simp add: edited_def)
      moreover have "i_uid nd = w_uid w" "int (length bs) \<ge> 1" "int (length bs) \<le> max_encoded"
        using st(2) j bs quiet_lookups(5) [OF q1] by (auto simp: stat_of_def)
      moreover have "file_bytes w j = Some bs" using j bs by (simp add: file_bytes_def node_of_def)
      ultimately have "\<exists>bs. file_bytes w5 j = Some bs \<and> 1 \<le> length bs \<and> length bs \<le> 8 * 1024 * 1024 \<and>
          attrs w5 j = Some (w_uid w, M0600, S_REG)" "entry w5 d name = Some i"
        using fb at2 e5 by (auto simp: max_encoded_def)
      with r e5 fb d j(1) show ?thesis by auto
    qed
  qed
qed

theorem zr_media_install_atomic_witness:
  "file_bytes (snd (zr_media_install 4 5 ''t'' ''f'' (sample_world [Ok, Fail EIO]))) = file_bytes (sample_world [Ok, Fail EIO])"
  using zr_media_install_atomic [OF surjective_pairing] by blast

text \<open>
  The sweep removes only entries whose name starts with \<open>.tmp-\<close> from the given
  directory, changes no file's contents and leaves no descriptor open.
\<close>

theorem zr_media_sweep_confined:
  assumes "wf_fds w" and "wf_dirs w" and "w_files w directory = Some f" and "\<not> f_wr f"
    and "zr_media_sweep directory w = (r, v)"
  shows "(\<forall>d n. entry v d n = entry w d n \<or>
      entry v d n = None \<and> d = f_ino f \<and> has_prefix ''.tmp-'' n) \<and>
    (\<forall>i. file_bytes v i = file_bytes w i) \<and> w_files v = w_files w"
proof -
  obtain x u where x: "sys_dup directory w = (x, u)" by fastforce
  show ?thesis
  proof (cases x)
    case (Inl e)
    with x assms(5) have "quiet w v" by (auto simp: zr_media_sweep_def dest: dup_errD)
    from quiet_same_fs [OF this] show ?thesis by (simp add: same_fs_def)
  next
    case (Inr copy)
    with x dup_okD [of directory w copy u] assms(3,4) have o: "opened w u copy (f_ino f) False" by auto
    obtain y t where y: "sys_fdopendir copy u = (y, t)" by fastforce
    have q: "quiet u t" by (rule fdopendir_quiet [OF y])
    show ?thesis
    proof (cases y)
      case (Inl e)
      with x Inr y assms(5) have "v = sys_close copy t" by (auto simp: zr_media_sweep_def)
      with opened_closed [OF o assms(1) q] disk_edit_frames(3) [of w v] show ?thesis
        by (auto simp: returned_def disk_edit_def)
    next
      case (Inr names)
      with x \<open>x = Inr copy\<close> y assms(5) have v: "v = sys_close copy (sweep_entries directory names t)"
        by (auto simp: zr_media_sweep_def)
      from fdopendir_okD [OF y [unfolded Inr]] opened_lookups(1,6) [OF o] obtain pp es
        where es: "dir_of w (f_ino f) = Some (pp, es)" "names = ''.'' # ''..'' # map fst es" by auto
      have "fd_ino t directory = Some (f_ino f)"
        using q o assms(1,3) by (auto simp: quiet_def opened_def fd_ino_def wf_fds_def)
      from sweep_entries_effect [OF this stream_names_plain [OF assms(2) es(1)]] obtain R where
        R: "R \<subseteq> {n. has_prefix ''.tmp-'' n}"
        "edited t (sweep_entries directory names t) ((entry t)(f_ino f := entry t (f_ino f) |` (- R)))"
        unfolding es(2) by blast
      have et: "entry t = entry w" "file_bytes t = file_bytes w"
        using disk_edit_trans [OF disk_edit_frames(2) [OF o] disk_edit_frames(1) [OF q]]
          disk_edit_entry [OF disk_edit_frames(2) [OF o]]
        by (auto simp: disk_edit_def quiet_entry [OF q])
      have "w_files v = w_files w"
        using v R(2) q o assms(1) by (auto simp: edited_def quiet_def opened_def wf_fds_def fun_upd_idem)
      moreover have "entry v = (entry w)(f_ino f := entry w (f_ino f) |` (- R))"
        using R(2) unfolding v et(1) edited_def by simp
      moreover have "file_bytes v i = file_bytes w i" for i
        using R(2) unfolding v edited_def et(2) [symmetric] by simp
      moreover have "((entry w)(f_ino f := entry w (f_ino f) |` (- R))) d n = entry w d n \<or>
          ((entry w)(f_ino f := entry w (f_ino f) |` (- R))) d n = None \<and> d = f_ino f \<and> has_prefix ''.tmp-'' n" for d n
        using R(1) by (auto simp: restrict_map_def)
      ultimately show ?thesis by simp
    qed
  qed
qed

theorem zr_media_sweep_confined_witness:
  "w_files (snd (zr_media_sweep 4 (sample_world []))) = w_files (sample_world [])"
proof -
  have "w_files (sample_world []) 4 = Some \<lparr>f_ino = 1, f_pos = 0, f_wr = False\<rparr>"
    by (simp add: sample_world_def)
  from zr_media_sweep_confined [OF sample_wf(1) sample_wf_dirs this _ surjective_pairing] show ?thesis
    by auto
qed

text \<open>
  A cached derivative is opened only as the entry \<open>name\<close> of the given directory, a
  regular file of the user with one link, closed to others, of exactly the expected size and
  between 1 byte and 8 MiB; a negative result leaves every descriptor as it was.
\<close>

theorem zr_media_cached_owned:
  assumes "wf_fds w" and "zr_media_cached directory name expected w = (fd, v)"
  shows "same_disk w v \<and>
    (if fd < 0 then w_files v = w_files w
     else \<exists>d i nd bs. fd_ino w directory = Some d \<and> entry w d name = Some i \<and> w_inodes w i = Some nd \<and>
       i_node nd = Regular bs \<and> int (length bs) = expected \<and> 1 \<le> length bs \<and>
       length bs \<le> 8 * 1024 * 1024 \<and> i_uid nd = w_uid w \<and> i_nlink nd = 1 \<and> i_mode nd AND M077 = 0 \<and>
       w_files v = (w_files w)(fd \<mapsto> \<lparr>f_ino = i, f_pos = 0, f_wr = False\<rparr>))"
proof (cases "fd < 0")
  case True
  with media_opened.balanced [of w "(directory, expected)" name fd v] assms show ?thesis by simp
next
  case False
  with zr_media_cached_ok [OF assms(2)] obtain d i nd where
    d: "fd_ino w directory = Some d" "entry w d name = Some i" "w_inodes w i = Some nd"
      "cached_st_ok expected (w_uid w) (stat_of i nd)" "opened w v fd i False"
    by auto
  then obtain bs where "i_node nd = Regular bs"
    by (cases "i_node nd") (auto simp: cached_st_ok_def S_ISREG_def stat_of_def)
  with d False media_opened.balanced [of w "(directory, expected)" name fd v] assms show ?thesis
    by (auto simp: opened_def cached_st_ok_def stat_of_def max_encoded_def Suc_le_eq)
qed

theorem zr_media_cached_owned_witness:
  "fst (zr_media_cached 4 ''f'' 2 (sample_world [])) = 5 \<and>
   same_disk (sample_world []) (snd (zr_media_cached 4 ''f'' 2 (sample_world [])))"
proof -
  have "fst (zr_media_cached 4 ''f'' 2 (sample_world [])) = 5" by (simp add: media_run)
  with zr_media_cached_owned [OF sample_wf(1) surjective_pairing] show ?thesis by blast
qed

text \<open>The image limits, on the natural numbers.\<close>

lemma info_good:
  assumes "\<not> info_bad (variant_edge variant) n info"
  shows "n = 24 \<and> 0 < unat (width info) \<and> 0 < unat (height info) \<and>
    unat (width info) \<le> unat (variant_edge variant) \<and> unat (height info) \<le> unat (variant_edge variant) \<and>
    unat (width info) * unat (height info) * 4 \<le> 32 * 1024 * 1024 \<and>
    0 < unat (bytes info) \<and> unat (bytes info) \<le> 8 * 1024 * 1024 \<and>
    unat (png info) \<le> 1 \<and> unat (still info) \<le> 1"
proof -
  let ?w = "unat (width info)" and ?h = "unat (height info)"
  from assms have g: "n = 24" "width info \<noteq> 0" "height info \<noteq> 0" "width info \<le> variant_edge variant"
    "height info \<le> variant_edge variant"
    "(ucast (width info) :: 64 word) * ucast (height info) * 4 \<le> 32 * 1024 * 1024"
    "bytes info \<noteq> 0" "bytes info \<le> 8 * 1024 * 1024" "png info \<le> 1" "still info \<le> 1"
    by (auto simp: info_bad_def info_size_def)
  have e: "unat (variant_edge variant) \<le> 2560" by (simp add: variant_edge_def)
  from g(4,5) have w: "?w \<le> unat (variant_edge variant)" "?h \<le> unat (variant_edge variant)"
    by (simp_all add: word_le_nat_alt)
  then have "?w * ?h \<le> 2560 * 2560" using e by (intro mult_le_mono) auto
  then have "?w * ?h * 4 \<le> 2560 * 2560 * 4" by (rule mult_le_mono1)
  also have "(2560 * 2560 * 4 :: nat) < 2 ^ 64" by simp
  finally have small: "?w * ?h * 4 < 2 ^ 64" .
  have "unat ((ucast (width info) :: 64 word) * ucast (height info) * 4) = ?w * ?h * 4"
  proof -
    have s: "?w * ?h < 18446744073709551616" "?w * ?h * 4 < 18446744073709551616"
      using small by (simp_all add: mult.commute [of ?w ?h])
    have "unat ((ucast (width info) :: 64 word) * ucast (height info) * 4) =
        ?w * ?h mod 18446744073709551616 * 4 mod 18446744073709551616"
      using e w by (simp add: unat_word_ariths unsigned_ucast_eq take_bit_nat_eq_self)
    then show ?thesis unfolding mod_less [OF s(1)] mod_less [OF s(2)] .
  qed
  with g(6) have "?w * ?h * 4 \<le> 32 * 1024 * 1024" by (simp add: word_le_nat_alt)
  with g w show ?thesis by (auto simp: word_le_nat_alt unat_gt_0)
qed

text \<open>
  C35: A conversion reports success only if the helper was reaped with exit status 0, sent a
  complete record within the limits of the variant (edges, 32 MiB of RGBA, 8 MiB encoded, flags
  0 or 1), the original's fingerprint is unchanged since before the helper ran, and the output
  file has exactly the size the record states.
\<close>

theorem zr_media_convert_success:
  assumes "zr_media_convert helper source output variant timeout_ms env w = Some (0, c, v)"
  shows "\<exists>info i nd nd' k. e_read env = (24, info) \<and>
    0 < unat (width info) \<and> unat (width info) \<le> unat (variant_edge variant) \<and>
    0 < unat (height info) \<and> unat (height info) \<le> unat (variant_edge variant) \<and>
    unat (width info) * unat (height info) * 4 \<le> 32 * 1024 * 1024 \<and>
    0 < unat (bytes info) \<and> unat (bytes info) \<le> 8 * 1024 * 1024 \<and>
    unat (png info) \<le> 1 \<and> unat (still info) \<le> 1 \<and>
    c_child c = Reaped (Exited 0) \<and> c_kills c = 0 \<and>
    fd_ino w source = Some i \<and> w_inodes w i = Some nd \<and> fd_ino v source = Some i \<and>
    w_inodes v i = Some nd' \<and> fingerprint_of i nd' = fingerprint_of i nd \<and>
    fd_ino v output = Some k \<and> map_option size_of (node_of v k) = Some (int (unat (bytes info)))"
proof -
  obtain s0 before w1 where f0: "zr_media_fingerprint source no_fingerprint w = (s0, before, w1)"
    by (metis prod_cases3)
  from assms f0 obtain st where s0: "s0 = 0"
    and wc: "wait_child (e_rounds env) (e_started env + timeout_ms) = Some (WaitDone st)"
    and cr: "convert_result source output variant before env st (helper w1) = (0, v)"
    and c: "c_child c = Reaped st" "c_kills c = 0"
    by (auto simp: zr_media_convert_def Let_def split: if_splits option.splits wait_end.splits prod.splits)
  obtain n info where e: "e_read env = (n, info)" by fastforce
  obtain s1 fp1 v1 where f1: "zr_media_fingerprint source before (helper w1) = (s1, fp1, v1)"
    by (metis prod_cases3)
  from cr e f1 obtain en where st: "st = Exited 0" and g: "\<not> info_bad (variant_edge variant) n info"
    and s1: "s1 = 0" "zr_media_same before fp1" and o: "sys_fstat output v1 = (Inr en, v)"
    and sz: "st_size en = uint (bytes info)"
    by (auto simp: convert_result_def split: if_splits prod.splits sum.splits)
  from zr_media_fingerprint_ok [OF f0] s0 obtain i nd where
    i: "fd_ino w source = Some i" "w_inodes w i = Some nd" "before = fingerprint_of i nd" by auto
  from zr_media_fingerprint_ok [OF f1] s1 obtain i' nd' where
    i': "fd_ino (helper w1) source = Some i'" "w_inodes (helper w1) i' = Some nd'"
      "fp1 = fingerprint_of i' nd'" by auto
  have same: "before = fp1" using s1(2)
    by (cases before; cases fp1) (auto simp: zr_media_same_def prod_eq_iff)
  then have ii: "i' = i" using i(3) i'(3) by (simp add: fingerprint_of_def)
  have q: "quiet (helper w1) v"
    using quiet_trans [OF zr_media_fingerprint_quiet [OF f1]] fstat_okD [OF o] by blast
  from fstat_okD [OF o] obtain k nk where k: "quiet v1 v" "fd_ino v1 output = Some k"
    "w_inodes v1 k = Some nk" "en = stat_of k nk" by blast
  have "fd_ino v output = Some k" "node_of v k = Some (i_node nk)" "size_of (i_node nk) = int (unat (bytes info))"
    using k sz quiet_lookups(4,6) [OF k(1)] by (auto simp: node_of_def stat_of_def)
  moreover have "fd_ino v source = Some i" "w_inodes v i = Some nd'"
    using i' ii quiet_lookups(4,6) [OF q] by auto
  ultimately show ?thesis
    using info_good [OF g] e c st i same i'(3) ii by auto
qed

definition sample_env :: convert_env where
  "sample_env = \<lparr>e_pipe = True, e_pipe_flags = True, e_input = True, e_result = True, e_meta = True,
     e_actions_init = True, e_attr_init = True, e_actions = True, e_spawn = True, e_started = 0,
     e_rounds = [\<lparr>o_waited = NotYet, o_resident = Some 0, o_clock = 10\<rparr>,
       \<lparr>o_waited = Waited (Exited 0), o_resident = None, o_clock = 20\<rparr>],
     e_killed = None,
     e_read = (24, \<lparr>width = 128, height = 96, png = 0, still = 1, bytes = 2\<rparr>)\<rparr>"

theorem zr_media_convert_success_witness:
  "\<exists>c v. zr_media_convert (\<lambda>w. w) 5 5 ''avatar'' 1000 sample_env
      (snd (zr_media_cached 4 ''f'' 2 (sample_world []))) = Some (0, c, v) \<and> c_child c = Reaped (Exited 0)"
proof -
  let ?w = "snd (zr_media_cached 4 ''f'' 2 (sample_world []))"
  have "\<exists>c v. zr_media_convert (\<lambda>w. w) 5 5 ''avatar'' 1000 sample_env ?w = Some (0, c, v)"
    by (simp add: zr_media_convert_def convert_result_def sample_env_def max_resident_def info_bad_def
      info_size_def variant_edge_def zr_media_same_def media_run)
  then show ?thesis using zr_media_convert_success by blast
qed

text \<open>
  However the process calls answer, a conversion that returns has closed every descriptor
  it opened and is no longer responsible for a child: it was never started, or it was reaped,
  or the system said that it is not ours; it kills only on a timeout or on excessive memory,
  at most once. It keeps waiting only while no round saw the child exit or the deadline pass.
\<close>

theorem zr_media_convert_releases:
  "case zr_media_convert helper source dest variant timeout_ms env w of
     None \<Rightarrow> \<forall>ob \<in> set (e_rounds env). (\<forall>st. o_waited ob \<noteq> Waited st) \<and> o_clock ob < e_started env + timeout_ms
   | Some (r, c, v) \<Rightarrow> c_open c = [] \<and> c_child c \<noteq> Running \<and> c_kills c \<le> 1 \<and>
       (c_kills c = 1 \<longrightarrow> r = -6 \<or> r = -4) \<and> (r = 0 \<longrightarrow> c_child c = Reaped (Exited 0))"
proof -
  obtain s0 before w1 where f0: "zr_media_fingerprint source no_fingerprint w = (s0, before, w1)"
    by (metis prod_cases3)
  show ?thesis
  proof (cases "s0 \<noteq> 0 \<or> \<not> (e_pipe env \<and> e_pipe_flags env \<and> e_input env \<and> e_result env \<and> e_meta env \<and>
      e_actions_init env \<and> e_attr_init env \<and> e_actions env \<and> e_spawn env)")
    case True
    with f0 show ?thesis by (auto simp: zr_media_convert_def Let_def)
  next
    case ok: False
    show ?thesis
    proof (cases "wait_child (e_rounds env) (e_started env + timeout_ms)")
      case None
      with ok f0 wait_child_going [OF None] show ?thesis by (simp add: zr_media_convert_def Let_def)
    next
      case (Some we)
      show ?thesis
      proof (cases we)
        case (WaitDone st)
        obtain r v where cr: "convert_result source dest variant before env st (helper w1) = (r, v)"
          by fastforce
        then have "r = 0 \<longrightarrow> st = Exited 0" by (auto simp: convert_result_def split: if_splits)
        with ok f0 Some WaitDone cr show ?thesis by (simp add: zr_media_convert_def Let_def)
      qed (use ok f0 Some in \<open>auto simp: zr_media_convert_def Let_def after_kill_def split: option.splits\<close>)
    qed
  qed
qed

theorem zr_media_convert_releases_witness:
  "zr_media_convert (\<lambda>w. w) 5 5 ''avatar'' 1000 sample_env (sample_world []) \<noteq> None"
  using zr_media_convert_releases [where helper = "\<lambda>w. w" and source = 5 and dest = 5 and
    variant = "''avatar''" and timeout_ms = 1000 and env = sample_env and w = "sample_world []"]
  by (auto simp: sample_env_def split: option.splits)

end
