(* ===== verification/Cache.thy ===== *)
theory Cache
  imports Owned "HOL-Library.Multiset"
begin

text \<open>
  \<open>src/client/media.c\<close>: the client's image cache on disk (64 hexadecimal digits name an
  entry, \<open>tmp-\<close> and 32 digits a download) and the reading of a cached image. libpng and
  libjpeg are parameters: records of functions that answer what the library calls answer. A
  failed \<open>malloc\<close> or \<open>realloc\<close> is not represented; \<open>size_t\<close> values are natural
  numbers, with the test against \<open>SIZE_MAX\<close> written out.
\<close>

section \<open>Names, directory, temporaries\<close>

definition ENCODED_LIMIT :: int where "ENCODED_LIMIT = 8 * 1024 * 1024"
definition PIXEL_LIMIT :: nat where "PIXEL_LIMIT = 32 * 1024 * 1024"
definition SIZE_MAX :: nat where "SIZE_MAX = 2 ^ 64 - 1"

definition cache_name :: "string \<Rightarrow> bool" where
  "cache_name name \<longleftrightarrow>
     (if length name \<noteq> 64 \<and> length name \<noteq> 36 then False
      else if length name = 36 then has_prefix ''tmp-'' name \<and> list_all lower_hex (drop 4 name)
      else list_all lower_hex name)"

definition cache_dir_ok :: "nat \<Rightarrow> stat \<Rightarrow> bool" where
  "cache_dir_ok uid st \<longleftrightarrow> st_uid st = uid \<and> st_mode st AND M0777 = M0700"

definition zc_cache_open :: "string \<Rightarrow> world \<Rightarrow> int \<times> world" where
  "zc_cache_open path w =
     (case sys_mkdirat (-100) path M0700 w of (made, w) \<Rightarrow>
        if (case made of Inl e \<Rightarrow> e \<noteq> EEXIST | Inr _ \<Rightarrow> False) then (-1, w)
        else case sys_open path [O_RDONLY, O_DIRECTORY, O_NOFOLLOW, O_CLOEXEC] 0 w of
          (Inl e, w) \<Rightarrow> (-1, w)
        | (Inr dir, w) \<Rightarrow>
            (case sys_fstat dir w of
               (Inl e, w) \<Rightarrow> (-1, sys_close dir w)
             | (Inr st, w) \<Rightarrow>
                 if \<not> cache_dir_ok (w_uid w) st then (-1, sys_close dir w) else (dir, w)))"

text \<open>\<open>random\<close> is what \<open>getrandom\<close> returned, \<open>None\<close> if it failed or was short.\<close>

definition zc_cache_temp :: "nat list option \<Rightarrow> fd \<Rightarrow> nat \<Rightarrow> world \<Rightarrow> int \<times> string option \<times> world" where
  "zc_cache_temp random dir capacity w =
     (if capacity < 37 then (-1, None, w)
      else case random of
        None \<Rightarrow> (-1, None, w)
      | Some bytes \<Rightarrow>
          (let name = ''tmp-'' @ hex_bytes bytes in
           case sys_openat dir name [O_RDWR, O_CREAT, O_EXCL, O_NOFOLLOW, O_CLOEXEC] M0600 w of
             (Inl e, w) \<Rightarrow> (-1, Some name, w)
           | (Inr fd, w) \<Rightarrow> (fd, Some name, w)))"

definition zc_cache_install :: "fd \<Rightarrow> string \<Rightarrow> string \<Rightarrow> fd \<Rightarrow> world \<Rightarrow> bool \<times> world" where
  "zc_cache_install dir temporary key fd w =
     (if \<not> cache_name temporary \<or> \<not> cache_name key \<or> length key \<noteq> 64 then (False, w)
      else case sys_fsync fd w of
        (Inl e, w) \<Rightarrow> (False, w)
      | (Inr _, w) \<Rightarrow>
          (case sys_renameat dir temporary dir key w of
             (Inl e, w) \<Rightarrow> (False, w)
           | (Inr _, w) \<Rightarrow> (case sys_fsync dir w of (synced, w) \<Rightarrow> (synced = Inr (), w))))"

definition zc_cache_remove :: "fd \<Rightarrow> string \<Rightarrow> world \<Rightarrow> world" where
  "zc_cache_remove dir name w = (if cache_name name then snd (sys_unlinkat dir name False w) else w)"

section \<open>Pruning\<close>

record cache_entry =
  ce_name :: string
  ce_bytes :: nat
  ce_used :: "int \<times> int"

definition oldest :: "cache_entry \<Rightarrow> cache_entry \<Rightarrow> int" where
  "oldest a b =
     (if fst (ce_used a) \<noteq> fst (ce_used b) then (if fst (ce_used a) < fst (ce_used b) then -1 else 1)
      else if snd (ce_used a) < snd (ce_used b) then -1
      else if snd (ce_used a) > snd (ce_used b) then 1 else 0)"

text \<open>
  \<open>qsort\<close> with a comparison function. C leaves the order of equal elements open; this is
  one of the orders it allows, and the proofs use only what the contract \<open>sorter\<close> states.
\<close>

fun insort_by :: "('a \<Rightarrow> 'a \<Rightarrow> int) \<Rightarrow> 'a \<Rightarrow> 'a list \<Rightarrow> 'a list" where
  "insort_by cmp x [] = [x]"
| "insort_by cmp x (y # ys) = (if cmp x y \<le> 0 then x # y # ys else y # insort_by cmp x ys)"

definition qsort :: "('a \<Rightarrow> 'a \<Rightarrow> int) \<Rightarrow> 'a list \<Rightarrow> 'a list" where
  "qsort cmp xs = foldr (insort_by cmp) xs []"

definition max_listed :: nat where "max_listed = 8192"

text \<open>
  The loop over the directory of \<open>zc_cache_prune\<close>: the names not yet read, the entries
  stored, the bytes counted and \<open>ok\<close>.
\<close>

fun prune_scan :: "fd \<Rightarrow> bool \<Rightarrow> string list \<Rightarrow> cache_entry list \<Rightarrow> nat \<Rightarrow> bool \<Rightarrow> world \<Rightarrow>
    cache_entry list \<times> nat \<times> bool \<times> world" where
  "prune_scan dir startup [] entries bytes ok w =
     (case sys_readdir [] w of
        (Inl e, w) \<Rightarrow> (entries, bytes, False, w) | (Inr _, w) \<Rightarrow> (entries, bytes, ok, w))"
| "prune_scan dir startup (d_name # names) entries bytes ok w =
     (case sys_readdir (d_name # names) w of
        (Inl e, w) \<Rightarrow> (entries, bytes, False, w)
      | (Inr _, w) \<Rightarrow>
          if \<not> cache_name d_name then prune_scan dir startup names entries bytes ok w
          else case sys_fstatat dir d_name w of
            (Inl e, w) \<Rightarrow> prune_scan dir startup names entries bytes (ok \<and> e = ENOENT) w
          | (Inr st, w) \<Rightarrow>
              if \<not> S_ISREG st \<or> st_uid st \<noteq> w_uid w \<or> st_size st < 0
              then prune_scan dir startup names entries bytes ok w
              else if length d_name = 36 then
                (case (if startup then sys_unlinkat dir d_name False w else (Inl EIO, w)) of
                   (Inr _, w) \<Rightarrow> prune_scan dir startup names entries bytes ok w
                 | (Inl e, w) \<Rightarrow>
                     if nat (st_size st) > SIZE_MAX - bytes then (entries, bytes, False, w)
                     else prune_scan dir startup names entries (bytes + nat (st_size st)) (ok \<and> \<not> startup) w)
              else if length entries = max_listed then
                (case sys_unlinkat dir d_name False w of
                   (Inl e, w) \<Rightarrow> prune_scan dir startup names entries bytes False w
                 | (Inr _, w) \<Rightarrow> prune_scan dir startup names entries bytes ok w)
              else if nat (st_size st) > SIZE_MAX - bytes then (entries, bytes, False, w)
              else prune_scan dir startup names
                (entries @ [\<lparr>ce_name = d_name, ce_bytes = nat (st_size st), ce_used = st_mtim st\<rparr>])
                (bytes + nat (st_size st)) ok w)"

text \<open>The eviction loop over the sorted entries.\<close>

fun evict :: "fd \<Rightarrow> nat \<Rightarrow> nat \<Rightarrow> cache_entry list \<Rightarrow> nat \<Rightarrow> nat \<Rightarrow> bool \<Rightarrow> world \<Rightarrow>
    nat \<times> nat \<times> bool \<times> world" where
  "evict dir budget max_entries [] bytes remaining ok w = (bytes, remaining, ok, w)"
| "evict dir budget max_entries (e # es) bytes remaining ok w =
     (if bytes > budget \<or> remaining > max_entries then
        (case sys_unlinkat dir (ce_name e) False w of
           (Inr _, w) \<Rightarrow> evict dir budget max_entries es (bytes - ce_bytes e) (remaining - 1) ok w
         | (Inl _, w) \<Rightarrow> evict dir budget max_entries es bytes remaining False w)
      else (bytes, remaining, ok, w))"

text \<open>\<open>closedir\<close> closes the descriptor and may still report an error.\<close>

definition sys_closedir :: "fd \<Rightarrow> world \<Rightarrow> bool \<times> world" where
  "sys_closedir fd w = (case tick w of (x, w) \<Rightarrow>
     ((case x of Fail _ \<Rightarrow> False | _ \<Rightarrow> True), sys_close fd w))"

record cache_usage =
  cu_bytes :: nat
  cu_entries :: nat

definition zc_cache_prune :: "fd \<Rightarrow> nat \<Rightarrow> nat \<Rightarrow> bool \<Rightarrow> cache_usage \<Rightarrow> world \<Rightarrow>
    bool \<times> cache_usage \<times> world" where
  "zc_cache_prune dir budget max_entries startup usage w =
     (case sys_openat dir ''.'' [O_RDONLY, O_DIRECTORY, O_CLOEXEC] 0 w of
        (Inl e, w) \<Rightarrow> (False, usage, w)
      | (Inr copy, w) \<Rightarrow>
          (case sys_fdopendir copy w of
             (Inl e, w) \<Rightarrow> (False, usage, sys_close copy w)
           | (Inr names, w) \<Rightarrow>
               (case prune_scan dir startup names [] 0 True w of (entries, bytes, ok, w) \<Rightarrow>
                case sys_closedir copy w of (closed, w) \<Rightarrow>
                let ok = (ok \<and> closed); remaining = length entries in
                case (if bytes > budget \<or> remaining > max_entries
                      then evict dir budget max_entries
                        (if length entries > 1 then qsort oldest entries else entries) bytes remaining ok w
                      else (bytes, remaining, ok, w)) of (bytes, remaining, ok, w) \<Rightarrow>
                if \<not> ok \<or> bytes > budget \<or> remaining > max_entries then (False, usage, w)
                else (True, \<lparr>cu_bytes = bytes, cu_entries = remaining\<rparr>, w))))"

text \<open>The loop of \<open>zc_cache_clear_avatars\<close>, which removes the entries of avatars.\<close>

fun clear_entries :: "fd \<Rightarrow> string list \<Rightarrow> world \<Rightarrow> world" where
  "clear_entries dir [] w = snd (sys_readdir [] w)"
| "clear_entries dir (d_name # names) w =
     (case sys_readdir (d_name # names) w of
        (Inl e, w) \<Rightarrow> w
      | (Inr _, w) \<Rightarrow>
          if length d_name = 64 \<and> d_name ! 0 = CHR ''a'' \<and> cache_name d_name then
            (case sys_unlinkat dir d_name False w of (_, w) \<Rightarrow> clear_entries dir names w)
          else clear_entries dir names w)"

definition zc_cache_clear_avatars :: "fd \<Rightarrow> world \<Rightarrow> world" where
  "zc_cache_clear_avatars dir w =
     (case sys_openat dir ''.'' [O_RDONLY, O_DIRECTORY, O_CLOEXEC] 0 w of
        (Inl e, w) \<Rightarrow> w
      | (Inr copy, w) \<Rightarrow>
          (case sys_fdopendir copy w of
             (Inl e, w) \<Rightarrow> sys_close copy w
           | (Inr names, w) \<Rightarrow> sys_close copy (clear_entries dir names w)))"

section \<open>Reading an image\<close>

record pixels =
  px_data :: "char list"
  px_bytes :: nat
  px_width :: int
  px_height :: int

definition no_pixels :: pixels where
  "no_pixels = \<lparr>px_data = [], px_bytes = 0, px_width = 0, px_height = 0\<rparr>"

definition zc_pixels_free :: "pixels \<Rightarrow> pixels" where
  "zc_pixels_free px = no_pixels"

definition dimensions :: "int \<Rightarrow> int \<Rightarrow> bool" where
  "dimensions w h \<longleftrightarrow> w > 0 \<and> h > 0 \<and> w \<le> 2560 \<and> h \<le> 2560 \<and> nat w * nat h * 4 \<le> PIXEL_LIMIT"

text \<open>
  libpng: the dimensions after \<open>png_image_begin_read_from_memory\<close>, and whether
  \<open>png_image_finish_read\<close> succeeds, with the bytes it stores in the buffer it is given.
\<close>

record png_lib =
  png_begin :: "char list \<Rightarrow> (nat \<times> nat) option"
  png_finish :: "char list \<Rightarrow> (nat \<Rightarrow> char) option"

definition decode_png :: "png_lib \<Rightarrow> char list \<Rightarrow> pixels \<Rightarrow> bool \<times> pixels" where
  "decode_png png bytes out =
     (case png_begin png bytes of
        None \<Rightarrow> (False, out)
      | Some (width, height) \<Rightarrow>
          if width > 2560 \<or> height > 2560 \<or> \<not> dimensions (int width) (int height) then (False, out)
          else (let amount = width * height * 4; out = out\<lparr>px_bytes := amount, px_data := replicate amount (CHR 0x00)\<rparr> in
            case png_finish png bytes of
              None \<Rightarrow> (False, out)
            | Some fill \<Rightarrow> (True, out\<lparr>px_data := map fill [0..<amount], px_width := int width,
                px_height := int height\<rparr>)))"

text \<open>
  libjpeg-turbo: the header, the output dimensions and components after
  \<open>jpeg_start_decompress\<close>, the scanlines, and whether finishing succeeds without a
  warning. \<open>None\<close> is also the answer of a call that jumps to the error exit.
\<close>

record jpeg_lib =
  jpeg_header :: "char list \<Rightarrow> (nat \<times> nat) option"
  jpeg_start :: "char list \<Rightarrow> (nat \<times> nat \<times> nat) option"
  jpeg_line :: "char list \<Rightarrow> nat \<Rightarrow> (nat \<Rightarrow> char) option"
  jpeg_finish :: "char list \<Rightarrow> bool"

fun scanlines :: "(nat \<Rightarrow> (nat \<Rightarrow> char) option) \<Rightarrow> nat \<Rightarrow> nat list \<Rightarrow> char list option" where
  "scanlines line row [] = Some []"
| "scanlines line row (y # ys) =
     (case line y of None \<Rightarrow> None
      | Some fill \<Rightarrow> (case scanlines line row ys of None \<Rightarrow> None
          | Some data \<Rightarrow> Some (map fill [0..<row] @ data)))"

definition decode_jpeg :: "jpeg_lib \<Rightarrow> char list \<Rightarrow> pixels \<Rightarrow> bool \<times> pixels" where
  "decode_jpeg jpeg bytes out =
     (case jpeg_header jpeg bytes of
        None \<Rightarrow> (False, out)
      | Some (iw, ih) \<Rightarrow>
          if iw > 2560 \<or> ih > 2560 \<or> \<not> dimensions (int iw) (int ih) then (False, out)
          else case jpeg_start jpeg bytes of
            None \<Rightarrow> (False, out)
          | Some (width, height, channels) \<Rightarrow>
              if channels \<noteq> 4 then (False, out)
              else (let amount = width * height * 4;
                        out = \<lparr>px_data = replicate amount (CHR 0x00), px_bytes = amount,
                               px_width = int width, px_height = int height\<rparr> in
                case scanlines (jpeg_line jpeg bytes) (width * 4) [0..<height] of
                  None \<Rightarrow> (False, out)
                | Some data \<Rightarrow> (jpeg_finish jpeg bytes, out\<lparr>px_data := data\<rparr>)))"

text \<open>The conditions on the status of the image file, and the loop that reads it.\<close>

definition image_st_ok :: "nat \<Rightarrow> stat \<Rightarrow> bool" where
  "image_st_ok uid st \<longleftrightarrow> \<not> (\<not> S_ISREG st \<or> st_uid st \<noteq> uid \<or> st_mode st AND M0777 \<noteq> M0600 \<or>
     st_nlink st \<noteq> 1 \<or> st_size st < 8 \<or> st_size st > ENCODED_LIMIT)"

lemma pread_script: "sys_pread fd n off w = (r, v) \<Longrightarrow> length (w_script v) \<le> length (w_script w) \<and>
    (r = Inl EINTR \<longrightarrow> length (w_script v) < length (w_script w))"
  unfolding sys_pread_def
  by (cases rule: syscall_cases) (auto simp: Let_def split: option.splits)

function pread_all :: "fd \<Rightarrow> nat \<Rightarrow> char list \<Rightarrow> world \<Rightarrow> char list option \<times> world" where
  "pread_all fd amount got w =
     (if length got \<ge> amount then (Some got, w)
      else case sys_pread fd (amount - length got) (length got) w of
        (Inl e, v) \<Rightarrow> if e = EINTR then pread_all fd amount got v else (None, v)
      | (Inr part, v) \<Rightarrow> if part = [] then (None, v) else pread_all fd amount (got @ part) v)"
  by pat_completeness auto

termination
proof (relation "measure (\<lambda>(fd, amount, got, w). (amount - length got) + length (w_script w))", goal_cases)
  case 1
  show ?case by simp
next
  case (2 fd amount got w x v e)
  with pread_script [OF 2(2) [symmetric]] have "length (w_script v) < length (w_script w)"
    "length got < amount" by simp_all
  then show ?case by simp
next
  case (3 fd amount got w x v part)
  with pread_script [OF 3(2) [symmetric]] have "length (w_script v) \<le> length (w_script w)" "0 < length part"
    "length got < amount" by simp_all
  then show ?case by (cases part) auto
qed

declare pread_all.simps [simp del]

definition png_signature :: "char list" where
  "png_signature = [CHR 0x89, CHR ''P'', CHR ''N'', CHR ''G'', CHR 0x0D, CHR 0x0A, CHR 0x1A, CHR 0x0A]"

definition zc_image_read_fd :: "png_lib \<Rightarrow> jpeg_lib \<Rightarrow> fd \<Rightarrow> world \<Rightarrow> int \<times> pixels \<times> world" where
  "zc_image_read_fd png jpeg fd w =
     (case sys_fstat fd w of
        (Inl e, w) \<Rightarrow> (-1, no_pixels, w)
      | (Inr st, w) \<Rightarrow>
          if \<not> image_st_ok (w_uid w) st then (-1, no_pixels, w)
          else case pread_all fd (nat (st_size st)) [] w of
            (None, w) \<Rightarrow> (-1, no_pixels, w)
          | (Some bytes, w) \<Rightarrow>
              (case sys_pread fd 1 (length bytes) w of (extra, w) \<Rightarrow>
                 if extra \<noteq> Inr [] then (-1, no_pixels, w)
                 else case (if take 8 bytes = png_signature then decode_png png bytes no_pixels
                            else if bytes ! 0 = CHR 0xFF \<and> bytes ! 1 = CHR 0xD8 \<and> bytes ! 2 = CHR 0xFF
                            then decode_jpeg jpeg bytes no_pixels
                            else (False, no_pixels)) of (decoded, out) \<Rightarrow>
                   if decoded then (1, out, w) else (-1, zc_pixels_free out, w)))"

definition zc_image_read :: "png_lib \<Rightarrow> jpeg_lib \<Rightarrow> fd \<Rightarrow> string \<Rightarrow> world \<Rightarrow> int \<times> pixels \<times> world" where
  "zc_image_read png jpeg dir name w =
     (if \<not> cache_name name then (-1, no_pixels, w)
      else case sys_openat dir name [O_RDONLY, O_NOFOLLOW, O_NONBLOCK, O_CLOEXEC] 0 w of
        (Inl e, w) \<Rightarrow> (if e = ENOENT then 0 else -1, no_pixels, w)
      | (Inr fd, w) \<Rightarrow>
          (case zc_image_read_fd png jpeg fd w of (result, out, w) \<Rightarrow>
             let w = (if result = 1 then snd (sys_futimens fd w) else w)
             in (result, out, sys_close fd w)))"

section \<open>Names and sorting\<close>

lemma cache_name_chars: "cache_name n \<Longrightarrow> \<forall>c \<in> set n. lower_hex c \<or> c \<in> set ''tmp-''"
proof -
  assume n: "cache_name n"
  show ?thesis
  proof (cases "length n = 36")
    case True
    with n have t: "take 4 n = ''tmp-''" and d: "list_all lower_hex (drop 4 n)"
      unfolding cache_name_def has_prefix_def by (simp_all add: eval_nat_numeral)
    have "set n = set (take 4 n) \<union> set (drop 4 n)"
      by (metis append_take_drop_id set_append)
    then have "set n = set ''tmp-'' \<union> set (drop 4 n)" unfolding t .
    then show ?thesis using d unfolding list_all_iff by (metis UnE)
  next
    case False
    with n show ?thesis by (auto simp: cache_name_def list_all_iff split: if_splits)
  qed
qed

lemma cache_name_plain [name_rules]: "cache_name n \<Longrightarrow> plain_name n"
proof -
  assume n: "cache_name n"
  have "CHR ''/'' \<notin> set n"
    using cache_name_chars [OF n] by (force simp: lower_hex_def)
  moreover have "length n = 64 \<or> length n = 36" using n by (auto simp: cache_name_def split: if_splits)
  ultimately show ?thesis by (auto simp: plain_name_def)
qed

interpretation cache_names: name_guard cache_name
  by unfold_locales (rule cache_name_plain)

text \<open>What the eviction relies on of a sorting function with a comparison.\<close>

locale sorter =
  fixes qs :: "('a \<Rightarrow> 'a \<Rightarrow> int) \<Rightarrow> 'a list \<Rightarrow> 'a list"
  assumes perm: "mset (qs cmp xs) = mset xs"
    and sorted: "(\<And>a b. cmp a b \<le> 0 \<or> cmp b a \<le> 0) \<Longrightarrow>
      (\<And>a b c. cmp a b \<le> 0 \<Longrightarrow> cmp b c \<le> 0 \<Longrightarrow> cmp a c \<le> 0) \<Longrightarrow>
      sorted_wrt (\<lambda>a b. cmp a b \<le> 0) (qs cmp xs)"
begin

lemma same_length: "length (qs cmp xs) = length xs"
  using perm by (metis size_mset)

lemma same_set: "set (qs cmp xs) = set xs"
  using perm by (metis set_mset_mset)

lemma same_sum: "sum_list (map f (qs cmp xs)) = (sum_list (map f xs) :: nat)"
  using perm [of cmp xs] by (metis mset_map sum_mset_sum_list)

lemma same_distinct: "distinct (map f (qs cmp xs)) = distinct (map f xs)"
  using perm [of cmp xs] by (metis mset_map mset_eq_imp_distinct_iff)

text \<open>Whatever a prefix takes is no later than what it leaves.\<close>

lemma prefix_first:
  assumes "\<And>a b. cmp a b \<le> 0 \<or> cmp b a \<le> 0" and "\<And>a b c. cmp a b \<le> 0 \<Longrightarrow> cmp b c \<le> 0 \<Longrightarrow> cmp a c \<le> 0"
    and "a \<in> set (take k (qs cmp xs))" and "b \<in> set (drop k (qs cmp xs))"
  shows "cmp a b \<le> 0"
proof -
  have "sorted_wrt (\<lambda>a b. cmp a b \<le> 0) (take k (qs cmp xs) @ drop k (qs cmp xs))"
    using sorted [where cmp = cmp and xs = xs, OF assms(1,2)] by simp
  with assms(3,4) show ?thesis unfolding sorted_wrt_append by blast
qed

end

lemma mset_insort_by [simp]: "mset (insort_by cmp x xs) = add_mset x (mset xs)"
  by (induction xs) auto

lemma sorted_insort_by:
  assumes "\<And>a b. cmp a b \<le> 0 \<or> cmp b a \<le> 0" and "\<And>a b c. cmp a b \<le> 0 \<Longrightarrow> cmp b c \<le> 0 \<Longrightarrow> cmp a c \<le> 0"
  shows "sorted_wrt (\<lambda>a b. cmp a b \<le> 0) xs \<Longrightarrow> sorted_wrt (\<lambda>a b. cmp a b \<le> 0) (insort_by cmp x xs)"
proof (induction xs)
  case (Cons y ys)
  have "set (insort_by cmp x ys) = insert x (set ys)"
    by (metis mset_insort_by set_mset_add_mset_insert set_mset_mset)
  with Cons assms(1) [of x y] show ?case by (auto intro: assms(2))
qed simp

interpretation entry_sort: sorter "qsort :: (cache_entry \<Rightarrow> cache_entry \<Rightarrow> int) \<Rightarrow> _"
proof unfold_locales
  fix cmp :: "cache_entry \<Rightarrow> cache_entry \<Rightarrow> int" and xs
  show "mset (qsort cmp xs) = mset xs" unfolding qsort_def by (induction xs) auto
  assume "\<And>a b. cmp a b \<le> 0 \<or> cmp b a \<le> 0" "\<And>a b c. cmp a b \<le> 0 \<Longrightarrow> cmp b c \<le> 0 \<Longrightarrow> cmp a c \<le> 0"
  then show "sorted_wrt (\<lambda>a b. cmp a b \<le> 0) (qsort cmp xs)"
    unfolding qsort_def by (induction xs) (simp_all add: sorted_insort_by)
qed

lemma oldest_le: "oldest a b \<le> 0 \<longleftrightarrow> fst (ce_used a) < fst (ce_used b) \<or>
    fst (ce_used a) = fst (ce_used b) \<and> snd (ce_used a) \<le> snd (ce_used b)"
  by (auto simp: oldest_def)

lemma oldest_total: "oldest a b \<le> 0 \<or> oldest b a \<le> 0"
  by (auto simp: oldest_le)

lemma oldest_trans: "oldest a b \<le> 0 \<Longrightarrow> oldest b c \<le> 0 \<Longrightarrow> oldest a c \<le> 0"
  by (auto simp: oldest_le)

section \<open>What a scan counts\<close>

text \<open>The size of a name if it is a regular file of the user, and the sum over a set of names.\<close>

definition counted :: "world \<Rightarrow> ino \<Rightarrow> string \<Rightarrow> nat option" where
  "counted w d n = (case entry w d n of None \<Rightarrow> None
     | Some i \<Rightarrow> (case file_bytes w i of None \<Rightarrow> None
         | Some bs \<Rightarrow> if map_option fst (attrs w i) = Some (w_uid w) then Some (length bs) else None))"

definition cache_names_in :: "world \<Rightarrow> ino \<Rightarrow> string set \<Rightarrow> string set" where
  "cache_names_in w d N = {n \<in> N. cache_name n \<and> counted w d n \<noteq> None}"

definition tally :: "world \<Rightarrow> ino \<Rightarrow> string set \<Rightarrow> nat" where
  "tally w d N = (\<Sum>n \<in> cache_names_in w d N. the (counted w d n))"

lemma counted_minus:
  "edited w v (minus_entries (entry w) d R) \<Longrightarrow> counted v d n = (if n \<in> R then None else counted w d n)"
proof -
  assume e: "edited w v (minus_entries (entry w) d R)"
  then have eq: "file_bytes v = file_bytes w" "attrs v = attrs w" "w_uid v = w_uid w"
    "entry v = minus_entries (entry w) d R"
    by (auto simp: edited_def same_env_def)
  show ?thesis unfolding counted_def eq minus_entries_apply by simp
qed

lemma counted_same:
  assumes "same_disk w v" shows "counted v d n = counted w d n"
proof -
  have eq: "entry v = entry w" "file_bytes v = file_bytes w" "attrs v = attrs w" "w_uid v = w_uid w"
    using same_disk_lookups [OF assms] by (auto simp: fun_eq_iff file_bytes_def attrs_def)
  show ?thesis unfolding counted_def eq ..
qed

lemma counted_quiet: "quiet w v \<Longrightarrow> counted v d n = counted w d n"
  using counted_minus [OF edited_minus_quiet] by auto

lemma counted_fstatat:
  assumes "sys_fstatat dir n w = (Inr st, v)" and "plain_name n" and "fd_ino w dir = Some d"
  shows "quiet w v \<and> counted v d n = (if S_ISREG st \<and> st_uid st = w_uid v \<and> \<not> st_size st < 0
    then Some (nat (st_size st)) else None)"
proof -
  from fstatat_okD [OF assms(1,2)] assms(3) obtain i nd where
    q: "quiet w v" and i: "entry w d n = Some i" "w_inodes w i = Some nd" "st = stat_of i nd"
    by auto
  have "counted w d n = (if S_ISREG st \<and> st_uid st = w_uid v \<and> \<not> st_size st < 0
    then Some (nat (st_size st)) else None)"
    using i quiet_lookups(5) [OF q]
    by (cases "i_node nd") (auto simp: counted_def file_bytes_def node_of_def attrs_def S_ISREG_def stat_of_def)
  with q counted_quiet [OF q] show ?thesis by simp
qed

lemma tally_insert:
  "n \<notin> N \<Longrightarrow> finite N \<Longrightarrow> tally w d (insert n N) =
    (if cache_name n then case counted w d n of None \<Rightarrow> 0 | Some k \<Rightarrow> k else 0) + tally w d N"
proof -
  assume n: "n \<notin> N" "finite N"
  have "cache_names_in w d (insert n N) =
    (if cache_name n \<and> counted w d n \<noteq> None then insert n (cache_names_in w d N) else cache_names_in w d N)"
    by (auto simp: cache_names_in_def)
  moreover have "n \<notin> cache_names_in w d N" "finite (cache_names_in w d N)"
    using n by (auto simp: cache_names_in_def)
  ultimately show ?thesis by (auto simp: tally_def)
qed

text \<open>The account a scan keeps: the entries \<open>new\<close> and \<open>b\<close> bytes for the names \<open>names\<close>.\<close>

definition accounts :: "world \<Rightarrow> ino \<Rightarrow> string list \<Rightarrow> cache_entry list \<Rightarrow> nat \<Rightarrow> bool" where
  "accounts w d names new b \<longleftrightarrow> b = tally w d (set names) \<and> distinct (map ce_name new) \<and>
     set (map ce_name new) = {n \<in> cache_names_in w d (set names). length n = 64} \<and>
     (\<forall>e \<in> set new. counted w d (ce_name e) = Some (ce_bytes e))"

lemma cache_name_length: "cache_name n \<Longrightarrow> length n = 64 \<or> length n = 36"
  by (auto simp: cache_name_def split: if_splits)

lemma accounts_skip:
  "accounts w d names new b \<Longrightarrow> n \<notin> set names \<Longrightarrow> \<not> cache_name n \<or> counted w d n = None \<Longrightarrow>
   accounts w d (n # names) new b"
  by (auto simp: accounts_def tally_insert cache_names_in_def)

lemma accounts_temp:
  "accounts w d names new b \<Longrightarrow> n \<notin> set names \<Longrightarrow> cache_name n \<Longrightarrow> length n = 36 \<Longrightarrow>
   counted w d n = Some k \<Longrightarrow> accounts w d (n # names) new (k + b)"
  by (auto simp: accounts_def tally_insert cache_names_in_def)

lemma accounts_entry:
  "accounts w d names new b \<Longrightarrow> ce_name e \<notin> set names \<Longrightarrow> cache_name (ce_name e) \<Longrightarrow>
   length (ce_name e) = 64 \<Longrightarrow> counted w d (ce_name e) = Some (ce_bytes e) \<Longrightarrow>
   accounts w d (ce_name e # names) (e # new) (ce_bytes e + b)"
  by (auto simp: accounts_def tally_insert cache_names_in_def)

definition scan_result :: "fd \<Rightarrow> ino \<Rightarrow> string list \<Rightarrow> cache_entry list \<Rightarrow> nat \<Rightarrow> bool \<Rightarrow> world \<Rightarrow>
    cache_entry list \<Rightarrow> nat \<Rightarrow> bool \<Rightarrow> world \<Rightarrow> bool" where
  "scan_result dir d names es0 b0 ok0 w es b ok v \<longleftrightarrow> (\<exists>R new k.
     R \<subseteq> {n \<in> set names. cache_name n} \<and> edited w v (minus_entries (entry w) d R) \<and>
     es = es0 @ new \<and> (\<forall>e \<in> set new. cache_name (ce_name e)) \<and>
     (length es0 \<le> max_listed \<longrightarrow> length es \<le> max_listed) \<and>
     (ok \<and> distinct names \<longrightarrow> ok0 \<and> b = b0 + k \<and> accounts v d names new k))"

lemma scan_result_stop:
  assumes "edited w v (minus_entries (entry w) d R)" and "R \<subseteq> {n}" and "R \<noteq> {} \<longrightarrow> cache_name n"
  shows "scan_result dir d (n # names) es b0 ok0 w es b False v"
  unfolding scan_result_def using assms by (intro exI [of _ R] exI [of _ "[]"] exI [of _ 0]) auto

text \<open>One name, then the rest: the three ways a name enters the account.\<close>

lemma scan_result_step:
  assumes rest: "scan_result dir d names (es0 @ x) b1 ok1 u es b ok v"
    and u: "edited w u (minus_entries (entry w) d S)" "S \<subseteq> {n}" "S \<noteq> {} \<longrightarrow> cache_name n"
    and x: "x = [] \<or> (\<exists>e. x = [e] \<and> ce_name e = n \<and> cache_name n)"
      "length es0 \<le> max_listed \<longrightarrow> length (es0 @ x) \<le> max_listed"
    and link: "ok1 \<longrightarrow> ok0 \<and>
      (x = [] \<and> b1 = b0 \<and> (\<not> cache_name n \<or> counted u d n = None) \<or>
       x = [] \<and> cache_name n \<and> length n = 36 \<and> (\<exists>k. counted u d n = Some k \<and> b1 = b0 + k) \<or>
       (\<exists>e. x = [e] \<and> ce_name e = n \<and> cache_name n \<and> length n = 64 \<and>
          counted u d n = Some (ce_bytes e) \<and> b1 = b0 + ce_bytes e))"
  shows "scan_result dir d (n # names) es0 b0 ok0 w es b ok v"
proof -
  from rest obtain R new k where r: "R \<subseteq> {n \<in> set names. cache_name n}"
    "edited u v (minus_entries (entry u) d R)" "es = (es0 @ x) @ new" "\<forall>e \<in> set new. cache_name (ce_name e)"
    "length (es0 @ x) \<le> max_listed \<longrightarrow> length es \<le> max_listed"
    "ok \<and> distinct names \<longrightarrow> ok1 \<and> b = b1 + k \<and> accounts v d names new k"
    unfolding scan_result_def by blast
  have e: "edited w v (minus_entries (entry w) d (S \<union> R))" by (rule edited_minus_trans [OF u(1) r(2)])
  have acc: "\<exists>k'. ok0 \<and> b = b0 + k' \<and> accounts v d (n # names) (x @ new) k'"
    if ok: "ok" and dist: "distinct (n # names)"
  proof -
    from ok dist r(6) have a: "ok1" "b = b1 + k" "accounts v d names new k" by auto
    have n: "n \<notin> set names" "n \<notin> R" using dist r(1) by auto
    have cv: "counted v d n = counted u d n" using counted_minus [OF r(2), of n] n(2) by simp
    from link a(1) consider
        "ok0" "x = []" "b1 = b0" "\<not> cache_name n \<or> counted u d n = None"
      | m where "ok0" "x = []" "cache_name n" "length n = 36" "counted u d n = Some m" "b1 = b0 + m"
      | f where "ok0" "x = [f]" "ce_name f = n" "cache_name n" "length n = 64"
          "counted u d n = Some (ce_bytes f)" "b1 = b0 + ce_bytes f"
      by auto
    then show ?thesis
    proof cases
      case 1
      with accounts_skip [OF a(3) n(1)] cv a(2) show ?thesis by auto
    next
      case 2
      with accounts_temp [OF a(3) n(1)] cv a(2) show ?thesis by auto
    next
      case 3
      with accounts_entry [OF a(3), of f] n(1) cv a(2) show ?thesis by auto
    qed
  qed
  have main: "S \<union> R \<subseteq> {m \<in> set (n # names). cache_name m}" "\<forall>e \<in> set (x @ new). cache_name (ce_name e)"
    "es = es0 @ (x @ new)" "length es0 \<le> max_listed \<longrightarrow> length es \<le> max_listed"
    using r u(2,3) x by auto
  show ?thesis
  proof (cases "ok \<and> distinct (n # names)")
    case True
    with acc obtain k' where "ok0 \<and> b = b0 + k' \<and> accounts v d (n # names) (x @ new) k'" by blast
    with main e show ?thesis unfolding scan_result_def by blast
  next
    case False
    with main e show ?thesis unfolding scan_result_def by blast
  qed
qed

lemma accounts_Nil: "accounts w d [] [] 0"
  by (simp add: accounts_def tally_def cache_names_in_def)

lemma prune_scan_result:
  "prune_scan dir st names es0 b0 ok0 w = (es, b, ok, v) \<Longrightarrow> fd_ino w dir = Some d \<Longrightarrow>
   scan_result dir d names es0 b0 ok0 w es b ok v"
proof (induction names arbitrary: es0 b0 ok0 w)
  case Nil
  obtain x u where x: "sys_readdir [] w = (x, u)" by fastforce
  have e: "edited w u (minus_entries (entry w) d {})" by (rule edited_minus_quiet [OF readdir_quiet [OF x]])
  from Nil x have "es = es0" "b = b0" "v = u" "ok \<longrightarrow> ok0" by (auto split: sum.splits)
  with e accounts_Nil [of u d] show ?case
    unfolding scan_result_def by (intro exI [of _ "{}"] exI [of _ "[]"] exI [of _ 0]) auto
next
  case (Cons n names)
  obtain x u where x: "sys_readdir (n # names) w = (x, u)" by fastforce
  have q: "quiet w u" by (rule readdir_quiet [OF x])
  note e0 = edited_minus_quiet [OF q, of d]
  show ?case
  proof (cases x)
    case (Inl e)
    with Cons.prems(1) x have r: "es = es0" "b = b0" "\<not> ok" "v = u" by auto
    with scan_result_stop [OF e0] show ?thesis by simp
  next
    case (Inr y)
    note rd = this
    have fdu: "fd_ino u dir = Some d" using quiet_lookups(6) [OF q] Cons.prems(2) by simp
    show ?thesis
    proof (cases "cache_name n")
      case False
      with Cons.prems(1) x rd have "prune_scan dir st names (es0 @ []) b0 ok0 u = (es, b, ok, v)" by simp
      from scan_result_step [OF Cons.IH [OF this fdu] e0] False show ?thesis by auto
    next
      case name: True
      note pl = cache_name_plain [OF name]
      obtain s u1 where s: "sys_fstatat dir n u = (s, u1)" by fastforce
      have qs: "quiet u u1" using s fstatat_okD [OF _ pl] fstatat_errD [OF _ pl] by (cases s) blast+
      note q1 = quiet_trans [OF q qs]
      note e1 = edited_minus_quiet [OF q1, of d]
      have fd1: "fd_ino u1 dir = Some d" using quiet_lookups(6) [OF q1] Cons.prems(2) by simp
      have go: "scan_result dir d (n # names) es0 b0 ok0 w es b ok v"
        if "prune_scan dir st names (es0 @ z) b1 ok1 t = (es, b, ok, v)"
          "edited w t (minus_entries (entry w) d S)" "S \<subseteq> {n}" "fd_ino t dir = Some d"
          "z = [] \<or> (\<exists>e. z = [e] \<and> ce_name e = n)" "length es0 \<le> max_listed \<longrightarrow> length (es0 @ z) \<le> max_listed"
          "ok1 \<longrightarrow> ok0 \<and> (z = [] \<and> b1 = b0 \<and> counted t d n = None \<or>
             z = [] \<and> length n = 36 \<and> (\<exists>k. counted t d n = Some k \<and> b1 = b0 + k) \<or>
             (\<exists>e. z = [e] \<and> ce_name e = n \<and> length n = 64 \<and> counted t d n = Some (ce_bytes e) \<and> b1 = b0 + ce_bytes e))"
        for z b1 ok1 t S
        using that(5-7) name by (intro scan_result_step [OF Cons.IH [OF that(1,4)] that(2,3)]) auto
      show ?thesis
      proof (cases s)
        case (Inl e)
        have "e = ENOENT \<Longrightarrow> counted u1 d n = None"
          using fstatat_ENOENT [of dir n u u1] s Inl pl fdu quiet_lookups(3) [OF qs] by (simp add: counted_def)
        moreover from Cons.prems(1) x rd name s Inl
        have "prune_scan dir st names (es0 @ []) b0 (ok0 \<and> e = ENOENT) u1 = (es, b, ok, v)" by simp
        ultimately show ?thesis by (intro go [OF _ e1 _ fd1]) auto
      next
        case (Inr stt)
        have cn: "counted u1 d n = (if S_ISREG stt \<and> st_uid stt = w_uid u1 \<and> \<not> st_size stt < 0
            then Some (nat (st_size stt)) else None)"
          using counted_fstatat [OF s [unfolded Inr] pl fdu] by blast
        show ?thesis
        proof (cases "S_ISREG stt \<and> st_uid stt = w_uid u1 \<and> \<not> st_size stt < 0")
          case False
          with Cons.prems(1) x rd name s Inr
          have "prune_scan dir st names (es0 @ []) b0 ok0 u1 = (es, b, ok, v)" by auto
          then show ?thesis using cn False by (intro go [OF _ e1 _ fd1]) auto
        next
          case good: True
          then have cn: "counted u1 d n = Some (nat (st_size stt))" using cn by simp
          obtain z u2 where z: "sys_unlinkat dir n False u1 = (z, u2)" by fastforce
          from unlink_minus [OF z pl fd1] obtain R where
            R: "R \<subseteq> {n}" "edited u1 u2 (minus_entries (entry u1) d R)" "\<forall>x. z = Inr x \<longrightarrow> R = {n}" by blast
          have e2: "edited w u2 (minus_entries (entry w) d R)"
            using edited_minus_trans [OF e1 R(2)] by simp
          have fd2: "fd_ino u2 dir = Some d" using edited_fd_ino [OF R(2)] fd1 by simp
          have c2: "z = Inr x \<Longrightarrow> counted u2 d n = None" for x
            using counted_minus [OF R(2)] R(3) by simp
          show ?thesis
          proof (cases "length n = 36")
            case temp: True
            show ?thesis
            proof (cases "st")
              case start: True
              show ?thesis
              proof (cases z)
                case (Inr a)
                with Cons.prems(1) x rd name s \<open>s = Inr stt\<close> good temp start z
                have "prune_scan dir st names (es0 @ []) b0 ok0 u2 = (es, b, ok, v)" by simp
                then show ?thesis using c2 [OF Inr] R(1) by (intro go [OF _ e2 _ fd2]) auto
              next
                case (Inl e)
                show ?thesis
                proof (cases "nat (st_size stt) > SIZE_MAX - b0")
                  case True
                  with Cons.prems(1) x rd name s \<open>s = Inr stt\<close> good temp start z Inl
                  have "es = es0" "b = b0" "\<not> ok" "v = u2" by simp_all
                  with scan_result_stop [OF e2 R(1)] name show ?thesis by simp
                next
                  case False
                  with Cons.prems(1) x rd name s \<open>s = Inr stt\<close> good temp start z Inl
                  have "prune_scan dir st names (es0 @ []) (b0 + nat (st_size stt)) False u2 = (es, b, ok, v)" by simp
                  then show ?thesis using R(1) by (intro go [OF _ e2 _ fd2]) auto
                qed
              qed
            next
              case start: False
              show ?thesis
              proof (cases "nat (st_size stt) > SIZE_MAX - b0")
                case True
                with Cons.prems(1) x rd name s Inr good temp start
                have "es = es0" "b = b0" "\<not> ok" "v = u1" by simp_all
                with scan_result_stop [OF e1] show ?thesis by simp
              next
                case False
                with Cons.prems(1) x rd name s Inr good temp start
                have "prune_scan dir st names (es0 @ []) (b0 + nat (st_size stt)) ok0 u1 = (es, b, ok, v)" by simp
                then show ?thesis using cn temp by (intro go [OF _ e1 _ fd1]) auto
              qed
            qed
          next
            case long: False
            then have l64: "length n = 64" using cache_name_length [OF name] by simp
            show ?thesis
            proof (cases "length es0 = max_listed")
              case full: True
              have "\<exists>ok1. prune_scan dir st names (es0 @ []) b0 ok1 u2 = (es, b, ok, v) \<and>
                  (ok1 \<longrightarrow> ok0 \<and> (\<exists>a. z = Inr a))"
                using Cons.prems(1) x rd name s Inr good long full z by (cases z) auto
              then obtain ok1 where ps: "prune_scan dir st names (es0 @ []) b0 ok1 u2 = (es, b, ok, v)"
                and "ok1 \<longrightarrow> ok0 \<and> (\<exists>a. z = Inr a)" by blast
              then show ?thesis
                using c2 by (intro go [OF ps e2 R(1) fd2]) auto
            next
              case room: False
              show ?thesis
              proof (cases "nat (st_size stt) > SIZE_MAX - b0")
                case True
                with Cons.prems(1) x rd name s Inr good long room
                have "es = es0" "b = b0" "\<not> ok" "v = u1" by simp_all
                with scan_result_stop [OF e1] show ?thesis by simp
              next
                case False
                with Cons.prems(1) x rd name s Inr good long room
                have "prune_scan dir st names (es0 @ [\<lparr>ce_name = n, ce_bytes = nat (st_size stt),
                    ce_used = st_mtim stt\<rparr>]) (b0 + nat (st_size stt)) ok0 u1 = (es, b, ok, v)" by simp
                then show ?thesis using cn l64 room by (intro go [OF _ e1 _ fd1]) auto
              qed
            qed
          qed
        qed
      qed
    qed
  qed
qed

text \<open>The eviction loop removes a prefix of the sorted entries, just enough of them.\<close>

definition over :: "nat \<Rightarrow> nat \<Rightarrow> nat \<Rightarrow> nat \<Rightarrow> bool" where
  "over budget max_entries bytes remaining \<longleftrightarrow> bytes > budget \<or> remaining > max_entries"

definition bytes_of :: "cache_entry list \<Rightarrow> nat" where
  "bytes_of es = sum_list (map ce_bytes es)"

lemma evict_effect:
  "evict dir budget limit es b r ok w = (b', r', ok', v) \<Longrightarrow> fd_ino w dir = Some d \<Longrightarrow>
   \<forall>e \<in> set es. cache_name (ce_name e) \<Longrightarrow>
   \<exists>k R. k \<le> length es \<and> R \<subseteq> ce_name ` set (take k es) \<and> edited w v (minus_entries (entry w) d R) \<and>
     (ok' \<longrightarrow> ok \<and> R = ce_name ` set (take k es) \<and> b' = b - bytes_of (take k es) \<and> r' = r - k \<and>
       (k < length es \<longrightarrow> \<not> over budget limit b' r') \<and>
       (\<forall>j < k. over budget limit (b - bytes_of (take j es)) (r - j)))"
proof (induction es arbitrary: b r ok w)
  case Nil
  then show ?case
    using edited_minus_quiet [OF quiet_refl, of w d] by (intro exI [of _ 0] exI [of _ "{}"]) (auto simp: bytes_of_def)
next
  case (Cons e es)
  show ?case
  proof (cases "over budget limit b r")
    case False
    with Cons.prems(1) have "v = w" "b' = b" "r' = r" "ok' = ok" by (auto simp: over_def)
    with False show ?thesis
      using edited_minus_quiet [OF quiet_refl, of w d]
      by (intro exI [of _ 0] exI [of _ "{}"]) (auto simp: bytes_of_def)
  next
    case True
    have pl: "plain_name (ce_name e)" using Cons.prems(3) by (auto intro: cache_name_plain)
    have names: "\<forall>e \<in> set es. cache_name (ce_name e)" using Cons.prems(3) by simp
    obtain z u where z: "sys_unlinkat dir (ce_name e) False w = (z, u)" by fastforce
    from unlink_minus [OF z pl Cons.prems(2)] obtain S where
      S: "S \<subseteq> {ce_name e}" "edited w u (minus_entries (entry w) d S)" "\<forall>x. z = Inr x \<longrightarrow> S = {ce_name e}"
      by blast
    have fdu: "fd_ino u dir = Some d" using edited_fd_ino [OF S(2)] Cons.prems(2) by simp
    show ?thesis
    proof (cases z)
      case (Inl x)
      with Cons.prems(1) True z have "evict dir budget limit es b r False u = (b', r', ok', v)"
        by (simp add: over_def)
      from Cons.IH [OF this fdu names] obtain k R where
        "k \<le> length es" "R \<subseteq> ce_name ` set (take k es)" "edited u v (minus_entries (entry u) d R)" "\<not> ok'"
        by blast
      with edited_minus_trans [OF S(2)] S(1) show ?thesis
        by (intro exI [of _ "Suc k"] exI [of _ "S \<union> R"]) auto
    next
      case (Inr x)
      with Cons.prems(1) True z have "evict dir budget limit es (b - ce_bytes e) (r - 1) ok u = (b', r', ok', v)"
        by (simp add: over_def)
      from Cons.IH [OF this fdu names] obtain k R where
        k: "k \<le> length es" "R \<subseteq> ce_name ` set (take k es)" "edited u v (minus_entries (entry u) d R)"
        "ok' \<longrightarrow> ok \<and> R = ce_name ` set (take k es) \<and> b' = b - ce_bytes e - bytes_of (take k es) \<and> r' = r - 1 - k \<and>
         (k < length es \<longrightarrow> \<not> over budget limit b' r') \<and>
         (\<forall>j < k. over budget limit (b - ce_bytes e - bytes_of (take j es)) (r - 1 - j))"
        by blast
      have s: "S = {ce_name e}" using S(3) Inr by blast
      have pre: "over budget limit (b - bytes_of (take j (e # es))) (r - j)"
        if "j < Suc k" "\<forall>j < k. over budget limit (b - ce_bytes e - bytes_of (take j es)) (r - 1 - j)" for j
        using that True by (cases j) (auto simp: bytes_of_def)
      show ?thesis
        using k edited_minus_trans [OF S(2) k(3)] s pre
        by (intro exI [of _ "Suc k"] exI [of _ "S \<union> R"]) (auto simp: bytes_of_def)
    qed
  qed
qed

section \<open>Pruning as a whole\<close>

lemma qsort_entries:
  "set (if length es > 1 then qsort oldest es else es) = set es"
  "length (if length es > 1 then qsort oldest es else es) = length es"
  "bytes_of (if length es > 1 then qsort oldest es else es) = bytes_of es"
  "distinct (map ce_name (if length es > 1 then qsort oldest es else es)) = distinct (map ce_name es)"
  by (auto simp: entry_sort.same_set entry_sort.same_length entry_sort.same_sum bytes_of_def
    entry_sort.same_distinct)

lemma closedir_quiet:
  assumes "sys_closedir fd w = (ok, v)"
  shows "\<exists>u. quiet w u \<and> v = sys_close fd u"
proof -
  have "quiet w (snd (tick w))"
    by (cases "w_script w") (auto simp: tick_def quiet_def fewer_faults_def)
  moreover have "v = sys_close fd (snd (tick w))" using assms by (auto simp: sys_closedir_def split_beta)
  ultimately show ?thesis by blast
qed

lemma counted_close [simp]: "counted (sys_close fd w) d n = counted w d n"
  unfolding counted_def close_lookups close_contents close_fields ..

text \<open>
  The calls of a run that gets past opening the directory: the scan in \<open>w1\<close>, the closed
  stream in \<open>w3\<close>, the eviction from there.
\<close>

lemma prune_run:
  assumes "zc_cache_prune dir budget limit startup usage w = (ok, usage', v)" and "wf_fds w"
  obtains (refused) "\<not> ok" "returned w v"
  | (ran) d p al copy w1 es b ok1 w2 w3 ok3 b' r' ok' where
      "fd_ino w dir = Some d" "dir_of w d = Some (p, al)"
      "opened w w1 copy d False"
      "prune_scan dir startup (''.'' # ''..'' # map fst al) [] 0 True w1 = (es, b, ok1, w2)"
      "\<exists>u. quiet w2 u \<and> w3 = sys_close copy u" "ok3 \<longrightarrow> ok1"
      "(if over budget limit b (length es) then evict dir budget limit
          (if length es > 1 then qsort oldest es else es) b (length es) ok3 w3
        else (b, length es, ok3, w3)) = (b', r', ok', v)"
      "ok \<longleftrightarrow> ok' \<and> \<not> over budget limit b' r'"
      "ok \<longrightarrow> usage' = \<lparr>cu_bytes = b', cu_entries = r'\<rparr>"
proof -
  obtain x w0 where x: "sys_openat dir ''.'' [O_RDONLY, O_DIRECTORY, O_CLOEXEC] 0 w = (x, w0)" by fastforce
  show thesis
  proof (cases x)
    case (Inl e)
    with x openat_dir_errD [of dir "''.''" "[O_RDONLY, O_DIRECTORY, O_CLOEXEC]" 0 w e w0] assms(1) show ?thesis
      by (intro refused) (auto simp: zc_cache_prune_def quiet_returned)
  next
    case (Inr copy)
    with x openat_dot_okD [of dir "[O_RDONLY, O_DIRECTORY, O_CLOEXEC]" 0 w copy w0] obtain d where
      d: "fd_ino w dir = Some d" "opened w w0 copy d False" by auto
    obtain y w1 where y: "sys_fdopendir copy w0 = (y, w1)" by fastforce
    have q: "quiet w0 w1" by (rule fdopendir_quiet [OF y])
    show ?thesis
    proof (cases y)
      case (Inl e)
      with x Inr y assms(1) have "\<not> ok" "v = sys_close copy w1" by (auto simp: zc_cache_prune_def)
      with opened_closed [OF d(2) assms(2) q] show ?thesis by (intro refused) auto
    next
      case (Inr names)
      from fdopendir_okD [OF y [unfolded Inr]] opened_lookups(1,6) [OF d(2)] obtain p al where
        al: "dir_of w d = Some (p, al)" "names = ''.'' # ''..'' # map fst al" by auto
      obtain es b ok1 w2 where sc: "prune_scan dir startup names [] 0 True w1 = (es, b, ok1, w2)"
        by (metis prod_cases4)
      obtain cl w3 where cl: "sys_closedir copy w2 = (cl, w3)" by fastforce
      obtain b' r' ok' v' where ev: "(if over budget limit b (length es) then evict dir budget limit
          (if length es > 1 then qsort oldest es else es) b (length es) (ok1 \<and> cl) w3
        else (b, length es, ok1 \<and> cl, w3)) = (b', r', ok', v')"
        by (metis prod_cases4)
      have "zc_cache_prune dir budget limit startup usage w =
        (if \<not> ok' \<or> b' > budget \<or> r' > limit then (False, usage, v')
         else (True, \<lparr>cu_bytes = b', cu_entries = r'\<rparr>, v'))"
        using x \<open>x = Inr copy\<close> y Inr sc cl ev
        by (simp add: zc_cache_prune_def over_def Let_def)
      with assms(1) have "v = v'" "ok \<longleftrightarrow> ok' \<and> \<not> over budget limit b' r'"
        "ok \<longrightarrow> usage' = \<lparr>cu_bytes = b', cu_entries = r'\<rparr>"
        by (auto simp: over_def split: if_splits)
      with d(1) al opened_quiet [OF d(2) q] sc closedir_quiet [OF cl] ev show ?thesis
        by (intro ran [of d p al w1 copy es b ok1 w2 w3 "ok1 \<and> cl"]) auto
    qed
  qed
qed

lemma counted_dom: "counted w d n \<noteq> None \<Longrightarrow> entry w d n \<noteq> None"
  by (auto simp: counted_def split: option.splits)

lemma sum_bytes_names:
  assumes "distinct (map ce_name es)" and "\<forall>e \<in> set es. f (ce_name e) = ce_bytes e"
  shows "(\<Sum>n \<in> ce_name ` set es. f n) = bytes_of es"
proof -
  have "inj_on ce_name (set es)" "distinct es" using assms(1) by (auto simp: distinct_map)
  then have "(\<Sum>n \<in> ce_name ` set es. f n) = (\<Sum>e \<in> set es. f (ce_name e))"
    by (simp add: sum.reindex)
  also have "\<dots> = (\<Sum>e \<in> set es. ce_bytes e)" using assms(2) by simp
  also have "\<dots> = bytes_of es" using \<open>distinct es\<close> by (simp add: bytes_of_def sum_list_distinct_conv_sum_set)
  finally show ?thesis .
qed

lemma prune_run_state:
  assumes "opened w w1 copy d False" and "wf_fds w" and "fd_ino w dir = Some d"
    and "edited w1 w2 (minus_entries (entry w1) d R)" and "quiet w2 u" and "w3 = sys_close copy u"
  shows "disk_edit w w3 (minus_entries (entry w) d R) \<and> w_files w3 = w_files w \<and>
    fd_ino w3 dir = Some d \<and> (\<forall>n. counted w3 d n = counted w2 d n) \<and>
    (\<forall>n. counted w2 d n = (if n \<in> R then None else counted w d n))"
proof -
  have e1: "entry w1 = entry w" using disk_edit_entry [OF disk_edit_frames(2) [OF assms(1)]] .
  have "disk_edit w w2 (minus_entries (entry w) d R)"
    using disk_edit_trans [OF disk_edit_frames(2) [OF assms(1)] disk_edit_edited [OF assms(4)]] e1 by simp
  then have "disk_edit w u (entry u)" "entry u = minus_entries (entry w) d R"
    using disk_edit_trans [OF _ disk_edit_frames(1) [OF assms(5)]] quiet_entry [OF assms(5)] disk_edit_entry
    by fastforce+
  then have d: "disk_edit w w3 (minus_entries (entry w) d R)" using assms(6) by simp
  have f: "w_files w3 = w_files w"
    using assms by (auto simp: opened_def edited_def quiet_def wf_fds_def fun_upd_idem)
  have "counted w1 d n = counted w d n" for n
    using assms(1) by (intro counted_same) (simp add: opened_def)
  with counted_minus [OF assms(4)] counted_quiet [OF assms(5)] d f assms(3,6) show ?thesis
    by (simp add: fd_ino_def)
qed

section \<open>Reading\<close>

lemma pread_okD:
  assumes "sys_pread fd n off w = (Inr got, v)"
  shows "quiet w v \<and> (\<exists>i bs. fd_ino w fd = Some i \<and> file_bytes w i = Some bs \<and>
    got = take (length got) (drop off bs) \<and> length got \<le> n \<and>
    (got = [] \<longrightarrow> n = 0 \<or> length bs \<le> off))"
  using assms unfolding sys_pread_def
proof (cases rule: syscall_cases)
  case (run lim)
  then obtain f bs where f: "w_files w fd = Some f" "file_bytes w (f_ino f) = Some bs"
    and got: "got = take (if drop off bs = [] then 0 else max 1 (limited lim n)) (take n (drop off bs))"
    and v: "v = w\<lparr>w_script := tl (w_script w)\<rparr>"
    by (auto simp: Let_def split: option.splits)
  have "got = take (length got) (drop off bs)" "length got \<le> n" "got = [] \<longrightarrow> n = 0 \<or> length bs \<le> off"
    using got by (auto simp: min_def split: if_splits)
  with f v show ?thesis by (auto simp: fd_ino_def)
qed auto

lemma pread_errD: "sys_pread fd n off w = (Inl e, v) \<Longrightarrow> quiet w v"
  unfolding sys_pread_def
  by (cases rule: syscall_cases) (auto simp: Let_def split: option.splits intro: pops_quiet)

lemma pread_all_ok:
  "pread_all fd amount got w = (r, v) \<Longrightarrow> fd_ino w fd = Some i \<Longrightarrow> file_bytes w i = Some bs \<Longrightarrow>
   got = take (length got) bs \<Longrightarrow> length got \<le> amount \<Longrightarrow>
   quiet w v \<and> (\<forall>all. r = Some all \<longrightarrow> all = take amount bs \<and> length all = amount)"
proof (induction fd amount got w arbitrary: r v rule: pread_all.induct)
  case (1 fd amount got w)
  show ?case
  proof (cases "length got \<ge> amount")
    case True
    with "1.prems"(5) have len: "length got = amount" by simp
    have "got = take amount bs" using "1.prems"(4) unfolding len .
    moreover have "r = Some got" "v = w"
      using "1.prems"(1) True by (simp_all add: pread_all.simps [of fd amount got])
    ultimately show ?thesis using len by (metis option.inject quiet_refl)
  next
    case False
    obtain x u where x: "sys_pread fd (amount - length got) (length got) w = (x, u)" by fastforce
    have q: "quiet w u" using x by (cases x) (auto dest: pread_okD pread_errD)
    have fu: "fd_ino u fd = Some i" "file_bytes u i = Some bs"
      using "1.prems"(2,3) quiet_lookups(2,6) [OF q] by (auto simp: file_bytes_def)
    show ?thesis
    proof (cases x)
      case (Inl e)
      show ?thesis
      proof (cases "e = EINTR")
        case True
        with "1.prems"(1) False x Inl have "pread_all fd amount got u = (r, v)"
          by (simp add: pread_all.simps [of fd amount got])
        from "1.IH"(1) [OF False x [symmetric] Inl True this fu "1.prems"(4,5)] quiet_trans [OF q]
        show ?thesis by blast
      next
        case neq: False
        with "1.prems"(1) False x Inl q show ?thesis by (simp add: pread_all.simps [of fd amount got])
      qed
    next
      case (Inr part)
      show ?thesis
      proof (cases "part = []")
        case True
        with "1.prems"(1) False x Inr q show ?thesis by (simp add: pread_all.simps [of fd amount got])
      next
        case neq: False
        with "1.prems"(1) False x Inr have rec: "pread_all fd amount (got @ part) u = (r, v)"
          by (simp add: pread_all.simps [of fd amount got])
        from pread_okD [OF x [unfolded Inr]] "1.prems"(2,3) have
          p: "part = take (length part) (drop (length got) bs)" "length part \<le> amount - length got" by auto
        have "got @ part = take (length (got @ part)) bs"
          using p(1) "1.prems"(4) by (metis length_append take_add)
        moreover have "length (got @ part) \<le> amount" using p(2) False by simp
        ultimately show ?thesis
          using "1.IH"(2) [OF False x [symmetric] Inr neq rec fu] quiet_trans [OF q] by blast
      qed
    qed
  qed
qed

text \<open>Without scaling libjpeg's output has the dimensions of the header.\<close>

definition jpeg_unscaled :: "jpeg_lib \<Rightarrow> bool" where
  "jpeg_unscaled jpeg \<longleftrightarrow> (\<forall>bs w h c. jpeg_start jpeg bs = Some (w, h, c) \<longrightarrow> jpeg_header jpeg bs = Some (w, h))"

definition bounded_pixels :: "pixels \<Rightarrow> bool" where
  "bounded_pixels px \<longleftrightarrow> 0 < px_width px \<and> px_width px \<le> 2560 \<and> 0 < px_height px \<and> px_height px \<le> 2560 \<and>
     int (px_bytes px) = px_width px * px_height px * 4 \<and> length (px_data px) = px_bytes px \<and>
     px_bytes px \<le> 32 * 1024 * 1024"

lemma decode_png_bounded:
  assumes "decode_png png bs no_pixels = (True, out)" shows "bounded_pixels out"
proof -
  from assms obtain w h fill where d: "dimensions (int w) (int h)"
    and o: "out = no_pixels\<lparr>px_bytes := w * h * 4, px_data := map fill [0..<w * h * 4],
      px_width := int w, px_height := int h\<rparr>"
    by (auto simp: decode_png_def Let_def split: option.splits if_splits)
  from d have "w * h * 4 \<le> 32 * 1024 * 1024" "0 < w" "0 < h" "w \<le> 2560" "h \<le> 2560"
    by (simp_all add: dimensions_def PIXEL_LIMIT_def)
  then show ?thesis unfolding o bounded_pixels_def by simp
qed

lemma scanlines_length: "scanlines line row ys = Some data \<Longrightarrow> length data = row * length ys"
  by (induction ys arbitrary: data) (auto split: option.splits)

lemma decode_jpeg_bounded:
  assumes "decode_jpeg jpeg bs no_pixels = (True, out)" and "jpeg_unscaled jpeg" shows "bounded_pixels out"
proof -
  from assms(1) obtain iw ih w h data where hd: "jpeg_header jpeg bs = Some (iw, ih)"
    "dimensions (int iw) (int ih)" "jpeg_start jpeg bs = Some (w, h, 4)"
    and sc: "scanlines (jpeg_line jpeg bs) (w * 4) [0..<h] = Some data"
    and o: "out = \<lparr>px_data = data, px_bytes = w * h * 4, px_width = int w, px_height = int h\<rparr>"
    by (auto simp: decode_jpeg_def Let_def split: option.splits if_splits prod.splits)
  from hd assms(2) have "iw = w" "ih = h" by (auto simp: jpeg_unscaled_def)
  with hd(2) have "w * h * 4 \<le> 32 * 1024 * 1024" "0 < w" "0 < h" "w \<le> 2560" "h \<le> 2560"
    by (simp_all add: dimensions_def PIXEL_LIMIT_def)
  with scanlines_length [OF sc] show ?thesis unfolding o bounded_pixels_def by simp
qed

section \<open>Properties\<close>

text \<open>
  Pruning is confined: whatever calls fail, it removes only cache names from the cache
  directory, adds nothing, changes no file's contents and leaves no descriptor open.
\<close>

theorem zc_cache_prune_confined:
  assumes "zc_cache_prune dir budget limit startup usage w = (ok, usage', v)" and "wf_fds w"
  shows "w_files v = w_files w \<and> (\<forall>i. file_bytes v i = file_bytes w i) \<and>
    (\<forall>d n. entry v d n = entry w d n \<or> entry v d n = None \<and> fd_ino w dir = Some d \<and> cache_name n)"
  using assms
proof (cases rule: prune_run)
  case refused
  with disk_edit_frames(3) [OF refused(2)] show ?thesis by (auto simp: returned_def disk_edit_def)
next
  case (ran d p al copy w1 es b ok1 w2 w3 ok3 b' r' ok')
  have "fd_ino w1 dir = Some d"
    using ran(1,3) assms(2) by (auto simp: opened_def fd_ino_def wf_fds_def)
  from prune_scan_result [OF ran(4) this] obtain R new where
    R: "R \<subseteq> {n. cache_name n}" "edited w1 w2 (minus_entries (entry w1) d R)"
      "es = new" "\<forall>e \<in> set new. cache_name (ce_name e)"
    by (auto simp: scan_result_def)
  from ran(5) obtain u where u: "quiet w2 u" "w3 = sys_close copy u" by blast
  note st = prune_run_state [OF ran(3) assms(2) ran(1) R(2) u]
  have "\<exists>S \<subseteq> {n. cache_name n}. edited w3 v (minus_entries (entry w3) d S)"
  proof (cases "over budget limit b (length es)")
    case True
    have "\<forall>e \<in> set (if length es > 1 then qsort oldest es else es). cache_name (ce_name e)"
      using R(3,4) unfolding qsort_entries(1) by simp
    from evict_effect [OF _ _ this, of dir budget limit b "length es" ok3 w3 b' r' ok' v d] st ran(7) True
    obtain k S where "S \<subseteq> ce_name ` set (take k (if length es > 1 then qsort oldest es else es))"
      "edited w3 v (minus_entries (entry w3) d S)" by auto
    with R(3,4) qsort_entries(1) [of es] set_take_subset [of k "if length es > 1 then qsort oldest es else es"]
    show ?thesis by (intro exI [of _ S]) blast
  next
    case False
    with ran(7) have "v = w3" by simp
    then show ?thesis using edited_minus_quiet [OF quiet_refl] by (intro exI [of _ "{}"]) auto
  qed
  then obtain S where S: "S \<subseteq> {n. cache_name n}" "edited w3 v (minus_entries (entry w3) d S)" by blast
  have "disk_edit w v (minus_entries (minus_entries (entry w) d R) d S)"
    using disk_edit_trans [OF conjunct1 [OF st] disk_edit_edited [OF S(2)]]
      disk_edit_entry [OF conjunct1 [OF st]] by simp
  with S R(1) ran(1) st S(2) show ?thesis
    by (auto simp: disk_edit_def minus_entries_apply edited_def)
qed

text \<open>What is left of a directory after the first \<open>k\<close> of its accounted entries are gone.\<close>

lemma accounts_evicted:
  assumes acc: "accounts w d names es b" and same: "set fs = set es" "distinct (map ce_name fs)" "length fs = length es"
    and k: "k \<le> length fs" and cv: "\<And>n. counted v d n = (if n \<in> ce_name ` set (take k fs) then None else counted w d n)"
    and inN: "\<And>n. counted w d n \<noteq> None \<Longrightarrow> n \<in> set names"
  shows "card {n. cache_name n \<and> length n = 64 \<and> counted v d n \<noteq> None} = length es - k"
    and "(\<Sum>n | cache_name n \<and> counted v d n \<noteq> None. the (counted v d n)) = b - bytes_of (take k fs)"
proof -
  let ?K = "take k fs" and ?C = "cache_names_in w d (set names)"
  let ?S = "ce_name ` set ?K"
  have live: "{n. cache_name n \<and> counted v d n \<noteq> None} = ?C - ?S"
    using inN by (auto simp: cache_names_in_def cv)
  have sub: "?S \<subseteq> {n \<in> ?C. length n = 64}"
  proof -
    have "?S \<subseteq> set (map ce_name es)" using set_take_subset [of k fs] same(1) by auto
    then show ?thesis using acc unfolding accounts_def by blast
  qed
  have card_all: "card {n \<in> ?C. length n = 64} = length es"
    using acc distinct_card [of "map ce_name es"] by (simp add: accounts_def)
  have dk: "distinct (map ce_name ?K)" using same(2) by (simp add: take_map [symmetric])
  then have card_S: "card ?S = k" using distinct_card [OF dk] k by simp
  have "card {n. cache_name n \<and> length n = 64 \<and> counted v d n \<noteq> None} = card ({n \<in> ?C. length n = 64} - ?S)"
    using live by (intro arg_cong [where f = card]) blast
  also have "\<dots> = length es - k" using sub card_all card_S by (simp add: card_Diff_subset)
  finally show "card {n. cache_name n \<and> length n = 64 \<and> counted v d n \<noteq> None} = length es - k" .
  have fin: "finite ?C" by (simp add: cache_names_in_def)
  have vals: "\<forall>e \<in> set ?K. the (counted w d (ce_name e)) = ce_bytes e"
    using acc set_take_subset [of k fs] same(1) unfolding accounts_def by (metis option.sel subsetD)
  have "(\<Sum>n \<in> ?C - ?S. the (counted v d n)) = (\<Sum>n \<in> ?C - ?S. the (counted w d n))"
    by (intro sum.cong) (auto simp: cv)
  also have "\<dots> = (\<Sum>n \<in> ?C. the (counted w d n)) - (\<Sum>n \<in> ?S. the (counted w d n))"
    by (rule sum_diff_nat) (use sub in blast)+
  also have "\<dots> = b - bytes_of ?K" using acc sum_bytes_names [OF dk vals] by (simp add: accounts_def tally_def)
  finally show "(\<Sum>n | cache_name n \<and> counted v d n \<noteq> None. the (counted v d n)) = b - bytes_of (take k fs)"
    using live by simp
qed

text \<open>
  C25: Reported usage is authoritative: when pruning succeeds, the reported numbers are within
  the limits and are exactly the number of entries, and the sum of the sizes of entries and
  temporaries, that the cache directory has afterwards.
\<close>

theorem zc_cache_prune_authoritative:
  assumes "zc_cache_prune dir budget limit startup usage w = (True, usage', v)" and "wf_fds w"
    and "fd_ino w dir = Some d" and "dir_of w d = Some (p, al)" and "distinct (map fst al)"
    and "wf_dirs w"
  shows "cu_bytes usage' \<le> budget \<and> cu_entries usage' \<le> limit \<and>
    cu_entries usage' = card {n. cache_name n \<and> length n = 64 \<and> counted v d n \<noteq> None} \<and>
    cu_bytes usage' = (\<Sum>n | cache_name n \<and> counted v d n \<noteq> None. the (counted v d n))"
  using assms(1,2)
proof (cases rule: prune_run)
  case refused
  then show ?thesis by simp
next
  case (ran d' p' al' copy w1 es b ok1 w2 w3 ok3 b' r' ok')
  with assms(3,4) have d: "d' = d" "al' = al" by auto
  let ?names = "''.'' # ''..'' # map fst al"
  have fd1: "fd_ino w1 dir = Some d"
    using ran(1,3) d assms(2) by (auto simp: opened_def fd_ino_def wf_fds_def)
  from ran have ok: "ok'" "\<not> over budget limit b' r'" and us: "usage' = \<lparr>cu_bytes = b', cu_entries = r'\<rparr>"
    by auto
  let ?es = "if length es > 1 then qsort oldest es else es"
  have sc: "scan_result dir d ?names [] 0 True w1 es b ok1 w2"
    using prune_scan_result [OF ran(4) fd1 [folded d(1)]] d by simp
  then obtain R where R: "edited w1 w2 (minus_entries (entry w1) d R)" "\<forall>e \<in> set es. cache_name (ce_name e)"
    by (auto simp: scan_result_def)
  from ran(5) obtain u where u: "quiet w2 u" "w3 = sys_close copy u" by blast
  note st = prune_run_state [OF ran(3) [unfolded d] assms(2,3) R(1) u]
  have c3: "counted w3 d n = counted w2 d n" for n using st by blast
  have names: "\<forall>e \<in> set ?es. cache_name (ce_name e)" using R(2) qsort_entries(1) by auto
  have "n \<noteq> ''.'' \<and> n \<noteq> ''..''" if "n \<in> fst ` set al" for n
  proof -
    have "entry w d n \<noteq> None"
      using that assms(4) by (simp add: entry_def map_of_eq_None_iff)
    with assms(6) show ?thesis by (auto simp: wf_dirs_def)
  qed
  then have dist: "distinct ?names" using assms(5) by auto
  obtain k where k: "k \<le> length ?es" "ok3" "b' = b - bytes_of (take k ?es)" "r' = length es - k"
    and ev: "edited w3 v (minus_entries (entry w3) d (ce_name ` set (take k ?es)))"
  proof (cases "over budget limit b (length es)")
    case True
    with ran(7) have "evict dir budget limit ?es b (length es) ok3 w3 = (b', r', ok', v)" by simp
    from evict_effect [OF this _ names] st ok(1) show ?thesis by (auto intro: that)
  next
    case False
    with ran(7) ok(1) edited_minus_quiet [OF quiet_refl, of w3 d] show ?thesis
      by (intro that [of 0]) (auto simp: bytes_of_def)
  qed
  have acc: "accounts w2 d ?names es b"
    using sc k(2) ran(6) dist by (auto simp: scan_result_def)
  have cv: "counted v d n = (if n \<in> ce_name ` set (take k ?es) then None else counted w2 d n)" for n
    using counted_minus [OF ev] c3 by simp
  have inN: "n \<in> set ?names" if "counted w2 d n \<noteq> None" for n
  proof -
    from that st have "counted w d n \<noteq> None" by (auto split: if_splits)
    then have "entry w d n \<noteq> None" by (rule counted_dom)
    then show ?thesis using assms(4) by (auto simp: entry_def map_of_eq_None_iff image_iff dest: map_of_SomeD)
  qed
  have same: "set ?es = set es" "distinct (map ce_name ?es)" "length ?es = length es"
    using acc qsort_entries by (auto simp: accounts_def)
  show ?thesis using accounts_evicted [OF acc same k(1) cv inN] us k(3,4) ok(2) by (simp add: over_def)
qed

text \<open>
  C24: Eviction is least recently used: when it removes entries without an error, every removed
  entry was used no later than every entry it keeps, by seconds and then nanoseconds, the kept
  ones are untouched, and it stops as soon as the limits hold (one removal less would still have exceeded them).
\<close>

theorem zc_cache_evict_lru:
  assumes "evict dir budget limit (qsort oldest es) bytes remaining ok w = (b', r', True, v)"
    and "fd_ino w dir = Some d" and "\<forall>e \<in> set es. cache_name (ce_name e)" and "distinct (map ce_name es)"
  shows "\<exists>gone kept. mset es = mset gone + mset kept \<and>
    (\<forall>e \<in> set gone. entry v d (ce_name e) = None) \<and>
    (\<forall>e \<in> set kept. entry v d (ce_name e) = entry w d (ce_name e)) \<and>
    (\<forall>e \<in> set gone. \<forall>f \<in> set kept. fst (ce_used e) < fst (ce_used f) \<or>
       fst (ce_used e) = fst (ce_used f) \<and> snd (ce_used e) \<le> snd (ce_used f)) \<and>
    b' = bytes - bytes_of gone \<and> r' = remaining - length gone \<and>
    (kept \<noteq> [] \<longrightarrow> b' \<le> budget \<and> r' \<le> limit) \<and>
    (gone \<noteq> [] \<longrightarrow> bytes - bytes_of (butlast gone) > budget \<or> remaining - (length gone - 1) > limit)"
proof -
  let ?es = "qsort oldest es"
  have "\<forall>e \<in> set ?es. cache_name (ce_name e)" using assms(3) by (simp add: entry_sort.same_set)
  from evict_effect [OF assms(1,2) this] obtain k where k: "k \<le> length ?es"
    "edited w v (minus_entries (entry w) d (ce_name ` set (take k ?es)))"
    "b' = bytes - bytes_of (take k ?es)" "r' = remaining - k"
    "k < length ?es \<longrightarrow> \<not> over budget limit b' r'"
    "\<forall>j < k. over budget limit (bytes - bytes_of (take j ?es)) (remaining - j)"
    by auto
  have d: "distinct (map ce_name (take k ?es @ drop k ?es))"
    using assms(4) by (simp add: entry_sort.same_distinct)
  have ent: "entry v = minus_entries (entry w) d (ce_name ` set (take k ?es))"
    using k(2) by (simp add: edited_def)
  have m: "mset es = mset (take k ?es) + mset (drop k ?es)"
    by (metis append_take_drop_id entry_sort.perm mset_append)
  have kept: "\<forall>e \<in> set (drop k ?es). entry v d (ce_name e) = entry w d (ce_name e)"
    using d unfolding ent map_append distinct_append by (auto simp: minus_entries_apply)
  have gone: "\<forall>e \<in> set (take k ?es). entry v d (ce_name e) = None"
    unfolding ent by (auto simp: minus_entries_apply)
  have ord: "\<forall>e \<in> set (take k ?es). \<forall>f \<in> set (drop k ?es). fst (ce_used e) < fst (ce_used f) \<or>
      fst (ce_used e) = fst (ce_used f) \<and> snd (ce_used e) \<le> snd (ce_used f)"
    unfolding oldest_le [symmetric]
  proof (intro ballI)
    fix e f
    assume "e \<in> set (take k ?es)" "f \<in> set (drop k ?es)"
    then show "oldest e f \<le> 0"
      by (rule entry_sort.prefix_first [where cmp = oldest, OF oldest_total, rotated]) (rule oldest_trans)
  qed
  have len: "length (take k ?es) = k" using k(1) by simp
  have need: "take k ?es \<noteq> [] \<longrightarrow> bytes - bytes_of (butlast (take k ?es)) > budget \<or>
      remaining - (length (take k ?es) - 1) > limit"
    using k(1) k(6) [rule_format, of "k - 1"] by (auto simp: over_def butlast_take min_def)
  have fits: "drop k ?es \<noteq> [] \<longrightarrow> b' \<le> budget \<and> r' \<le> limit"
    using k(5) by (auto simp: over_def)
  from k(4) have "r' = remaining - length (take k ?es)" unfolding len .
  with m kept gone ord need fits k(3) show ?thesis by blast
qed

text \<open>
  C38: Reading an image hands the decoder exactly the bytes of the file, and only of a regular
  file of the user with mode 0600, one link and 8 bytes to 8 MiB, recognised by its signature;
  the pixels it returns are within 2560 by 2560 and 32 MiB of RGBA and fill their buffer. On
  any failure no pixels are returned. The descriptor's offset, the disk and the other
  descriptors are unchanged.
\<close>

theorem zc_image_read_fd_exact:
  assumes "zc_image_read_fd png jpeg fd w = (r, out, v)" and "jpeg_unscaled jpeg"
  shows "quiet w v \<and> (r = -1 \<and> out = no_pixels \<or>
    r = 1 \<and> bounded_pixels out \<and> (\<exists>i nd bs. fd_ino w fd = Some i \<and> w_inodes w i = Some nd \<and>
      i_node nd = Regular bs \<and> i_uid nd = w_uid w \<and> i_mode nd AND M0777 = M0600 \<and> i_nlink nd = 1 \<and>
      8 \<le> length bs \<and> length bs \<le> 8 * 1024 * 1024 \<and>
      (take 8 bs = png_signature \<and> decode_png png bs no_pixels = (True, out) \<or>
       take 3 bs = [CHR 0xFF, CHR 0xD8, CHR 0xFF] \<and> decode_jpeg jpeg bs no_pixels = (True, out))))"
proof -
  obtain s w1 where s: "sys_fstat fd w = (s, w1)" by fastforce
  have q1: "quiet w w1" using s fstat_okD fstat_errD by (cases s) blast+
  show ?thesis
  proof (cases "\<exists>st. s = Inr st \<and> image_st_ok (w_uid w1) st")
    case False
    with assms(1) s have "r = -1" "out = no_pixels" "v = w1"
      by (auto simp: zc_image_read_fd_def split: sum.splits if_splits)
    with q1 show ?thesis by simp
  next
    case True
    then obtain st where st: "s = Inr st" "image_st_ok (w_uid w1) st" by blast
    from fstat_okD [OF s [unfolded st(1)]] obtain i nd where
      i: "fd_ino w fd = Some i" "w_inodes w i = Some nd" "st = stat_of i nd" by blast
    from st(2) i obtain bs where bs: "i_node nd = Regular bs"
      by (cases "i_node nd") (auto simp: image_st_ok_def S_ISREG_def stat_of_def)
    have sz: "nat (st_size st) = length bs" using i bs by (simp add: stat_of_def)
    have f1: "fd_ino w1 fd = Some i" "file_bytes w1 i = Some bs"
      using i bs quiet_lookups(4,6) [OF q1] by (auto simp: file_bytes_def node_of_def)
    obtain x w2 where x: "pread_all fd (length bs) [] w1 = (x, w2)" by fastforce
    from pread_all_ok [OF x f1] have q2: "quiet w1 w2" and all: "\<And>b. x = Some b \<Longrightarrow> b = bs" by auto
    show ?thesis
    proof (cases x)
      case None
      with assms(1) s st sz x have "r = -1" "out = no_pixels" "v = w2"
        by (auto simp: zc_image_read_fd_def)
      with quiet_trans [OF q1 q2] show ?thesis by simp
    next
      case (Some b)
      with all have x': "x = Some bs" by simp
      obtain y w3 where y: "sys_pread fd 1 (length bs) w2 = (y, w3)" by fastforce
      have q3: "quiet w w3"
        using quiet_trans [OF quiet_trans [OF q1 q2]] y pread_okD pread_errD by (cases y) blast+
      let ?dec = "if take 8 bs = png_signature then decode_png png bs no_pixels
        else if bs ! 0 = CHR 0xFF \<and> bs ! 1 = CHR 0xD8 \<and> bs ! 2 = CHR 0xFF then decode_jpeg jpeg bs no_pixels
        else (False, no_pixels)"
      obtain ok px where dec: "?dec = (ok, px)" by fastforce
      have res: "zc_image_read_fd png jpeg fd w =
        (if y = Inr [] \<and> ok then (1, px, w3) else (-1, no_pixels, w3))"
        using s st sz x x' y dec by (simp add: zc_image_read_fd_def zc_pixels_free_def)
      show ?thesis
      proof (cases "y = Inr [] \<and> ok")
        case False
        with res assms(1) q3 show ?thesis by simp
      next
        case good: True
        with res assms(1) have r: "r = 1" "out = px" "v = w3" by simp_all
        have len: "8 \<le> length bs" "length bs \<le> 8 * 1024 * 1024"
          using st(2) i bs by (auto simp: image_st_ok_def stat_of_def ENCODED_LIMIT_def)
        then have t3: "take 3 bs = [bs ! 0, bs ! 1, bs ! 2]"
          by (simp add: take_3)
        have d: "take 8 bs = png_signature \<and> decode_png png bs no_pixels = (True, out) \<or>
            take 3 bs = [CHR 0xFF, CHR 0xD8, CHR 0xFF] \<and> decode_jpeg jpeg bs no_pixels = (True, out)"
          using dec good r(2) t3 by (auto split: if_splits)
        then have "bounded_pixels out" using decode_png_bounded decode_jpeg_bounded assms(2) by blast
        moreover have "i_uid nd = w_uid w" "i_mode nd AND M0777 = M0600" "i_nlink nd = 1"
          using st(2) i quiet_lookups(5) [OF q1] by (auto simp: image_st_ok_def stat_of_def)
        ultimately show ?thesis using r q3 i bs len d by auto
      qed
    qed
  qed
qed

section \<open>Concrete runs\<close>

definition key_a :: string where "key_a = replicate 64 (CHR ''a'')"
definition key_b :: string where "key_b = replicate 64 (CHR ''b'')"

lemma keys [simp]: "cache_name key_a" "cache_name key_b" "length key_a = 64" "length key_b = 64"
  "key_a \<noteq> key_b" "key_b \<noteq> key_a"
  by (simp_all add: key_a_def key_b_def cache_name_def lower_hex_def list_all_iff)

lemma dots_not_cached [simp]: "\<not> cache_name ''.''" "\<not> cache_name ''..''" "\<not> cache_name []"
  by (simp_all add: cache_name_def)

lemma keys_plain [simp]: "plain_name key_a" "plain_name key_b"
  by (simp_all add: cache_name_plain)

lemma keys_not_dots [simp]:
  "key_a \<noteq> []" "key_a \<noteq> ''.''" "key_a \<noteq> ''..''" "key_b \<noteq> []" "key_b \<noteq> ''.''" "key_b \<noteq> ''..''"
  using dots_not_cached keys(1,2) by metis+

text \<open>A cache directory (descriptor 4) with the entry \<open>key_a\<close> older than \<open>key_b\<close>.\<close>

definition cache_world :: world where
  "cache_world = (sample_world [])\<lparr>w_inodes := (\<lambda>i.
     if i = 1 then Some (sample_inode (Directory 0 [(key_b, 3), (key_a, 2)]) M0700)
     else if i = 2 then Some (sample_inode (Regular ''hi'') M0600)
     else if i = 3 then Some ((sample_inode (Regular ''abc'') M0600)\<lparr>i_mtime := (5, 0)\<rparr>) else None)\<rparr>"

lemma cache_world_facts:
  "wf_fds cache_world" "wf_dirs cache_world" "fd_ino cache_world 4 = Some 1"
  "dir_of cache_world 1 = Some (0, [(key_b, 3), (key_a, 2)])"
  using sample_wf(1) [of "[]"]
  by (auto simp: cache_world_def sample_world_def sample_inode_def wf_fds_def fd_ino_def dir_of_def
    wf_dirs_def entry_def split: if_splits)

lemmas cache_run = zc_cache_prune_def sys_closedir_def max_listed_def SIZE_MAX_def qsort_def oldest_def
  cache_world_def parent_of_plain parent_of_dot

lemma prune_sample:
  "zc_cache_prune 4 3 10 False \<lparr>cu_bytes = 0, cu_entries = 0\<rparr> cache_world =
    (True, \<lparr>cu_bytes = 3, cu_entries = 1\<rparr>,
     snd (snd (zc_cache_prune 4 3 10 False \<lparr>cu_bytes = 0, cu_entries = 0\<rparr> cache_world)))"
  by (simp add: cache_run posix_run del: parent_of_def)

theorem zc_cache_prune_authoritative_witness:
  "card {n. cache_name n \<and> length n = 64 \<and>
     counted (snd (snd (zc_cache_prune 4 3 10 False \<lparr>cu_bytes = 0, cu_entries = 0\<rparr> cache_world))) 1 n \<noteq> None} = 1"
  using zc_cache_prune_authoritative [OF prune_sample cache_world_facts(1,3,4) _ cache_world_facts(2)]
  by simp

theorem zc_cache_prune_confined_witness:
  "w_files (snd (snd (zc_cache_prune 4 3 10 False \<lparr>cu_bytes = 0, cu_entries = 0\<rparr> cache_world))) =
    w_files cache_world"
  using zc_cache_prune_confined [OF prune_sample cache_world_facts(1)] by blast

definition entries_sample :: "cache_entry list" where
  "entries_sample = [\<lparr>ce_name = key_b, ce_bytes = 3, ce_used = (5, 0)\<rparr>, \<lparr>ce_name = key_a, ce_bytes = 2, ce_used = (0, 0)\<rparr>]"

theorem zc_cache_evict_lru_witness:
  "\<exists>gone kept. mset entries_sample = mset gone + mset kept \<and>
     (\<forall>e \<in> set gone. \<forall>f \<in> set kept. fst (ce_used e) < fst (ce_used f) \<or>
        fst (ce_used e) = fst (ce_used f) \<and> snd (ce_used e) \<le> snd (ce_used f)) \<and> 3 = 5 - bytes_of gone"
proof -
  have "evict 4 3 10 (qsort oldest entries_sample) 5 2 True cache_world =
    (3, 1, True, snd (snd (snd (evict 4 3 10 (qsort oldest entries_sample) 5 2 True cache_world))))"
    by (simp add: entries_sample_def cache_run posix_run del: parent_of_def)
  from zc_cache_evict_lru [OF this cache_world_facts(3)] show ?thesis
    by (auto simp: entries_sample_def)
qed

definition sample_png :: png_lib where
  "sample_png = \<lparr>png_begin = (\<lambda>_. Some (1, 1)), png_finish = (\<lambda>_. Some (\<lambda>_. CHR 0xFF))\<rparr>"

definition sample_jpeg :: jpeg_lib where
  "sample_jpeg = \<lparr>jpeg_header = (\<lambda>_. Some (1, 1)), jpeg_start = (\<lambda>_. Some (1, 1, 4)),
     jpeg_line = (\<lambda>_ _. Some (\<lambda>_. CHR 0xFF)), jpeg_finish = (\<lambda>_. True)\<rparr>"

text \<open>A file with a PNG signature and one more byte, open as descriptor 5.\<close>

definition image_world :: world where
  "image_world = (sample_world [Ok, Short 4, Fail EINTR])\<lparr>w_inodes := (\<lambda>i. if i = 2
     then Some (sample_inode (Regular (png_signature @ ''x'')) M0600) else None),
     w_files := (\<lambda>fd. if fd = 5 then Some \<lparr>f_ino = 2, f_pos = 0, f_wr = False\<rparr> else None)\<rparr>"

theorem zc_image_read_fd_exact_witness:
  "fst (zc_image_read_fd sample_png sample_jpeg 5 image_world) = 1 \<and>
   bounded_pixels (fst (snd (zc_image_read_fd sample_png sample_jpeg 5 image_world)))"
proof -
  have "fst (zc_image_read_fd sample_png sample_jpeg 5 image_world) = 1"
    by (simp add: zc_image_read_fd_def image_world_def image_st_ok_def ENCODED_LIMIT_def pread_all.simps
      png_signature_def decode_png_def sample_png_def dimensions_def PIXEL_LIMIT_def posix_run)
  moreover have "jpeg_unscaled sample_jpeg" by (simp add: jpeg_unscaled_def sample_jpeg_def)
  ultimately show ?thesis
    using zc_image_read_fd_exact [of sample_png sample_jpeg 5 image_world]
    by (metis (no_types, lifting) one_neq_neg_one prod.collapse)
qed

end
