(* ===== verification/Notifications.thy ===== *)
theory Notifications
  imports Cache
begin

text \<open>
  \<open>src/client/notifications.c\<close>: desktop notifications over D-Bus, all on one thread.
  The component is a state machine: its record, one definition per entry point and callback,
  and \<open>notification_step\<close>, which runs one of them. GLib is not modelled; what it does for
  the component is in the state: \<open>n_calls\<close> are the asynchronous calls in flight (a
  \<open>Call\<close> each, completed in any order), \<open>n_sent\<close> the messages sent so far,
  \<open>n_freed\<close> whether the structure was freed. \<open>utf8\<close> (\<open>g_utf8_validate\<close>) and
  \<open>escape\<close> (\<open>g_markup_escape_text\<close>) are parameters. A NULL component is not
  represented. The serial and generation counters are natural numbers: a 64-bit counter of
  notifications does not wrap in practice.
\<close>

section \<open>State\<close>

definition LIMIT :: nat where "LIMIT = 64"
definition IMAGE_EDGE :: int where "IMAGE_EDGE = 128"

text \<open>The \<open>(iiibii@ay)\<close> of an image: width, height, row length, bytes.\<close>

record hint =
  h_width :: int
  h_height :: int
  h_stride :: int
  h_bytes :: "char list"

record notice =
  nt_chat :: "string option"
  nt_summary :: string
  nt_body :: string
  nt_token :: "string option"
  nt_image :: "hint option"
  nt_id :: nat
  nt_serial :: nat
  nt_pending :: bool

datatype message =
    CloseNotification nat
  | Notify string string "string list" "hint option"
  | GetCapabilities

datatype call_kind = NotifyCall | CapsCall

record call =
  c_kind :: call_kind
  c_generation :: nat
  c_serial :: nat
  c_slot :: nat

record notifications =
  n_refs :: nat
  n_subscribed :: bool
  n_serial :: nat
  n_generation :: nat
  n_stopped :: bool
  n_ready :: bool
  n_actions :: bool
  n_markup :: bool
  n_images :: bool
  n_bus :: bool
  n_owner :: "string option"
  n_notices :: "notice list"
  n_calls :: "call list"
  n_sent :: "message list"
  n_freed :: bool

definition empty_notice :: notice where
  "empty_notice = \<lparr>nt_chat = None, nt_summary = '''', nt_body = '''', nt_token = None, nt_image = None,
     nt_id = 0, nt_serial = 0, nt_pending = False\<rparr>"

definition zc_notifications_new :: notifications where
  "zc_notifications_new = \<lparr>n_refs = 1, n_subscribed = False, n_serial = 0, n_generation = 0,
     n_stopped = False, n_ready = False, n_actions = False, n_markup = False, n_images = False,
     n_bus = False, n_owner = None, n_notices = replicate LIMIT empty_notice, n_calls = [],
     n_sent = [], n_freed = False\<rparr>"

section \<open>Helpers\<close>

definition clear_notice :: "nat \<Rightarrow> notifications \<Rightarrow> notifications" where
  "clear_notice slot n = n\<lparr>n_notices := (n_notices n)[slot := empty_notice]\<rparr>"

definition release :: "notifications \<Rightarrow> notifications" where
  "release n = (let n = n\<lparr>n_refs := n_refs n - 1\<rparr> in
     if n_refs n \<noteq> 0 then n
     else n\<lparr>n_bus := False, n_owner := None, n_notices := replicate LIMIT empty_notice, n_freed := True\<rparr>)"

definition new_call :: "call_kind \<Rightarrow> nat \<Rightarrow> notifications \<Rightarrow> notifications" where
  "new_call kind slot n = n\<lparr>n_refs := n_refs n + 1,
     n_calls := n_calls n @ [\<lparr>c_kind = kind, c_generation = n_generation n,
       c_serial = nt_serial (n_notices n ! slot), c_slot = slot\<rparr>]\<rparr>"

definition close_id :: "nat \<Rightarrow> notifications \<Rightarrow> notifications" where
  "close_id i n = (if i \<noteq> 0 \<and> n_bus n \<and> n_owner n \<noteq> None
     then n\<lparr>n_sent := n_sent n @ [CloseNotification i]\<rparr> else n)"

definition notified :: "call \<Rightarrow> nat option \<Rightarrow> notifications \<Rightarrow> notifications" where
  "notified c reply n = release (case reply of
     Some i \<Rightarrow>
       if \<not> n_stopped n \<and> c_generation c = n_generation n then
         (let v = n_notices n ! c_slot c in
          if nt_chat v \<noteq> None \<and> nt_serial v = c_serial c
          then n\<lparr>n_notices := (n_notices n)[c_slot c := v\<lparr>nt_id := i\<rparr>]\<rparr>
          else close_id i n)
       else n
   | None \<Rightarrow>
       if c_generation c = n_generation n \<and> nt_serial (n_notices n ! c_slot c) = c_serial c
       then clear_notice (c_slot c) n else n)"

definition send_notice :: "(string \<Rightarrow> string) \<Rightarrow> nat \<Rightarrow> notifications \<Rightarrow> notifications" where
  "send_notice escape slot n = (let v = n_notices n ! slot in
     if \<not> n_ready n \<or> nt_chat v = None \<or> \<not> nt_pending v then n
     else let n = n\<lparr>n_notices := (n_notices n)[slot := v\<lparr>nt_pending := False\<rparr>]\<rparr>;
              im = (if n_images n then nt_image v else None);
              acts = (if n_actions n then [''default'', ''Open conversation''] else []);
              body = (if n_markup n then escape (nt_body v) else nt_body v);
              n = new_call NotifyCall slot (n\<lparr>n_sent := n_sent n @ [Notify (nt_summary v) body acts im]\<rparr>)
          in n\<lparr>n_notices := (n_notices n)[slot := (n_notices n ! slot)\<lparr>nt_image := None\<rparr>]\<rparr>)"

section \<open>Callbacks\<close>

definition capabilities :: "(string \<Rightarrow> string) \<Rightarrow> call \<Rightarrow> string list option \<Rightarrow> notifications \<Rightarrow> notifications" where
  "capabilities escape c reply n = release (
     if \<not> n_stopped n \<and> c_generation c = n_generation n then
       (let n = n\<lparr>n_actions := False, n_markup := False, n_images := False\<rparr>;
            n = (case reply of None \<Rightarrow> n
              | Some caps \<Rightarrow> n\<lparr>n_actions := ''actions'' \<in> set caps, n_markup := ''body-markup'' \<in> set caps,
                  n_images := ''icon-static'' \<in> set caps \<or> ''icon-multi'' \<in> set caps\<rparr>);
            n = n\<lparr>n_ready := True\<rparr>
        in fold (send_notice escape) [0..<LIMIT] n)
     else n)"

datatype signal_name = NotificationClosed | ActivationToken | ActionInvoked | OtherSignal

datatype parameters = UU nat nat | US nat string | OtherParameters

text \<open>
  \<open>action\<close> is the client's callback, \<open>None\<close> if there is none; what it does to the
  component by calling back is its result.
\<close>

definition signal_received :: "(string \<Rightarrow> string \<Rightarrow> notifications \<Rightarrow> notifications) option \<Rightarrow> string option \<Rightarrow>
    signal_name \<Rightarrow> parameters \<Rightarrow> notifications \<Rightarrow> notifications" where
  "signal_received action sender signal params n =
     (if n_stopped n \<or> sender \<noteq> n_owner n then n
      else let arguments = (case (signal, params) of
          (NotificationClosed, UU i reason) \<Rightarrow> Some (i, '''')
        | (ActivationToken, US i value) \<Rightarrow> Some (i, value)
        | (ActionInvoked, US i value) \<Rightarrow> Some (i, value)
        | _ \<Rightarrow> None) in
      case arguments of None \<Rightarrow> n
      | Some (i, value) \<Rightarrow>
          (case find (\<lambda>k. nt_chat (n_notices n ! k) \<noteq> None \<and> i \<noteq> 0 \<and> nt_id (n_notices n ! k) = i) [0..<LIMIT] of
             None \<Rightarrow> n
           | Some k \<Rightarrow>
               (let v = n_notices n ! k in
                case signal of
                  ActivationToken \<Rightarrow> n\<lparr>n_notices := (n_notices n)[k := v\<lparr>nt_token := Some value\<rparr>]\<rparr>
                | ActionInvoked \<Rightarrow>
                    (case action of
                       Some f \<Rightarrow> if value = ''default''
                         then f (the (nt_chat v)) (case nt_token v of None \<Rightarrow> '''' | Some t \<Rightarrow> t) n else n
                     | None \<Rightarrow> n)
                | _ \<Rightarrow> clear_notice k n)))"

definition appeared :: "string \<Rightarrow> notifications \<Rightarrow> notifications" where
  "appeared owner n =
     (let n = n\<lparr>n_generation := n_generation n + 1, n_ready := False, n_bus := True, n_owner := Some owner,
        n_subscribed := True, n_sent := n_sent n @ [GetCapabilities]\<rparr>
      in new_call CapsCall 0 n)"

definition vanished :: "notifications \<Rightarrow> notifications" where
  "vanished n = fold clear_notice [0..<LIMIT]
     (n\<lparr>n_generation := n_generation n + 1, n_ready := False, n_subscribed := False, n_owner := None\<rparr>)"

section \<open>Entry points\<close>

definition dismiss_slot :: "string \<Rightarrow> nat \<Rightarrow> notifications \<Rightarrow> notifications" where
  "dismiss_slot chat k n =
     (if nt_chat (n_notices n ! k) = Some chat then clear_notice k (close_id (nt_id (n_notices n ! k)) n) else n)"

definition zc_notifications_dismiss :: "string \<Rightarrow> notifications \<Rightarrow> notifications" where
  "zc_notifications_dismiss chat n = fold (dismiss_slot chat) [0..<LIMIT] n"

definition zc_notifications_images :: "notifications \<Rightarrow> int" where
  "zc_notifications_images n = (if \<not> n_ready n then -1 else if n_images n then 1 else 0)"

text \<open>The loops of \<open>image_hint\<close>: nearest-neighbour scaling, four bytes per pixel.\<close>

definition scaled :: "int \<Rightarrow> int \<Rightarrow> int" where
  "scaled side edge = (if edge \<le> IMAGE_EDGE then side else max 1 (side * IMAGE_EDGE div edge))"

definition source_offset :: "int \<Rightarrow> int \<Rightarrow> pixels \<Rightarrow> int \<Rightarrow> int \<Rightarrow> int" where
  "source_offset width height im y x =
     ((y * px_height im div height) * px_width im + x * px_width im div width) * 4"

definition image_hint :: "pixels option \<Rightarrow> hint option" where
  "image_hint picture = (case picture of None \<Rightarrow> None
     | Some im \<Rightarrow>
         if px_data im = [] \<or> px_width im \<le> 0 \<or> px_height im \<le> 0 \<or> px_width im > 2560 \<or> px_height im > 2560 \<or>
            int (px_bytes im) \<noteq> px_width im * px_height im * 4 then None
         else let edge = max (px_width im) (px_height im);
                  width = scaled (px_width im) edge;
                  height = scaled (px_height im) edge
              in Some \<lparr>h_width = width, h_height = height, h_stride = width * 4,
                   h_bytes = concat (map (\<lambda>y. concat (map (\<lambda>x.
                     take 4 (drop (nat (source_offset width height im y x)) (px_data im))) [0..width - 1]))
                     [0..height - 1])\<rparr>)"

fun choose_slot :: "notice list \<Rightarrow> nat list \<Rightarrow> nat \<Rightarrow> nat" where
  "choose_slot notices [] slot = slot"
| "choose_slot notices (i # is) slot =
     (if nt_chat (notices ! i) = None then i
      else choose_slot notices is (if nt_serial (notices ! i) < nt_serial (notices ! slot) then i else slot))"

definition zc_notifications_show :: "(string \<Rightarrow> bool) \<Rightarrow> (string \<Rightarrow> string) \<Rightarrow> string \<Rightarrow> string \<Rightarrow> string \<Rightarrow>
    pixels option \<Rightarrow> notifications \<Rightarrow> notifications" where
  "zc_notifications_show utf8 escape chat summary body picture n =
     (if \<not> utf8 chat \<or> \<not> utf8 summary \<or> \<not> utf8 body then n
      else let n = zc_notifications_dismiss chat n;
               slot = choose_slot (n_notices n) [0..<LIMIT] 0;
               n = clear_notice slot (close_id (nt_id (n_notices n ! slot)) n);
               v = (n_notices n ! slot)\<lparr>nt_chat := Some chat, nt_summary := summary, nt_body := body,
                 nt_image := (if zc_notifications_images n \<noteq> 0 then image_hint picture else None),
                 nt_serial := n_serial n + 1, nt_pending := True\<rparr>;
               n = n\<lparr>n_serial := n_serial n + 1, n_notices := (n_notices n)[slot := v]\<rparr>
           in send_notice escape slot n)"

definition zc_notifications_free :: "notifications \<Rightarrow> notifications" where
  "zc_notifications_free n =
     (let n = n\<lparr>n_stopped := True, n_subscribed := False\<rparr>;
          n = fold (\<lambda>k n. close_id (nt_id (n_notices n ! k)) n) [0..<LIMIT] n
      in release n)"

section \<open>The machine\<close>

text \<open>
  One entry point or callback. A reply completes the call at a position of \<open>n_calls\<close>, in
  any order. During \<open>ActionInvoked\<close> the client may call back: a list of its calls.
\<close>

datatype client_call =
    Show string string string "pixels option"
  | Dismiss string

datatype event =
    Client client_call
  | Appeared string
  | Vanished
  | NotifyReply nat "nat option"
  | CapsReply nat "string list option"
  | Signal "string option" signal_name parameters "client_call list"
  | Free

fun client_step :: "(string \<Rightarrow> bool) \<Rightarrow> (string \<Rightarrow> string) \<Rightarrow> client_call \<Rightarrow> notifications \<Rightarrow> notifications" where
  "client_step utf8 escape (Show chat summary body picture) n =
     zc_notifications_show utf8 escape chat summary body picture n"
| "client_step utf8 escape (Dismiss chat) n = zc_notifications_dismiss chat n"

definition complete :: "nat \<Rightarrow> notifications \<Rightarrow> notifications" where
  "complete k n = n\<lparr>n_calls := take k (n_calls n) @ drop (Suc k) (n_calls n)\<rparr>"

fun notification_step :: "(string \<Rightarrow> bool) \<Rightarrow> (string \<Rightarrow> string) \<Rightarrow> event \<Rightarrow> notifications \<Rightarrow> notifications" where
  "notification_step utf8 escape (Client c) n = client_step utf8 escape c n"
| "notification_step utf8 escape (Appeared owner) n = appeared owner n"
| "notification_step utf8 escape Vanished n = vanished n"
| "notification_step utf8 escape (NotifyReply k reply) n = notified (n_calls n ! k) reply (complete k n)"
| "notification_step utf8 escape (CapsReply k reply) n = capabilities escape (n_calls n ! k) reply (complete k n)"
| "notification_step utf8 escape (Signal sender signal params back) n =
     signal_received (Some (\<lambda>chat token. fold (client_step utf8 escape) back)) sender signal params n"
| "notification_step utf8 escape Free n = zc_notifications_free n"

text \<open>
  When GLib and the client make a call: nothing but replies of calls in flight after
  \<open>Free\<close>; a signal only while subscribed; a new owner only after the old one vanished.
\<close>

fun allowed :: "event \<Rightarrow> notifications \<Rightarrow> bool" where
  "allowed (Client c) n = (\<not> n_stopped n)"
| "allowed (Appeared owner) n = (\<not> n_stopped n \<and> n_owner n = None)"
| "allowed Vanished n = (\<not> n_stopped n)"
| "allowed (NotifyReply k reply) n = (k < length (n_calls n) \<and> c_kind (n_calls n ! k) = NotifyCall)"
| "allowed (CapsReply k reply) n = (k < length (n_calls n) \<and> c_kind (n_calls n ! k) = CapsCall)"
| "allowed (Signal sender signal params back) n = (\<not> n_stopped n \<and> n_subscribed n)"
| "allowed Free n = (\<not> n_stopped n)"

inductive reachable :: "(string \<Rightarrow> bool) \<Rightarrow> (string \<Rightarrow> string) \<Rightarrow> notifications \<Rightarrow> bool"
  for utf8 escape where
  new: "reachable utf8 escape zc_notifications_new"
| step: "reachable utf8 escape n \<Longrightarrow> allowed e n \<Longrightarrow> reachable utf8 escape (notification_step utf8 escape e n)"

text \<open>
  One GUI tick: at most 64 iterations of the main context. GLib's ready sources are a queue of
  batches, one per iteration; an iteration with nothing ready returns \<open>FALSE\<close> and ends the loop.
\<close>

fun dispatch :: "(string \<Rightarrow> bool) \<Rightarrow> (string \<Rightarrow> string) \<Rightarrow> nat \<Rightarrow> event list list \<Rightarrow> notifications \<Rightarrow>
    event list list \<times> notifications" where
  "dispatch utf8 escape 0 queue n = (queue, n)"
| "dispatch utf8 escape (Suc left) [] n = ([], n)"
| "dispatch utf8 escape (Suc left) (batch # queue) n =
     dispatch utf8 escape left queue (fold (notification_step utf8 escape) batch n)"

definition zc_notifications_poll :: "(string \<Rightarrow> bool) \<Rightarrow> (string \<Rightarrow> string) \<Rightarrow> event list list \<Rightarrow> notifications \<Rightarrow>
    event list list \<times> notifications" where
  "zc_notifications_poll utf8 escape queue n = dispatch utf8 escape 64 queue n"

section \<open>The invariant\<close>

text \<open>
  \<open>notices_ok\<close>: a free slot is all zero, an active one has a serial handed out before,
  chats and serials of active slots are distinct, and ids belong to a present daemon.
  \<open>calls_ok\<close>: what a call in flight remembers. \<open>held k n\<close>: alive, with \<open>k\<close> references
  beyond the owner's and those of the calls in flight. \<open>settled\<close>: nothing waits once the
  capabilities are known, but for the slots in \<open>S\<close>.
\<close>

definition active :: "notifications \<Rightarrow> nat \<Rightarrow> bool" where
  "active n k \<longleftrightarrow> nt_chat (n_notices n ! k) \<noteq> None"

definition notice_ok :: "notifications \<Rightarrow> notice \<Rightarrow> bool" where
  "notice_ok n v \<longleftrightarrow> (nt_chat v = None \<longrightarrow> v = empty_notice) \<and>
     (nt_chat v \<noteq> None \<longrightarrow> 0 < nt_serial v \<and> nt_serial v \<le> n_serial n) \<and>
     (nt_id v \<noteq> 0 \<longrightarrow> n_owner n \<noteq> None \<and> n_bus n \<and> \<not> nt_pending v)"

definition notices_ok :: "notifications \<Rightarrow> bool" where
  "notices_ok n \<longleftrightarrow> length (n_notices n) = LIMIT \<and> (\<forall>k < LIMIT. notice_ok n (n_notices n ! k)) \<and>
     (\<forall>j < LIMIT. \<forall>k < LIMIT. j \<noteq> k \<longrightarrow> active n j \<longrightarrow>
        nt_chat (n_notices n ! j) \<noteq> nt_chat (n_notices n ! k) \<and>
        nt_serial (n_notices n ! j) \<noteq> nt_serial (n_notices n ! k))"

definition call_ok :: "notifications \<Rightarrow> call \<Rightarrow> bool" where
  "call_ok n c \<longleftrightarrow> c_slot c < LIMIT \<and> c_generation c \<le> n_generation n \<and> c_serial c \<le> n_serial n \<and>
     (c_kind c = NotifyCall \<longrightarrow> 0 < c_serial c \<and>
        (nt_serial (n_notices n ! c_slot c) = c_serial c \<longrightarrow> \<not> nt_pending (n_notices n ! c_slot c))) \<and>
     (c_generation c = n_generation n \<longrightarrow> n_owner n \<noteq> None \<and> n_bus n)"

definition calls_ok :: "notifications \<Rightarrow> bool" where
  "calls_ok n \<longleftrightarrow> (\<forall>c \<in> set (n_calls n). call_ok n c)"

definition settled :: "nat set \<Rightarrow> notifications \<Rightarrow> bool" where
  "settled S n \<longleftrightarrow> (n_ready n \<longrightarrow> n_owner n \<noteq> None \<and> n_bus n \<and>
     (\<forall>k < LIMIT. nt_pending (n_notices n ! k) \<longrightarrow> k \<in> S))"

definition held :: "nat \<Rightarrow> notifications \<Rightarrow> bool" where
  "held k n \<longleftrightarrow> \<not> n_freed n \<and> n_refs n = k + (if n_stopped n then 0 else 1) + length (n_calls n)"

definition released :: "notifications \<Rightarrow> bool" where
  "released n \<longleftrightarrow> n_freed n \<and> n_refs n = 0 \<and> n_stopped n \<and> n_calls n = [] \<and>
     n_notices n = replicate LIMIT empty_notice \<and> \<not> n_bus n \<and> n_owner n = None"

definition good :: "nat \<Rightarrow> nat set \<Rightarrow> notifications \<Rightarrow> bool" where
  "good k S n \<longleftrightarrow> held k n \<and> notices_ok n \<and> calls_ok n \<and> settled S n"

lemmas inv_defs = notices_ok_def calls_ok_def settled_def held_def notice_ok_def call_ok_def active_def

lemma empty_notice_simps [simp]:
  "nt_chat empty_notice = None" "nt_serial empty_notice = 0" "nt_id empty_notice = 0"
  "\<not> nt_pending empty_notice" "nt_image empty_notice = None" "nt_token empty_notice = None"
  by (simp_all add: empty_notice_def)

lemma replicate_nth [simp]: "k < LIMIT \<Longrightarrow> replicate LIMIT empty_notice ! k = empty_notice"
  by simp

lemma LIMIT_pos [simp]: "0 < LIMIT"
  by (simp add: LIMIT_def)

lemma good_new: "good 0 {} zc_notifications_new"
  by (simp add: good_def zc_notifications_new_def inv_defs)

lemma good_sent [simp]: "good k S (n\<lparr>n_sent := s\<rparr>) = good k S n"
  by (simp add: good_def inv_defs)

lemma close_id_cases: "\<exists>s. close_id i n = n\<lparr>n_sent := s\<rparr>"
  unfolding close_id_def by (cases n) auto

lemma close_id_simps [simp]:
  "good k S (close_id i n) = good k S n" "n_notices (close_id i n) = n_notices n"
  "n_stopped (close_id i n) = n_stopped n" "n_ready (close_id i n) = n_ready n"
  "n_serial (close_id i n) = n_serial n" "n_images (close_id i n) = n_images n"
  "n_calls (close_id i n) = n_calls n" "n_generation (close_id i n) = n_generation n"
  "n_owner (close_id i n) = n_owner n" "n_freed (close_id i n) = n_freed n"
  "n_bus (close_id i n) = n_bus n" "n_refs (close_id i n) = n_refs n"
  "n_subscribed (close_id i n) = n_subscribed n"
  using close_id_cases [of i n] by auto

lemma clear_notice_simps [simp]:
  "n_stopped (clear_notice k n) = n_stopped n" "n_ready (clear_notice k n) = n_ready n"
  "n_serial (clear_notice k n) = n_serial n" "n_images (clear_notice k n) = n_images n"
  "n_calls (clear_notice k n) = n_calls n" "n_generation (clear_notice k n) = n_generation n"
  "n_owner (clear_notice k n) = n_owner n" "n_sent (clear_notice k n) = n_sent n"
  "n_freed (clear_notice k n) = n_freed n" "n_notices (clear_notice k n) = (n_notices n)[k := empty_notice]"
  by (simp_all add: clear_notice_def)

text \<open>Replacing one notice by one that keeps chat and serial, or by the empty one.\<close>

lemma good_update:
  assumes "good h S n" "k < LIMIT" "notice_ok n v" "n_ready n \<Longrightarrow> nt_pending v \<Longrightarrow> k \<in> S"
    and "nt_pending v \<Longrightarrow> nt_pending (n_notices n ! k)"
    and "v = empty_notice \<or> nt_chat v = nt_chat (n_notices n ! k) \<and> nt_serial v = nt_serial (n_notices n ! k)"
  shows "good h S (n\<lparr>n_notices := (n_notices n)[k := v]\<rparr>)"
proof -
  define m where "m = n\<lparr>n_notices := (n_notices n)[k := v]\<rparr>"
  have N: "notices_ok n" "calls_ok n" "settled S n" "held h n" using assms(1) by (auto simp: good_def)
  have len: "length (n_notices n) = LIMIT" using N(1) by (simp add: notices_ok_def)
  have same: "notice_ok m = notice_ok n" "length (n_notices m) = LIMIT" "n_serial m = n_serial n"
    "n_generation m = n_generation n" "n_calls m = n_calls n" "held h m = held h n" "n_ready m = n_ready n" "n_owner m = n_owner n" "n_bus m = n_bus n"
    using len by (auto simp: m_def notice_ok_def call_ok_def held_def)
  have at: "n_notices m ! j = (if j = k then v else n_notices n ! j)" if "j < LIMIT" for j
    using that len by (simp add: m_def nth_list_update)
  have each: "notice_ok m (n_notices m ! j)" if "j < LIMIT" for j
    using that N(1) assms(3) by (simp add: at same notices_ok_def)
  have distinct_at: "nt_chat (n_notices m ! i) \<noteq> nt_chat (n_notices m ! j) \<and>
      nt_serial (n_notices m ! i) \<noteq> nt_serial (n_notices m ! j)"
    if ij: "i < LIMIT" "j < LIMIT" "i \<noteq> j" and act: "nt_chat (n_notices m ! i) \<noteq> None" for i j
  proof -
    have old: "nt_chat (n_notices n ! i) \<noteq> nt_chat (n_notices n ! j) \<and>
        nt_serial (n_notices n ! i) \<noteq> nt_serial (n_notices n ! j)"
      if "nt_chat (n_notices n ! i) \<noteq> None" using N(1) ij that unfolding notices_ok_def active_def by blast
    have pos: "0 < nt_serial (n_notices m ! i)" using each [OF ij(1)] act by (simp add: notice_ok_def)
    show ?thesis
    proof (cases "v = empty_notice \<and> j = k")
      case True
      then have "n_notices m ! j = empty_notice" using at [OF ij(2)] by metis
      then show ?thesis using act pos by simp
    next
      case False
      then have "nt_chat (n_notices m ! i) = nt_chat (n_notices n ! i)"
        "nt_serial (n_notices m ! i) = nt_serial (n_notices n ! i)"
        "nt_chat (n_notices m ! j) = nt_chat (n_notices n ! j)"
        "nt_serial (n_notices m ! j) = nt_serial (n_notices n ! j)"
        using assms(6) act ij by (auto simp only: at [OF ij(1)] at [OF ij(2)] split: if_splits) auto
      then show ?thesis using old act by simp
    qed
  qed
  have "notices_ok m"
    using same(2) each distinct_at unfolding notices_ok_def active_def by simp
  moreover have "calls_ok m"
  proof -
    have "call_ok m c" if c: "call_ok n c" for c
    proof -
      have slot: "c_slot c < LIMIT" using c by (simp add: call_ok_def)
      have "c_kind c = NotifyCall \<Longrightarrow> nt_serial (n_notices m ! c_slot c) = c_serial c \<Longrightarrow>
          \<not> nt_pending (n_notices m ! c_slot c)"
        using c slot assms(5,6) by (auto simp: call_ok_def at split: if_splits)
      then show ?thesis using c by (auto simp: call_ok_def same)
    qed
    then show ?thesis using N(2) by (simp add: calls_ok_def same)
  qed
  moreover have "settled S m" using N(3) assms(4) by (auto simp: settled_def same at)
  ultimately show ?thesis using N(4) by (simp add: good_def same flip: m_def)
qed

lemma notice_ok_empty [simp]: "notice_ok n empty_notice"
  by (simp add: notice_ok_def)

lemma good_clear [inv_intros]: "good h S n \<Longrightarrow> k < LIMIT \<Longrightarrow> good h S (clear_notice k n)"
  unfolding clear_notice_def by (rule good_update) auto

lemma good_notice: "good h S n \<Longrightarrow> k < LIMIT \<Longrightarrow> notice_ok n (n_notices n ! k)"
  by (simp add: good_def notices_ok_def)

lemma good_length: "good h S n \<Longrightarrow> length (n_notices n) = LIMIT"
  by (simp add: good_def notices_ok_def)

lemma good_mono: "good h S n \<Longrightarrow> (\<And>k. k \<in> S \<Longrightarrow> k < LIMIT \<Longrightarrow> k \<in> T) \<Longrightarrow> good h T n"
  by (auto simp: good_def settled_def)

lemma good_new_call:
  assumes "good h S n" "k < LIMIT" "n_owner n \<noteq> None" "n_bus n" "kind = NotifyCall \<Longrightarrow> active n k \<and> \<not> nt_pending (n_notices n ! k)"
  shows "good h S (new_call kind k n)"
proof -
  have v: "notice_ok n (n_notices n ! k)" using assms(1,2) by (rule good_notice)
  have "nt_serial (n_notices n ! k) \<le> n_serial n"
    using v by (cases "nt_chat (n_notices n ! k)") (auto simp: notice_ok_def)
  moreover have "kind = NotifyCall \<Longrightarrow> 0 < nt_serial (n_notices n ! k) \<and> \<not> nt_pending (n_notices n ! k)"
    using v assms(5) by (auto simp: notice_ok_def active_def)
  ultimately show ?thesis
    using assms(1-4) unfolding good_def new_call_def by (simp add: inv_defs)
qed

lemma send_notice_skip:
  "\<not> n_ready n \<or> nt_chat (n_notices n ! k) = None \<or> \<not> nt_pending (n_notices n ! k) \<Longrightarrow>
    send_notice escape k n = n"
  by (auto simp: send_notice_def)

lemma good_send [inv_intros]:
  assumes "good h S n" "k < LIMIT"
  shows "good h (S - {k}) (send_notice escape k n)"
proof (cases "n_ready n \<and> nt_chat (n_notices n ! k) \<noteq> None \<and> nt_pending (n_notices n ! k)")
  case False
  have v: "notice_ok n (n_notices n ! k)" using assms by (rule good_notice)
  have "good h (S - {k}) n"
    using assms False v by (auto simp: good_def settled_def notice_ok_def)
  then show ?thesis using False by (subst send_notice_skip) auto
next
  case True
  let ?v = "n_notices n ! k"
  define n1 where "n1 = n\<lparr>n_notices := (n_notices n)[k := ?v\<lparr>nt_pending := False\<rparr>]\<rparr>"
  define n2 where "n2 = n1\<lparr>n_sent := n_sent n @ [Notify (nt_summary ?v)
    (if n_markup n then escape (nt_body ?v) else nt_body ?v)
    (if n_actions n then [''default'', ''Open conversation''] else [])
    (if n_images n then nt_image ?v else None)]\<rparr>"
  define n3 where "n3 = new_call NotifyCall k n2"
  have eq: "send_notice escape k n = n3\<lparr>n_notices := (n_notices n3)[k := (n_notices n3 ! k)\<lparr>nt_image := None\<rparr>]\<rparr>"
  proof -
    have guard: "(\<not> n_ready n \<or> nt_chat ?v = None \<or> \<not> nt_pending ?v) = False" using True by blast
    show ?thesis unfolding n3_def n2_def n1_def send_notice_def Let_def guard by (simp split del: if_split)
  qed
  have v: "notice_ok n ?v" using assms by (rule good_notice)
  have len: "length (n_notices n) = LIMIT" using assms(1) by (rule good_length)
  have s: "n_owner n \<noteq> None" "n_bus n" using assms(1) True by (auto simp: good_def settled_def)
  have "good h S n1" unfolding n1_def
    using assms(1,2) by (rule good_update) (use v True in \<open>auto simp: notice_ok_def\<close>)
  then have "good h (S - {k}) n1"
    using assms(2) len by (auto simp: good_def settled_def n1_def nth_list_update)
  then have g2: "good h (S - {k}) n2" by (simp add: n2_def)
  have g3: "good h (S - {k}) n3" unfolding n3_def
    using g2 assms(2) by (rule good_new_call) (use s True len assms(2) in \<open>auto simp: n2_def n1_def active_def\<close>)
  have at: "n_notices n3 ! k = ?v\<lparr>nt_pending := False\<rparr>"
    using assms(2) len by (simp add: n3_def n2_def n1_def new_call_def)
  have ok3: "notice_ok n3 (n_notices n3 ! k)" using g3 assms(2) by (rule good_notice)
  show ?thesis unfolding eq
    using g3 assms(2) by (rule good_update) (use ok3 True at in \<open>auto simp: notice_ok_def\<close>)
qed

lemma good_send_all: "good h S n \<Longrightarrow> \<forall>k \<in> set ks. k < LIMIT \<Longrightarrow>
  good h (S - set ks) (fold (send_notice escape) ks n)"
proof (induction ks arbitrary: S n)
  case (Cons k ks)
  have "good h (S - {k} - set ks) (fold (send_notice escape) ks (send_notice escape k n))"
    by (rule Cons.IH) (use Cons.prems in \<open>auto intro: good_send\<close>)
  moreover have "S - {k} - set ks = S - set (k # ks)" by auto
  ultimately show ?case by simp
qed simp

text \<open>\<open>release\<close> gives back one reference; with the last one the component is freed.\<close>

lemma good_release:
  assumes "good (Suc h) S n"
  shows "if n_stopped n \<and> n_calls n = [] \<and> h = 0 then released (release n) else good h S (release n)"
proof -
  have refs: "n_refs n = Suc (h + (if n_stopped n then 0 else 1) + length (n_calls n))" "\<not> n_freed n"
    using assms by (auto simp: good_def held_def)
  show ?thesis
  proof (cases "n_stopped n \<and> n_calls n = [] \<and> h = 0")
    case True
    then show ?thesis using refs by (simp add: release_def released_def)
  next
    case False
    then have "n_refs n - 1 \<noteq> 0" using refs(1) by (cases h; cases "n_calls n"; cases "n_stopped n") simp_all
    then have "release n = n\<lparr>n_refs := n_refs n - 1\<rparr>" by (simp add: release_def)
    then have "good h S (release n)" using assms by (simp add: good_def inv_defs)
    then show ?thesis using False by argo
  qed
qed

section \<open>The entry points keep the invariant\<close>

lemma good_dismiss_slot: "good h S n \<Longrightarrow> k < LIMIT \<Longrightarrow> good h S (dismiss_slot chat k n)"
  by (auto simp: dismiss_slot_def intro: good_clear)

lemma good_dismiss [inv_intros]: "good h S n \<Longrightarrow> good h S (zc_notifications_dismiss chat n)"
  unfolding zc_notifications_dismiss_def
  by (rule fold_invariant [where Q = "\<lambda>k. k < LIMIT"]) (auto intro: good_dismiss_slot)

lemma dismiss_slot_notices: "n_notices (dismiss_slot chat k n) =
    (if nt_chat (n_notices n ! k) = Some chat then (n_notices n)[k := empty_notice] else n_notices n)"
  by (simp add: dismiss_slot_def)

definition without :: "string \<Rightarrow> notice list \<Rightarrow> notice list" where
  "without chat vs = map (\<lambda>v. if nt_chat v = Some chat then empty_notice else v) vs"

lemma length_without [simp]: "length (without chat vs) = length vs"
  by (simp add: without_def)

lemma nth_without: "k < length vs \<Longrightarrow>
  without chat vs ! k = (if nt_chat (vs ! k) = Some chat then empty_notice else vs ! k)"
  by (simp add: without_def)

lemma dismiss_fold: "m \<le> length (n_notices n) \<Longrightarrow>
  n_notices (fold (dismiss_slot chat) [0..<m] n) = without chat (take m (n_notices n)) @ drop m (n_notices n)"
proof (induction m)
  case (Suc m)
  let ?vs = "n_notices n"
  have IH: "n_notices (fold (dismiss_slot chat) [0..<m] n) = without chat (take m ?vs) @ ?vs ! m # drop (Suc m) ?vs"
    using Suc by (simp add: Cons_nth_drop_Suc)
  have at: "n_notices (fold (dismiss_slot chat) [0..<m] n) ! m = ?vs ! m"
    using Suc.prems by (simp add: IH nth_append)
  have "n_notices (fold (dismiss_slot chat) [0..<Suc m] n) =
      without chat (take m ?vs) @ (if nt_chat (?vs ! m) = Some chat then empty_notice else ?vs ! m) # drop (Suc m) ?vs"
    using Suc.prems by (simp add: dismiss_slot_notices at) (simp add: IH list_update_append)
  then show ?case
    using Suc.prems by (simp add: take_Suc_conv_app_nth without_def)
qed (simp add: without_def)

lemma dismiss_notices:
  "length (n_notices n) = LIMIT \<Longrightarrow> n_notices (zc_notifications_dismiss chat n) = without chat (n_notices n)"
  using dismiss_fold [of LIMIT n chat] by (simp add: zc_notifications_dismiss_def)

lemma dismiss_slot_keeps:
  "n_stopped (dismiss_slot chat k n) = n_stopped n" "n_ready (dismiss_slot chat k n) = n_ready n"
  "n_serial (dismiss_slot chat k n) = n_serial n" "n_images (dismiss_slot chat k n) = n_images n"
  "n_calls (dismiss_slot chat k n) = n_calls n" "n_owner (dismiss_slot chat k n) = n_owner n"
  by (simp_all add: dismiss_slot_def)

lemma dismiss_keeps [simp]:
  "n_stopped (zc_notifications_dismiss chat n) = n_stopped n"
  "n_ready (zc_notifications_dismiss chat n) = n_ready n"
  "n_serial (zc_notifications_dismiss chat n) = n_serial n"
  "n_owner (zc_notifications_dismiss chat n) = n_owner n"
proof -
  have "n_stopped (fold (dismiss_slot chat) ks n) = n_stopped n \<and> n_ready (fold (dismiss_slot chat) ks n) = n_ready n \<and>
      n_serial (fold (dismiss_slot chat) ks n) = n_serial n \<and> n_owner (fold (dismiss_slot chat) ks n) = n_owner n" for ks
    by (induction ks arbitrary: n) (simp_all add: dismiss_slot_keeps)
  then show "n_stopped (zc_notifications_dismiss chat n) = n_stopped n"
    "n_ready (zc_notifications_dismiss chat n) = n_ready n"
    "n_serial (zc_notifications_dismiss chat n) = n_serial n"
    "n_owner (zc_notifications_dismiss chat n) = n_owner n"
    by (simp_all add: zc_notifications_dismiss_def)
qed

text \<open>The slot taken is free, or all are taken and it holds the oldest notice.\<close>

lemma choose_slot_member: "choose_slot vs ks s \<in> insert s (set ks)"
  by (induction ks arbitrary: s) (auto split: if_splits)

lemma choose_slot_free:
  "k \<in> set ks \<Longrightarrow> nt_chat (vs ! k) = None \<Longrightarrow> nt_chat (vs ! choose_slot vs ks s) = None"
  by (induction ks arbitrary: s) auto

lemma choose_slot_oldest:
  "\<forall>k \<in> set ks. nt_chat (vs ! k) \<noteq> None \<Longrightarrow>
    \<forall>k \<in> insert s (set ks). nt_serial (vs ! choose_slot vs ks s) \<le> nt_serial (vs ! k)"
proof (induction ks arbitrary: s)
  case (Cons i ks)
  let ?s = "if nt_serial (vs ! i) < nt_serial (vs ! s) then i else s"
  have "\<forall>k \<in> insert ?s (set ks). nt_serial (vs ! choose_slot vs ks ?s) \<le> nt_serial (vs ! k)"
    using Cons.prems by (intro Cons.IH) auto
  moreover have "nt_serial (vs ! ?s) \<le> nt_serial (vs ! i)" "nt_serial (vs ! ?s) \<le> nt_serial (vs ! s)"
    by auto
  moreover have "choose_slot vs (i # ks) s = choose_slot vs ks ?s"
    using Cons.prems by (cases "nt_chat (vs ! i)") auto
  ultimately show ?case by (auto intro: order_trans)
qed simp

lemma choose_slot_less: "choose_slot vs [0..<LIMIT] 0 < LIMIT"
  using choose_slot_member [of vs "[0..<LIMIT]" 0] by auto

lemma good_insert:
  assumes "good h S n" "k < LIMIT" "n_notices n ! k = empty_notice" "nt_chat v = Some chat" "nt_id v = 0"
    and "nt_serial v = n_serial n + 1" "\<forall>j < LIMIT. nt_chat (n_notices n ! j) \<noteq> Some chat"
  shows "good h (insert k S) (n\<lparr>n_serial := n_serial n + 1, n_notices := (n_notices n)[k := v]\<rparr>)"
proof -
  define m where "m = n\<lparr>n_serial := n_serial n + 1, n_notices := (n_notices n)[k := v]\<rparr>"
  have N: "notices_ok n" "calls_ok n" "settled S n" "held h n" using assms(1) by (auto simp: good_def)
  have len: "length (n_notices n) = LIMIT" using N(1) by (simp add: notices_ok_def)
  have at: "n_notices m ! j = (if j = k then v else n_notices n ! j)" if "j < LIMIT" for j
    using that len by (simp add: m_def nth_list_update)
  have fields: "length (n_notices m) = LIMIT" "n_calls m = n_calls n" "held h m = held h n" "n_ready m = n_ready n"
    "n_owner m = n_owner n" "n_bus m = n_bus n" "n_serial m = n_serial n + 1" "n_generation m = n_generation n"
    using len by (auto simp: m_def held_def)
  have old: "notice_ok n (n_notices n ! j)" if "j < LIMIT" for j using N(1) that by (simp add: notices_ok_def)
  have each: "notice_ok m (n_notices m ! j)" if "j < LIMIT" for j
    using old [OF that] assms(4-6) by (auto simp: at [OF that] notice_ok_def fields)
  have low: "nt_serial (n_notices n ! j) \<le> n_serial n" if "j < LIMIT" for j
    using old [OF that] by (cases "nt_chat (n_notices n ! j)") (auto simp: notice_ok_def)
  have distinct_at: "nt_chat (n_notices m ! i) \<noteq> nt_chat (n_notices m ! j) \<and>
      nt_serial (n_notices m ! i) \<noteq> nt_serial (n_notices m ! j)"
    if ij: "i < LIMIT" "j < LIMIT" "i \<noteq> j" and act: "nt_chat (n_notices m ! i) \<noteq> None" for i j
  proof (cases "i = k \<or> j = k")
    case True
    then show ?thesis
      using ij assms(4,6,7) low [OF ij(1)] low [OF ij(2)] by (auto simp: at [OF ij(1)] at [OF ij(2)])
  next
    case False
    then show ?thesis
      using N(1) ij act unfolding notices_ok_def active_def by (auto simp: at)
  qed
  have "notices_ok m" using fields(1) each distinct_at unfolding notices_ok_def active_def by simp
  moreover have "call_ok m c" if c: "call_ok n c" for c
  proof -
    have slot: "c_slot c < LIMIT" using c by (simp add: call_ok_def)
    have "n_notices m ! c_slot c = n_notices n ! c_slot c \<or> c_serial c < nt_serial (n_notices m ! c_slot c)"
      using c slot assms(6) by (auto simp: call_ok_def at)
    then show ?thesis using c by (auto simp: call_ok_def fields)
  qed
  then have "calls_ok m" using N(2) by (simp add: calls_ok_def fields)
  moreover have "settled (insert k S) m" using N(3) by (auto simp: settled_def fields at)
  ultimately have "good h (insert k S) m" using N(4) by (simp add: good_def fields)
  then show ?thesis by (simp only: m_def)
qed

text \<open>What \<open>zc_notifications_show\<close> sends: the component after the old notice of the slot is gone.\<close>

lemma good_show [inv_intros]:
  assumes "good h {} n"
  shows "good h {} (zc_notifications_show utf8 escape chat summary body picture n)"
proof (cases "utf8 chat \<and> utf8 summary \<and> utf8 body")
  case False
  then have "zc_notifications_show utf8 escape chat summary body picture n = n"
    by (auto simp: zc_notifications_show_def)
  then show ?thesis using assms by simp
next
  case True
  define n1 where "n1 = zc_notifications_dismiss chat n"
  define k where "k = choose_slot (n_notices n1) [0..<LIMIT] 0"
  define n2 where "n2 = clear_notice k (close_id (nt_id (n_notices n1 ! k)) n1)"
  define v where "v = (n_notices n2 ! k)\<lparr>nt_chat := Some chat, nt_summary := summary, nt_body := body,
     nt_image := (if zc_notifications_images n2 \<noteq> 0 then image_hint picture else None),
     nt_serial := n_serial n2 + 1, nt_pending := True\<rparr>"
  have eq: "zc_notifications_show utf8 escape chat summary body picture n =
      send_notice escape k (n2\<lparr>n_serial := n_serial n2 + 1, n_notices := (n_notices n2)[k := v]\<rparr>)"
    using True unfolding zc_notifications_show_def Let_def n1_def k_def n2_def v_def by simp
  have k: "k < LIMIT" unfolding k_def by (rule choose_slot_less)
  have g1: "good h {} n1" unfolding n1_def using assms by (rule good_dismiss)
  have g2: "good h {} n2" unfolding n2_def by (rule good_clear) (use g1 k in auto)
  have empty: "n_notices n2 ! k = empty_notice" using k good_length [OF g1] by (simp add: n2_def)
  have gone: "\<forall>j < LIMIT. nt_chat (n_notices n2 ! j) \<noteq> Some chat"
    using good_length [OF assms] k
    by (auto simp: n2_def n1_def dismiss_notices nth_list_update nth_without)
  have "good h (insert k {}) (n2\<lparr>n_serial := n_serial n2 + 1, n_notices := (n_notices n2)[k := v]\<rparr>)"
    by (rule good_insert [OF g2 k empty _ _ _ gone]) (simp_all add: v_def empty)
  from good_send [OF this k, of escape] show ?thesis by (simp add: eq)
qed

lemma good_client: "good h {} n \<Longrightarrow> good h {} (client_step utf8 escape c n)"
  by (cases c) (auto intro: good_dismiss good_show)

lemma send_keeps: "n_stopped (send_notice escape k n) = n_stopped n"
  by (simp add: send_notice_def Let_def new_call_def)

lemma send_all_keeps: "n_stopped (fold (send_notice escape) ks n) = n_stopped n"
  by (induction ks arbitrary: n) (simp_all add: send_keeps)

lemma client_keeps: "n_stopped (client_step utf8 escape c n) = n_stopped n"
  by (cases c) (simp_all add: zc_notifications_show_def Let_def send_keeps)

lemma good_clients: "good h {} n \<Longrightarrow> good h {} (fold (client_step utf8 escape) cs n)"
  by (induction cs arbitrary: n) (auto intro: good_client)

lemma good_signal:
  assumes "good h {} n"
  shows "good h {} (signal_received (Some (\<lambda>chat token. fold (client_step utf8 escape) cs)) sender signal params n)"
proof -
  have found: "k < LIMIT" "nt_chat (n_notices n ! k) \<noteq> None"
    if "find (\<lambda>k. nt_chat (n_notices n ! k) \<noteq> None \<and> i \<noteq> 0 \<and> nt_id (n_notices n ! k) = i) [0..<LIMIT] = Some k" for k i
    using that by (auto simp: find_Some_iff)
  have token: "good h {} (n\<lparr>n_notices := (n_notices n)[k := (n_notices n ! k)\<lparr>nt_token := Some t\<rparr>]\<rparr>)"
    if "k < LIMIT" "nt_chat (n_notices n ! k) \<noteq> None" for k t
    using assms that(1)
    by (rule good_update)
      (use good_notice [OF assms that(1)] that assms in \<open>auto simp: notice_ok_def good_def settled_def\<close>)
  show ?thesis
    unfolding signal_received_def Let_def
    using assms found
    by (auto split: option.split signal_name.split parameters.split
        intro: good_clients good_clear token)
qed

lemma good_appeared:
  assumes "good h {} n" "n_owner n = None"
  shows "good h {} (appeared owner n)"
proof -
  define m where "m = n\<lparr>n_generation := n_generation n + 1, n_ready := False, n_bus := True, n_owner := Some owner,
        n_subscribed := True, n_sent := n_sent n @ [GetCapabilities]\<rparr>"
  have "good h {} m" using assms unfolding m_def good_def by (fastforce simp: inv_defs)
  then have "good h {} (new_call CapsCall 0 m)" by (rule good_new_call) (auto simp: m_def)
  then show ?thesis by (simp add: appeared_def m_def)
qed

lemma clear_all: "m \<le> length (n_notices n) \<Longrightarrow>
  n_notices (fold clear_notice [0..<m] n) = replicate m empty_notice @ drop m (n_notices n)"
proof (induction m)
  case (Suc m)
  then show ?case
    by (simp add: list_update_append replicate_append_same flip: Cons_nth_drop_Suc)
qed simp

lemma clear_all_others: "\<exists>vs. fold clear_notice ks n = n\<lparr>n_notices := vs\<rparr>"
proof (induction ks arbitrary: n)
  case Nil
  have "fold clear_notice [] n = n\<lparr>n_notices := n_notices n\<rparr>" by simp
  then show ?case by blast
next
  case (Cons k ks)
  obtain vs where "fold clear_notice ks (clear_notice k n) = (clear_notice k n)\<lparr>n_notices := vs\<rparr>"
    using Cons.IH by blast
  then have "fold clear_notice (k # ks) n = n\<lparr>n_notices := vs\<rparr>" by (simp add: clear_notice_def [of k n])
  then show ?case by blast
qed

lemma clear_all_eq:
  assumes "length (n_notices n) = LIMIT"
  shows "fold clear_notice [0..<LIMIT] n = n\<lparr>n_notices := replicate LIMIT empty_notice\<rparr>"
proof -
  obtain vs where "fold clear_notice [0..<LIMIT] n = n\<lparr>n_notices := vs\<rparr>" using clear_all_others by blast
  moreover have "n_notices (fold clear_notice [0..<LIMIT] n) = replicate LIMIT empty_notice"
    using assms by (simp add: clear_all)
  ultimately show ?thesis by simp
qed

lemma good_vanished:
  assumes "good h {} n"
  shows "good h {} (vanished n)"
proof -
  have len: "length (n_notices n) = LIMIT" using assms by (rule good_length)
  have "\<forall>c \<in> set (n_calls n). call_ok n c" using assms by (simp add: good_def calls_ok_def)
  then have "\<forall>c \<in> set (n_calls n). c_generation c \<noteq> n_generation n + 1" by (auto simp: call_ok_def)
  moreover have "held h n" "calls_ok n" using assms by (auto simp: good_def)
  ultimately show ?thesis unfolding vanished_def
    by (subst clear_all_eq) (auto simp: len good_def inv_defs)
qed

section \<open>Replies, the end of life, and reachable states\<close>

definition fine :: "notifications \<Rightarrow> bool" where
  "fine n \<longleftrightarrow> (good 0 {} n \<and> (n_stopped n \<longrightarrow> n_calls n \<noteq> [])) \<or> released n"

lemma fine_release:
  assumes "good (Suc 0) {} n"
  shows "fine (release n)"
proof (cases "n_stopped n \<and> n_calls n = []")
  case True
  then show ?thesis using good_release [OF assms] by (simp add: fine_def)
next
  case False
  then have "good 0 {} (release n)" using good_release [OF assms] by argo
  moreover have "n_stopped (release n) = n_stopped n" "n_calls (release n) = n_calls n"
    by (simp_all add: release_def Let_def)
  ultimately show ?thesis using False by (simp add: fine_def)
qed

lemma good_complete:
  assumes "good h S n" "k < length (n_calls n)"
  shows "good (Suc h) S (complete k n)"
proof -
  define m where "m = complete k n"
  have fields: "n_notices m = n_notices n" "n_ready m = n_ready n" "n_stopped m = n_stopped n"
    "n_owner m = n_owner n" "n_bus m = n_bus n" "n_serial m = n_serial n" "n_generation m = n_generation n"
    "n_refs m = n_refs n" "n_freed m = n_freed n"
    by (simp_all add: m_def complete_def)
  have calls: "n_calls m = take k (n_calls n) @ drop (Suc k) (n_calls n)" by (simp add: m_def complete_def)
  have "set (n_calls m) \<subseteq> set (n_calls n)" using set_take_subset set_drop_subset by (fastforce simp: calls)
  then have "calls_ok m" using assms(1) by (auto simp: good_def calls_ok_def call_ok_def fields)
  moreover have "held (Suc h) m" using assms by (auto simp: good_def held_def fields calls)
  ultimately have "good (Suc h) S m"
    using assms(1) by (simp add: good_def notices_ok_def notice_ok_def active_def settled_def fields)
  then show ?thesis by (simp add: m_def)
qed

text \<open>A reply to a call that was in flight in \<open>n\<close>.\<close>

lemma fine_notified:
  assumes "good 0 {} n" "k < length (n_calls n)" "c_kind (n_calls n ! k) = NotifyCall"
  shows "fine (notified (n_calls n ! k) reply (complete k n))"
proof -
  define m where "m = complete k n"
  let ?c = "n_calls n ! k"
  let ?v = "n_notices m ! c_slot ?c"
  have g: "good (Suc 0) {} m" unfolding m_def using assms(1,2) by (rule good_complete)
  have "call_ok n ?c" using assms(1,2) by (simp add: good_def calls_ok_def)
  then have c: "call_ok m ?c" by (simp add: call_ok_def m_def complete_def)
  then have slot: "c_slot ?c < LIMIT" by (simp add: call_ok_def)
  have "good (Suc 0) {} (m\<lparr>n_notices := (n_notices m)[c_slot ?c := ?v\<lparr>nt_id := i\<rparr>]\<rparr>)"
    if "c_generation ?c = n_generation m" "nt_chat ?v \<noteq> None" "nt_serial ?v = c_serial ?c" for i
    using g slot
    by (rule good_update)
      (use good_notice [OF g slot] that c assms(3) g slot in \<open>auto simp: notice_ok_def call_ok_def good_def settled_def\<close>)
  then show ?thesis
    using g slot unfolding m_def [symmetric] notified_def Let_def
    by (auto intro!: fine_release good_clear split: option.split)
qed

lemma fine_capabilities:
  assumes "good 0 {} n" "k < length (n_calls n)"
  shows "fine (capabilities escape (n_calls n ! k) reply (complete k n))"
proof -
  define m where "m = complete k n"
  let ?c = "n_calls n ! k"
  have g: "good (Suc 0) {} m" unfolding m_def using assms by (rule good_complete)
  have "call_ok n ?c" using assms by (simp add: good_def calls_ok_def)
  then have c: "call_ok m ?c" by (simp add: call_ok_def m_def complete_def)
  have "good (Suc 0) {} (fold (send_notice escape) [0..<LIMIT]
      (m\<lparr>n_actions := a, n_markup := b, n_images := d, n_ready := True\<rparr>))"
    if "c_generation ?c = n_generation m" for a b d
  proof -
    have "good (Suc 0) {..<LIMIT} (m\<lparr>n_actions := a, n_markup := b, n_images := d, n_ready := True\<rparr>)"
      using g c that by (auto simp: good_def inv_defs)
    from good_send_all [OF this, of "[0..<LIMIT]" escape] show ?thesis by (auto elim: good_mono)
  qed
  then show ?thesis
    using g unfolding m_def [symmetric] capabilities_def Let_def
    by (auto intro!: fine_release split: option.split)
qed

lemma fine_free:
  assumes "good 0 {} n" "\<not> n_stopped n"
  shows "fine (zc_notifications_free n)"
proof -
  let ?m = "n\<lparr>n_stopped := True, n_subscribed := False\<rparr>"
  have "good (Suc 0) {} ?m" using assms by (simp add: good_def inv_defs)
  then have "good (Suc 0) {} (fold (\<lambda>k n. close_id (nt_id (n_notices n ! k)) n) [0..<LIMIT] ?m)"
    by (rule fold_invariant [where Q = "\<lambda>_. True", rotated]) auto
  then show ?thesis unfolding zc_notifications_free_def Let_def by (rule fine_release)
qed

lemma fine_step:
  assumes "fine n" "allowed e n"
  shows "fine (notification_step utf8 escape e n)"
proof -
  have alive: "good 0 {} n"
    using assms by (cases e) (auto simp: fine_def released_def)
  have running: "fine m" if "good 0 {} m" "n_stopped m = n_stopped n" "\<not> n_stopped n" for m
    using that by (simp add: fine_def)
  show ?thesis
  proof (cases e)
    case (Client c)
    then show ?thesis using assms alive by (auto intro!: running good_client simp: client_keeps)
  next
    case (Appeared owner)
    then show ?thesis
      using assms alive good_appeared [OF alive, of owner]
      by (auto intro!: running simp: appeared_def new_call_def Let_def)
  next
    case Vanished
    have "n_stopped (vanished n) = n_stopped n"
      using good_length [OF alive] by (simp add: vanished_def clear_all_eq)
    then show ?thesis using assms Vanished alive by (auto intro!: running good_vanished)
  next
    case (NotifyReply k reply)
    then show ?thesis using assms alive fine_notified by simp
  next
    case (CapsReply k reply)
    then show ?thesis using assms alive fine_capabilities by simp
  next
    case (Signal sender signal params cs)
    have "n_stopped (fold (client_step utf8 escape) cs m) = n_stopped m" for m
      by (induction cs arbitrary: m) (simp_all add: client_keeps)
    then have "n_stopped (signal_received (Some (\<lambda>chat token. fold (client_step utf8 escape) cs)) sender signal params n) = n_stopped n"
      unfolding signal_received_def Let_def
      by (auto split: option.split signal_name.split parameters.split)
    then show ?thesis using assms Signal alive by (auto intro!: running good_signal)
  next
    case Free
    then show ?thesis using assms alive by (simp add: fine_free)
  qed
qed

lemma reachable_fine: "reachable utf8 escape n \<Longrightarrow> fine n"
proof (induction rule: reachable.induct)
  case new
  have "\<not> n_stopped zc_notifications_new" by (simp add: zc_notifications_new_def)
  then show ?case using good_new by (simp add: fine_def)
next
  case (step n e)
  show ?case using step.IH step.hyps by (auto intro: fine_step)
qed

section \<open>Properties\<close>

text \<open>
  C27: The reference count of \<open>ZcNotifications\<close> is exact in every reachable state: as long as
  it lives it is one per asynchronous call in flight plus one for the client until
  \<open>zc_notifications_free\<close>; the structure is freed exactly when it was stopped and the last
  reply came in, never while a reply can still arrive.
\<close>

theorem zc_notifications_lifetime:
  assumes "reachable utf8 escape n"
  shows "(n_freed n \<longleftrightarrow> n_stopped n \<and> n_calls n = []) \<and>
    n_refs n = (if n_stopped n then 0 else 1) + length (n_calls n) \<and>
    (allowed e n \<longrightarrow> \<not> n_freed n)"
proof -
  have "allowed e n \<Longrightarrow> \<not> n_freed n" if "released n"
    using that by (cases e) (auto simp: released_def)
  then show ?thesis
    using reachable_fine [OF assms] by (auto simp: fine_def good_def held_def released_def)
qed

definition two_chats :: notifications where
  "two_chats = fold (notification_step (\<lambda>_. True) id)
     [Appeared '':1.1'', CapsReply 0 (Some [''actions'']), Client (Show ''a'' ''s'' ''b'' None),
      Client (Show ''c'' ''s'' ''b'' None), NotifyReply 1 (Some 7)] zc_notifications_new"

lemma two_chats_reachable: "reachable (\<lambda>_. True) id two_chats"
  unfolding two_chats_def fold.simps comp_def id_apply
  by (intro reachable.intros; code_simp)

theorem zc_notifications_lifetime_witness:
  "n_refs two_chats = 2 \<and> \<not> n_freed two_chats \<and> length (n_calls two_chats) = 1"
proof -
  have "n_calls two_chats = [\<lparr>c_kind = NotifyCall, c_generation = 1, c_serial = 1, c_slot = 0\<rparr>]"
    "\<not> n_stopped two_chats" by code_simp+
  then show ?thesis using zc_notifications_lifetime [OF two_chats_reachable] by simp
qed

text \<open>
  In every reachable state the notices array keeps its bookkeeping: 64 slots, a free slot
  is zeroed, at most one notice per chat, serials unique and already handed out, nothing
  pending once the capabilities are known, an id only while its daemon owns the bus name.
\<close>

theorem zc_notifications_slots:
  assumes "reachable utf8 escape n"
  shows "length (n_notices n) = LIMIT \<and>
    (\<forall>k < LIMIT. let v = n_notices n ! k in
       (nt_chat v = None \<longrightarrow> v = empty_notice) \<and> (nt_chat v \<noteq> None \<longrightarrow> 0 < nt_serial v \<and> nt_serial v \<le> n_serial n) \<and>
       (nt_pending v \<longrightarrow> \<not> n_ready n \<and> nt_id v = 0) \<and> (nt_id v \<noteq> 0 \<longrightarrow> n_owner n \<noteq> None)) \<and>
    (\<forall>j < LIMIT. \<forall>k < LIMIT. j \<noteq> k \<and> nt_chat (n_notices n ! j) \<noteq> None \<longrightarrow>
       nt_chat (n_notices n ! j) \<noteq> nt_chat (n_notices n ! k) \<and>
       nt_serial (n_notices n ! j) \<noteq> nt_serial (n_notices n ! k))"
proof (cases "released n")
  case True
  then show ?thesis by (simp add: released_def)
next
  case False
  then have "notices_ok n" "settled {} n" using reachable_fine [OF assms] by (auto simp: fine_def good_def)
  then show ?thesis
    unfolding Let_def by (intro conjI) (auto simp: notices_ok_def settled_def notice_ok_def active_def)
qed

theorem zc_notifications_slots_witness:
  "nt_chat (n_notices two_chats ! 0) \<noteq> nt_chat (n_notices two_chats ! 1) \<and>
   n_ready two_chats \<and> nt_id (n_notices two_chats ! 1) = 7 \<and> n_owner two_chats \<noteq> None"
proof -
  have "nt_chat (n_notices two_chats ! 0) \<noteq> None" "n_ready two_chats" "nt_id (n_notices two_chats ! 1) = 7"
    by code_simp+
  moreover have "0 < LIMIT" "1 < LIMIT" by (simp_all add: LIMIT_def)
  ultimately show ?thesis
    using zc_notifications_slots [OF two_chats_reachable] unfolding Let_def
    by (metis zero_neq_one zero_neq_numeral)
qed

lemma send_notices: "k < length (n_notices n) \<Longrightarrow> n_notices (send_notice escape k n) =
  (let v = n_notices n ! k in
   if n_ready n \<and> nt_chat v \<noteq> None \<and> nt_pending v
   then (n_notices n)[k := v\<lparr>nt_pending := False, nt_image := None\<rparr>] else n_notices n)"
  by (auto simp: send_notice_def new_call_def Let_def)

lemma send_serial: "n_serial (send_notice escape k n) = n_serial n"
  by (simp add: send_notice_def new_call_def Let_def)

text \<open>
  \<open>zc_notifications_show\<close> on a running component with valid texts leaves exactly one
  notice for the chat, with the given texts and the newest serial, sent at once if the
  daemon is ready and pending otherwise. Every other notice is untouched, but for the oldest
  one when all 64 slots hold other chats.
\<close>

theorem zc_notifications_show_replaces:
  fixes picture :: "pixels option"
  assumes "reachable utf8 escape n" "\<not> n_stopped n" "utf8 chat" "utf8 summary" "utf8 body"
  defines "n' \<equiv> zc_notifications_show utf8 escape chat summary body picture n"
  shows "\<exists>k < LIMIT. let v = n_notices n' ! k; others = without chat (n_notices n) in
    nt_chat v = Some chat \<and> nt_summary v = summary \<and> nt_body v = body \<and> nt_serial v = n_serial n + 1 \<and>
    n_serial n' = n_serial n + 1 \<and> nt_id v = 0 \<and> (nt_pending v \<longleftrightarrow> \<not> n_ready n) \<and>
    (\<forall>j < LIMIT. j \<noteq> k \<longrightarrow> n_notices n' ! j = others ! j \<and> nt_chat (n_notices n' ! j) \<noteq> Some chat) \<and>
    (nt_chat (others ! k) = None \<or>
     (\<forall>j < LIMIT. nt_chat (others ! j) \<noteq> None \<and> nt_serial (others ! k) \<le> nt_serial (others ! j)))"
proof -
  have g: "good 0 {} n" using reachable_fine [OF assms(1)] assms(2) by (auto simp: fine_def released_def)
  define others where "others = without chat (n_notices n)"
  define k where "k = choose_slot others [0..<LIMIT] 0"
  have len: "length others = LIMIT" using good_length [OF g] by (simp add: others_def)
  have k: "k < LIMIT" unfolding k_def by (rule choose_slot_less)
  define n1 where "n1 = zc_notifications_dismiss chat n"
  have n1: "n_notices n1 = others" "n_serial n1 = n_serial n" "n_ready n1 = n_ready n"
    using good_length [OF g] by (simp_all add: n1_def others_def dismiss_notices)
  define n2 where "n2 = clear_notice k (close_id (nt_id (n_notices n1 ! k)) n1)"
  have n2: "n_notices n2 = others[k := empty_notice]" "n_serial n2 = n_serial n" "n_ready n2 = n_ready n"
    by (simp_all add: n2_def n1)
  define v where "v = (n_notices n2 ! k)\<lparr>nt_chat := Some chat, nt_summary := summary, nt_body := body,
     nt_image := (if zc_notifications_images n2 \<noteq> 0 then image_hint picture else None),
     nt_serial := n_serial n2 + 1, nt_pending := True\<rparr>"
  define n3 where "n3 = n2\<lparr>n_serial := n_serial n2 + 1, n_notices := (n_notices n2)[k := v]\<rparr>"
  have n': "n' = send_notice escape k n3"
    unfolding n'_def zc_notifications_show_def Let_def n3_def v_def n2_def k_def n1_def [symmetric] n1(1)
    using assms(3-5) by simp
  have n3: "n_notices n3 = others[k := v]" "n_ready n3 = n_ready n" "n_serial n3 = n_serial n + 1"
    by (simp_all add: n3_def n2)
  define v' where "v' = (if n_ready n then v\<lparr>nt_pending := False, nt_image := None\<rparr> else v)"
  have "n_notices n' = others[k := v']"
    using k len by (simp add: n' send_notices n3 Let_def v'_def) (simp add: v_def)
  moreover have "nt_chat v' = Some chat \<and> nt_summary v' = summary \<and> nt_body v' = body \<and>
      nt_serial v' = n_serial n + 1 \<and> nt_id v' = 0 \<and> (nt_pending v' \<longleftrightarrow> \<not> n_ready n)"
    using k len by (simp add: v'_def v_def n2)
  moreover have "nt_chat (others ! j) \<noteq> Some chat" if "j < LIMIT" for j
    using that len by (simp add: others_def nth_without)
  moreover have "nt_chat (others ! k) = None \<or>
     (\<forall>j < LIMIT. nt_chat (others ! j) \<noteq> None \<and> nt_serial (others ! k) \<le> nt_serial (others ! j))"
  proof (cases "\<exists>j < LIMIT. nt_chat (others ! j) = None")
    case True
    then obtain j where "j \<in> set [0..<LIMIT]" "nt_chat (others ! j) = None" by auto
    then show ?thesis unfolding k_def by (intro disjI1 choose_slot_free)
  next
    case False
    then show ?thesis using choose_slot_oldest [of "[0..<LIMIT]" others 0] by (auto simp: k_def)
  qed
  ultimately show ?thesis
    unfolding others_def [symmetric] Let_def
    using k len by (intro exI [of _ k]) (simp add: n' send_serial n3)
qed

theorem zc_notifications_show_replaces_witness:
  "\<exists>k < LIMIT. nt_chat (n_notices (zc_notifications_show (\<lambda>_. True) id ''a'' ''t'' ''u'' None two_chats) ! k) = Some ''a'' \<and>
     nt_serial (n_notices (zc_notifications_show (\<lambda>_. True) id ''a'' ''t'' ''u'' None two_chats) ! k) = 3"
proof -
  have "\<not> n_stopped two_chats" "n_serial two_chats = 2" by code_simp+
  then show ?thesis
    using zc_notifications_show_replaces [OF two_chats_reachable, of "''a''" "''t''" "''u''" None]
    unfolding Let_def by fastforce
qed

section \<open>Notifications of the daemon that are still open\<close>

text \<open>
  \<open>acknowledged\<close>: the id that a reply gives, if the component still follows it: it is not stopped, and
  the daemon that was asked still owns the name. \<open>reported\<close>: the ids that the daemon says are closed, all
  of them when it goes away. \<open>closed_by\<close>: those the component asks to close between two states.
  \<open>history\<close> runs the machine with the set of ids that are acknowledged and neither reported nor closed.
\<close>

fun acknowledged :: "event \<Rightarrow> notifications \<Rightarrow> nat set" where
  "acknowledged (NotifyReply k (Some i)) n =
     (if n_stopped n \<or> c_generation (n_calls n ! k) \<noteq> n_generation n \<or> i = 0 then {} else {i})"
| "acknowledged e n = {}"

fun reported :: "event \<Rightarrow> notifications \<Rightarrow> nat set" where
  "reported (Appeared owner) n = UNIV"
| "reported Vanished n = UNIV"
| "reported (Signal sender NotificationClosed (UU i reason) back) n = (if sender = n_owner n then {i} else {})"
| "reported e n = {}"

definition closed_by :: "notifications \<Rightarrow> notifications \<Rightarrow> nat set" where
  "closed_by n m = set (concat (map (\<lambda>x. case x of CloseNotification i \<Rightarrow> [i] | _ \<Rightarrow> [])
     (drop (length (n_sent n)) (n_sent m))))"

lemma closed_by_iff: "i \<in> closed_by n m \<longleftrightarrow> CloseNotification i \<in> set (drop (length (n_sent n)) (n_sent m))"
  by (force simp: closed_by_def split: message.splits)

inductive history :: "(string \<Rightarrow> bool) \<Rightarrow> (string \<Rightarrow> string) \<Rightarrow> notifications \<Rightarrow> nat set \<Rightarrow> bool"
  for utf8 escape where
  history_new: "history utf8 escape zc_notifications_new {}"
| history_step: "history utf8 escape n open_ids \<Longrightarrow> allowed e n \<Longrightarrow> m = notification_step utf8 escape e n \<Longrightarrow>
    history utf8 escape m ((open_ids \<union> acknowledged e n) - reported e n - closed_by n m)"

definition on_record :: "notifications \<Rightarrow> nat set" where
  "on_record n = {i. i \<noteq> 0 \<and> i \<in> nt_id ` set (n_notices n)}"

text \<open>No id on record in \<open>n\<close> is dropped in \<open>m\<close> without being closed.\<close>

definition accounted :: "notifications \<Rightarrow> notifications \<Rightarrow> bool" where
  "accounted n m \<longleftrightarrow> (\<exists>ms. n_sent m = n_sent n @ ms \<and>
     on_record n \<subseteq> on_record m \<union> {i. CloseNotification i \<in> set ms})"

text \<open>A notice waits for the reply of one call at most, and has no id until it came.\<close>

definition notify_keys :: "call list \<Rightarrow> (nat \<times> nat) list" where
  "notify_keys cs = map (\<lambda>c. (c_slot c, c_serial c)) (filter (\<lambda>c. c_kind c = NotifyCall) cs)"

definition linked :: "notifications \<Rightarrow> bool" where
  "linked n \<longleftrightarrow> distinct (notify_keys (n_calls n)) \<and>
     (\<forall>c \<in> set (n_calls n). c_kind c = NotifyCall \<and> nt_serial (n_notices n ! c_slot c) = c_serial c \<longrightarrow>
        nt_id (n_notices n ! c_slot c) = 0)"

lemma accounted_refl [simp]: "accounted n n"
  by (simp add: accounted_def)

lemma accounted_trans: "accounted n m \<Longrightarrow> accounted m p \<Longrightarrow> accounted n p"
  unfolding accounted_def by (elim exE conjE) (auto intro!: exI)

lemma accounted_closed: "accounted n m \<Longrightarrow> on_record n \<subseteq> on_record m \<union> closed_by n m"
  by (auto simp: accounted_def closed_by_iff)

text \<open>Only notices and messages matter.\<close>

lemma accounted_same: "n_notices m = n_notices n \<Longrightarrow> n_sent m = n_sent n @ ms \<Longrightarrow> accounted n m"
  by (auto simp: accounted_def on_record_def)

lemma linked_same: "linked n \<Longrightarrow> n_notices m = n_notices n \<Longrightarrow> n_calls m = n_calls n \<Longrightarrow> linked m"
  by (simp add: linked_def)

lemma on_record_update:
  "k < length (n_notices n) \<Longrightarrow> nt_id v = nt_id (n_notices n ! k) \<or> nt_id (n_notices n ! k) = 0 \<Longrightarrow>
   on_record n \<subseteq> on_record (n\<lparr>n_notices := (n_notices n)[k := v]\<rparr>)"
proof
  fix i
  assume a: "k < length (n_notices n)" "nt_id v = nt_id (n_notices n ! k) \<or> nt_id (n_notices n ! k) = 0" "i \<in> on_record n"
  then obtain j where j: "j < length (n_notices n)" "nt_id (n_notices n ! j) = i" "i \<noteq> 0"
    by (auto simp: on_record_def in_set_conv_nth)
  then have "nt_id ((n_notices n)[k := v] ! j) = i" using a by (auto simp: nth_list_update)
  then show "i \<in> on_record (n\<lparr>n_notices := (n_notices n)[k := v]\<rparr>)"
    using j by (auto simp: on_record_def intro!: image_eqI [of i nt_id "(n_notices n)[k := v] ! j"] nth_mem)
qed

lemma linked_update:
  assumes "linked n" and "nt_id v = 0 \<or> nt_id v = nt_id (n_notices n ! k) \<and> nt_serial v = nt_serial (n_notices n ! k)"
  shows "linked (n\<lparr>n_notices := (n_notices n)[k := v]\<rparr>)"
proof -
  have "nt_id ((n_notices n)[k := v] ! j) = 0"
    if "nt_serial ((n_notices n)[k := v] ! j) = s" "nt_serial (n_notices n ! j) = s \<longrightarrow> nt_id (n_notices n ! j) = 0" for j s
    using that assms(2) by (cases "k < length (n_notices n)"; cases "j = k") (auto simp: list_update_beyond not_less)
  then show ?thesis using assms(1) unfolding linked_def by simp
qed

lemma close_and_clear:
  assumes "good h S n" and "k < LIMIT" and "linked n"
    and m_def: "m = clear_notice k (close_id (nt_id (n_notices n ! k)) n)"
  shows "linked m \<and> accounted n m"
proof -
  let ?i = "nt_id (n_notices n ! k)"
  have len: "length (n_notices n) = LIMIT" using assms(1) by (rule good_length)
  have sent: "n_sent m = n_sent n @ (if ?i \<noteq> 0 then [CloseNotification ?i] else [])"
    using good_notice [OF assms(1,2)] by (auto simp: m_def close_id_def notice_ok_def)
  have "linked (close_id ?i n)" using assms(3) by (rule linked_same) simp_all
  then have "linked m" unfolding m_def clear_notice_def by (rule linked_update) simp
  moreover have "i \<in> on_record m \<union> {i. CloseNotification i \<in> set (if ?i \<noteq> 0 then [CloseNotification ?i] else [])}"
    if rec: "i \<in> on_record n" for i
  proof -
    obtain j where j: "j < LIMIT" "nt_id (n_notices n ! j) = i" "i \<noteq> 0"
      using rec len by (auto simp: on_record_def in_set_conv_nth)
    show ?thesis
    proof (cases "j = k")
      case False
      then have "nt_id ((n_notices n)[k := empty_notice] ! j) = i" using j by simp
      then show ?thesis using j len
        by (auto simp: m_def on_record_def intro!: image_eqI [of i nt_id "(n_notices n)[k := empty_notice] ! j"] nth_mem)
    qed (use j in auto)
  qed
  then have "accounted n m" unfolding accounted_def using sent by blast
  ultimately show ?thesis by blast
qed

lemma send_accounted:
  assumes "good h S n" and "k < LIMIT" and "linked n"
  shows "linked (send_notice escape k n) \<and> accounted n (send_notice escape k n)"
proof (cases "n_ready n \<and> nt_chat (n_notices n ! k) \<noteq> None \<and> nt_pending (n_notices n ! k)")
  case False
  then have "send_notice escape k n = n" by (intro send_notice_skip) blast
  then show ?thesis using assms(3) by simp
next
  case True
  let ?v = "n_notices n ! k" and ?m = "send_notice escape k n"
  define c where "c = \<lparr>c_kind = NotifyCall, c_generation = n_generation n, c_serial = nt_serial ?v, c_slot = k\<rparr>"
  have len: "length (n_notices n) = LIMIT" using assms(1) by (rule good_length)
  have id0: "nt_id ?v = 0" using good_notice [OF assms(1,2)] True by (auto simp: notice_ok_def)
  define u where "u = ?v\<lparr>nt_pending := False, nt_image := None\<rparr>"
  have fields: "n_notices ?m = (n_notices n)[k := u]" "n_calls ?m = n_calls n @ [c]"
    "\<exists>msg. n_sent ?m = n_sent n @ [msg]"
    using True assms(2) len by (auto simp: send_notice_def Let_def new_call_def c_def u_def)
  have u: "nt_id u = nt_id ?v" "nt_serial u = nt_serial ?v" by (simp_all add: u_def)
  have calls: "\<forall>c \<in> set (n_calls n). call_ok n c" using assms(1) by (simp add: good_def calls_ok_def)
  have "(k, nt_serial ?v) \<notin> set (notify_keys (n_calls n))"
    using calls True by (fastforce simp: notify_keys_def call_ok_def)
  then have "distinct (notify_keys (n_calls ?m))"
    using assms(3) by (auto simp: fields notify_keys_def linked_def c_def)
  moreover have "linked (n\<lparr>n_notices := (n_notices n)[k := u]\<rparr>)"
    using assms(3) by (rule linked_update) (simp add: u)
  ultimately have "linked ?m" using id0 u assms(2) len by (auto simp: linked_def fields c_def)
  moreover have "on_record n \<subseteq> on_record ?m"
    using on_record_update [of k n u] assms(2) len u by (simp add: on_record_def fields)
  then have "accounted n ?m" using fields(3) by (auto simp: accounted_def)
  ultimately show ?thesis by blast
qed

lemma send_all_accounted:
  "good h S n \<Longrightarrow> \<forall>k \<in> set ks. k < LIMIT \<Longrightarrow> linked n \<Longrightarrow>
   linked (fold (send_notice escape) ks n) \<and> accounted n (fold (send_notice escape) ks n)"
proof (induction ks arbitrary: S n)
  case (Cons k ks)
  have k: "k < LIMIT" using Cons.prems(2) by simp
  note one = send_accounted [OF Cons.prems(1) k Cons.prems(3), of escape]
  have "linked (fold (send_notice escape) ks (send_notice escape k n)) \<and>
      accounted (send_notice escape k n) (fold (send_notice escape) ks (send_notice escape k n))"
    by (rule Cons.IH [OF good_send [OF Cons.prems(1) k]]) (use Cons.prems(2) one in auto)
  then show ?case using one accounted_trans by auto
qed simp

lemma dismiss_accounted:
  assumes "good h S n" and "linked n"
  shows "linked (zc_notifications_dismiss chat n) \<and> accounted n (zc_notifications_dismiss chat n)"
proof -
  have "good h S (fold (dismiss_slot chat) ks n) \<and> linked (fold (dismiss_slot chat) ks n) \<and> accounted n (fold (dismiss_slot chat) ks n)"
    if "\<forall>k \<in> set ks. k < LIMIT" for ks
    using assms that
  proof (induction ks arbitrary: n)
    case (Cons k ks)
    have k: "k < LIMIT" using Cons.prems(3) by simp
    have "linked (dismiss_slot chat k n) \<and> accounted n (dismiss_slot chat k n)"
      using close_and_clear [OF Cons.prems(1) k Cons.prems(2)] Cons.prems(2) by (simp add: dismiss_slot_def)
    moreover have "good h S (dismiss_slot chat k n)" using Cons.prems(1) k by (rule good_dismiss_slot)
    ultimately show ?case using Cons.IH [of "dismiss_slot chat k n"] Cons.prems(3) accounted_trans by auto
  qed simp
  then show ?thesis unfolding zc_notifications_dismiss_def by simp
qed

lemma show_accounted:
  assumes "good h {} n" and "linked n"
  shows "linked (zc_notifications_show utf8 escape chat summary body picture n) \<and>
    accounted n (zc_notifications_show utf8 escape chat summary body picture n)"
proof (cases "utf8 chat \<and> utf8 summary \<and> utf8 body")
  case False
  then have "zc_notifications_show utf8 escape chat summary body picture n = n"
    by (auto simp: zc_notifications_show_def)
  then show ?thesis using assms by simp
next
  case True
  define n1 where "n1 = zc_notifications_dismiss chat n"
  define k where "k = choose_slot (n_notices n1) [0..<LIMIT] 0"
  define n2 where "n2 = clear_notice k (close_id (nt_id (n_notices n1 ! k)) n1)"
  define v where "v = (n_notices n2 ! k)\<lparr>nt_chat := Some chat, nt_summary := summary, nt_body := body,
     nt_image := (if zc_notifications_images n2 \<noteq> 0 then image_hint picture else None),
     nt_serial := n_serial n2 + 1, nt_pending := True\<rparr>"
  define n3 where "n3 = n2\<lparr>n_serial := n_serial n2 + 1, n_notices := (n_notices n2)[k := v]\<rparr>"
  have eq: "zc_notifications_show utf8 escape chat summary body picture n = send_notice escape k n3"
    using True unfolding zc_notifications_show_def Let_def n1_def k_def n2_def v_def n3_def by simp
  have k: "k < LIMIT" unfolding k_def by (rule choose_slot_less)
  have g1: "good h {} n1" unfolding n1_def using assms(1) by (rule good_dismiss)
  have g2: "good h {} n2" unfolding n2_def by (rule good_clear) (use g1 k in auto)
  have empty: "n_notices n2 ! k = empty_notice" using k good_length [OF g1] by (simp add: n2_def)
  have gone: "\<forall>j < LIMIT. nt_chat (n_notices n2 ! j) \<noteq> Some chat"
    using good_length [OF assms(1)] k
    by (auto simp: n2_def n1_def dismiss_notices nth_list_update nth_without)
  have g3: "good h (insert k {}) n3" unfolding n3_def
    by (rule good_insert [OF g2 k empty _ _ _ gone]) (simp_all add: v_def empty)
  note a1 = dismiss_accounted [OF assms, of chat, folded n1_def]
  note a2 = close_and_clear [OF g1 k conjunct1 [OF a1], folded n2_def]
  have v0: "nt_id v = 0" by (simp add: v_def empty)
  have "linked (n2\<lparr>n_notices := (n_notices n2)[k := v]\<rparr>)" by (rule linked_update) (use a2 v0 in simp_all)
  then have l3: "linked n3" by (rule linked_same) (simp_all add: n3_def)
  have "on_record n2 \<subseteq> on_record n3"
    using on_record_update [of k n2 v] k good_length [OF g2] v0 empty by (simp add: on_record_def n3_def)
  then have "accounted n2 n3" by (auto simp: accounted_def n3_def)
  then show ?thesis unfolding eq
    using send_accounted [OF g3 k l3, of escape] accounted_trans [OF accounted_trans [OF accounted_trans [OF conjunct2 [OF a1] conjunct2 [OF a2]]]]
    by simp
qed

lemma clients_accounted:
  "good h {} n \<Longrightarrow> linked n \<Longrightarrow>
   linked (fold (client_step utf8 escape) cs n) \<and> accounted n (fold (client_step utf8 escape) cs n)"
proof (induction cs arbitrary: n)
  case (Cons c cs)
  have "linked (client_step utf8 escape c n) \<and> accounted n (client_step utf8 escape c n)"
    using Cons.prems by (cases c) (simp_all add: show_accounted dismiss_accounted)
  moreover have "good h {} (client_step utf8 escape c n)" using Cons.prems(1) by (rule good_client)
  ultimately show ?case using Cons.IH accounted_trans by auto
qed simp

lemma signal_accounted:
  assumes "good h {} n" and "linked n"
    and m_def: "m = signal_received (Some (\<lambda>chat token. fold (client_step utf8 escape) back)) sender signal params n"
  shows "linked m \<and> on_record n \<subseteq> on_record m \<union> reported (Signal sender signal params back) n \<union> closed_by n m"
proof -
  have len: "length (n_notices n) = LIMIT" using assms(1) by (rule good_length)
  have found: "k < LIMIT" "nt_id (n_notices n ! k) = i"
    if "find (\<lambda>k. nt_chat (n_notices n ! k) \<noteq> None \<and> i \<noteq> 0 \<and> nt_id (n_notices n ! k) = i) [0..<LIMIT] = Some k" for k i
    using that by (auto simp: find_Some_iff)
  have cleared: "linked (clear_notice k n) \<and> on_record n \<subseteq> on_record (clear_notice k n) \<union> {nt_id (n_notices n ! k)}"
    if "k < LIMIT" for k
  proof -
    have "linked (clear_notice k n)" unfolding clear_notice_def using assms(2) by (rule linked_update) simp
    moreover have "i \<in> on_record (clear_notice k n)" if rec: "i \<in> on_record n" "i \<noteq> nt_id (n_notices n ! k)" for i
    proof -
      obtain j where j: "j < LIMIT" "nt_id (n_notices n ! j) = i" "i \<noteq> 0"
        using rec(1) len by (auto simp: on_record_def in_set_conv_nth)
      then have "nt_id ((n_notices n)[k := empty_notice] ! j) = i" using rec(2) by (cases "j = k") auto
      then show ?thesis using j len
        by (auto simp: on_record_def intro!: image_eqI [of i nt_id "(n_notices n)[k := empty_notice] ! j"] nth_mem)
    qed
    ultimately show ?thesis by blast
  qed
  have token: "linked (n\<lparr>n_notices := (n_notices n)[k := (n_notices n ! k)\<lparr>nt_token := Some t\<rparr>]\<rparr>) \<and>
      on_record n \<subseteq> on_record (n\<lparr>n_notices := (n_notices n)[k := (n_notices n ! k)\<lparr>nt_token := Some t\<rparr>]\<rparr>)"
    if "k < LIMIT" for k t
    using linked_update [OF assms(2), of "(n_notices n ! k)\<lparr>nt_token := Some t\<rparr>" k] that len
      on_record_update [of k n "(n_notices n ! k)\<lparr>nt_token := Some t\<rparr>"] by simp
  have clients: "linked (fold (client_step utf8 escape) back n) \<and> accounted n (fold (client_step utf8 escape) back n)"
    using assms(1,2) by (rule clients_accounted)
  show ?thesis
  proof (cases "n_stopped n \<or> sender \<noteq> n_owner n")
    case True
    then show ?thesis using assms(2) by (auto simp: m_def signal_received_def)
  next
    case False
    let ?token = "\<lambda>k t. n\<lparr>n_notices := (n_notices n)[k := (n_notices n ! k)\<lparr>nt_token := Some t\<rparr>]\<rparr>"
    let ?find = "\<lambda>i. find (\<lambda>k. nt_chat (n_notices n ! k) \<noteq> None \<and> i \<noteq> 0 \<and> nt_id (n_notices n ! k) = i) [0..<LIMIT]"
    consider "m = n" | k t where "k < LIMIT" "m = ?token k t" | "m = fold (client_step utf8 escape) back n"
      | k reason where "k < LIMIT" "m = clear_notice k n" "signal = NotificationClosed"
        "params = UU (nt_id (n_notices n ! k)) reason"
    proof (cases params)
      case (UU i reason)
      show ?thesis
      proof (cases "?find i")
        case None
        then show ?thesis using that(1) False UU by (cases signal) (simp_all add: m_def signal_received_def)
      next
        case (Some k)
        show ?thesis
        proof (cases signal)
          case NotificationClosed
          then have "m = clear_notice k n" using Some False UU by (simp add: m_def signal_received_def)
          then show ?thesis using that(4) found [OF Some] NotificationClosed UU by blast
        qed (use that(1) False UU in \<open>simp_all add: m_def signal_received_def\<close>)
      qed
    next
      case (US i v)
      show ?thesis
      proof (cases "?find i")
        case None
        then show ?thesis using that(1) False US by (cases signal) (simp_all add: m_def signal_received_def)
      next
        case (Some k)
        show ?thesis
        proof (cases signal)
          case ActivationToken
          then have "m = ?token k v" using Some False US by (simp add: m_def signal_received_def)
          then show ?thesis using that(2) found(1) [OF Some] by blast
        next
          case ActionInvoked
          then have "m = (if v = ''default'' then fold (client_step utf8 escape) back n else n)"
            using Some False US by (simp add: m_def signal_received_def)
          then show ?thesis using that(1,3) by (cases "v = ''default''") simp_all
        qed (use that(1) False US in \<open>simp_all add: m_def signal_received_def\<close>)
      qed
    next
      case OtherParameters
      then show ?thesis using that(1) False by (cases signal) (simp_all add: m_def signal_received_def)
    qed
    then show ?thesis
    proof cases
      case 1
      then show ?thesis using assms(2) by auto
    next
      case 2
      then show ?thesis using token by blast
    next
      case 3
      then show ?thesis using clients accounted_closed by blast
    next
      case 4
      then show ?thesis using cleared False by auto
    qed
  qed
qed

text \<open>Giving back a reference on a running component changes neither notices nor messages.\<close>

lemma release_running:
  assumes "good (Suc h) S n" and "\<not> n_stopped n"
  shows "release n = n\<lparr>n_refs := n_refs n - 1\<rparr>"
proof -
  have "n_refs n - 1 \<noteq> 0" using assms by (simp add: good_def held_def)
  then show ?thesis by (simp add: release_def)
qed

lemma complete_linked:
  assumes "linked n" and "k < length (n_calls n)"
  shows "linked (complete k n)" and "n_notices (complete k n) = n_notices n" and "n_sent (complete k n) = n_sent n"
    and "c_kind (n_calls n ! k) = NotifyCall \<Longrightarrow> c \<in> set (n_calls (complete k n)) \<Longrightarrow> c_kind c = NotifyCall \<Longrightarrow>
      (c_slot c, c_serial c) \<noteq> (c_slot (n_calls n ! k), c_serial (n_calls n ! k))"
proof -
  let ?a = "take k (n_calls n)" and ?b = "drop (Suc k) (n_calls n)" and ?c = "n_calls n ! k"
  have split: "n_calls n = ?a @ ?c # ?b" using assms(2) by (rule id_take_nth_drop)
  have keys: "distinct (notify_keys (?a @ ?c # ?b))" using assms(1) split by (simp add: linked_def)
  have "distinct (notify_keys (?a @ ?b))" using keys by (auto simp: notify_keys_def split: if_splits)
  moreover have "set (?a @ ?b) \<subseteq> set (n_calls n)" using set_take_subset set_drop_subset by fastforce
  ultimately show "linked (complete k n)" using assms(1) by (auto simp: linked_def complete_def)
  show "n_notices (complete k n) = n_notices n" "n_sent (complete k n) = n_sent n" by (simp_all add: complete_def)
  assume c: "c_kind ?c = NotifyCall" "c \<in> set (n_calls (complete k n))" "c_kind c = NotifyCall"
  then have "(c_slot c, c_serial c) \<in> set (notify_keys (?a @ ?b))" by (auto simp: notify_keys_def complete_def)
  moreover have "notify_keys (?a @ ?c # ?b) = notify_keys ?a @ (c_slot ?c, c_serial ?c) # notify_keys ?b"
    "notify_keys (?a @ ?b) = notify_keys ?a @ notify_keys ?b"
    using c(1) by (simp_all add: notify_keys_def)
  ultimately show "(c_slot c, c_serial c) \<noteq> (c_slot ?c, c_serial ?c)" using keys by auto
qed

lemma notified_accounted:
  assumes "good 0 {} n" and "\<not> n_stopped n" and "linked n" and "k < length (n_calls n)"
    and "c_kind (n_calls n ! k) = NotifyCall"
    and m_def: "m = notified (n_calls n ! k) reply (complete k n)"
  shows "linked m \<and> on_record n \<union> acknowledged (NotifyReply k reply) n \<subseteq> on_record m \<union> closed_by n m"
proof -
  define c where "c = n_calls n ! k"
  define p where "p = complete k n"
  let ?v = "n_notices n ! c_slot c"
  note comp = complete_linked [OF assms(3,4), folded p_def c_def]
  have g: "good (Suc 0) {} p" unfolding p_def using assms(1,4) by (rule good_complete)
  have call: "call_ok n c" using assms(1,4) by (simp add: good_def calls_ok_def c_def)
  have slot: "c_slot c < LIMIT" using call by (simp add: call_ok_def)
  have len: "length (n_notices n) = LIMIT" using assms(1) by (rule good_length)
  have fields: "\<not> n_stopped p" "n_generation p = n_generation n" "n_owner p = n_owner n" "n_bus p = n_bus n"
    using assms(2) by (simp_all add: p_def complete_def)
  have id0: "nt_id ?v = 0" if "nt_serial ?v = c_serial c"
    using assms(3-5) that nth_mem unfolding linked_def c_def by blast
  have drop: "release q = q\<lparr>n_refs := n_refs q - 1\<rparr>" if "n_refs q = n_refs p" for q
  proof -
    have "n_refs q - 1 \<noteq> 0" using g fields(1) that by (simp add: good_def held_def)
    then show ?thesis by (simp add: release_def)
  qed
  have unchanged: ?thesis if "m = release p" "acknowledged (NotifyReply k reply) n = {}"
    using that comp(1-3) drop [of p] by (auto simp: linked_def on_record_def)
  show ?thesis
  proof (cases reply)
    case None
    show ?thesis
    proof (cases "c_generation c = n_generation n \<and> nt_serial ?v = c_serial c")
      case False
      then show ?thesis using None comp(2) fields(2)
        by (intro unchanged) (auto simp: m_def notified_def p_def [symmetric] c_def [symmetric])
    next
      case True
      define q where "q = p\<lparr>n_notices := (n_notices p)[c_slot c := empty_notice]\<rparr>"
      have m: "m = q\<lparr>n_refs := n_refs q - 1\<rparr>"
        using True None comp(2) fields(2) drop [of q]
        by (simp add: m_def notified_def p_def [symmetric] c_def [symmetric] clear_notice_def q_def)
      have "linked q" unfolding q_def using comp(1) by (rule linked_update) simp
      then have "linked m" by (rule linked_same) (simp_all add: m)
      moreover have "on_record p \<subseteq> on_record q"
        unfolding q_def by (rule on_record_update) (use slot len comp(2) id0 True in simp_all)
      ultimately show ?thesis using None comp(2) by (auto simp: m on_record_def)
    qed
  next
    case (Some i)
    show ?thesis
    proof (cases "c_generation c = n_generation n")
      case False
      then show ?thesis using Some fields
        by (intro unchanged) (auto simp: m_def notified_def p_def [symmetric] c_def [symmetric])
    next
      case cur: True
      have pos: "0 < c_serial c" using call assms(5) by (simp add: call_ok_def c_def)
      have chat: "nt_chat ?v \<noteq> None" if "nt_serial ?v = c_serial c"
        using that pos good_notice [OF assms(1) slot] by (auto simp: notice_ok_def)
      show ?thesis
      proof (cases "nt_serial ?v = c_serial c")
        case True
        define q where "q = p\<lparr>n_notices := (n_notices p)[c_slot c := ?v\<lparr>nt_id := i\<rparr>]\<rparr>"
        have m: "m = q\<lparr>n_refs := n_refs q - 1\<rparr>"
          using True chat Some cur comp(2) fields drop [of q]
          by (simp add: m_def notified_def p_def [symmetric] c_def [symmetric] q_def Let_def)
        have other: "(c_slot d, c_serial d) \<noteq> (c_slot c, c_serial c)" if "d \<in> set (n_calls p)" "c_kind d = NotifyCall" for d
          using comp(4) [OF _ that] assms(5) by (simp add: c_def)
        have "linked q" unfolding linked_def
        proof (intro conjI ballI impI)
          show "distinct (notify_keys (n_calls q))" using comp(1) by (simp add: linked_def q_def)
          fix d
          assume d: "d \<in> set (n_calls q)" "c_kind d = NotifyCall \<and> nt_serial (n_notices q ! c_slot d) = c_serial d"
          then have "c_slot d \<noteq> c_slot c" using other [of d] True slot len comp(2) by (auto simp: q_def)
          then show "nt_id (n_notices q ! c_slot d) = 0" using d comp(1,2) by (simp add: q_def linked_def)
        qed
        then have "linked m" by (rule linked_same) (simp_all add: m)
        moreover have "on_record p \<subseteq> on_record q"
          unfolding q_def by (rule on_record_update) (use slot len comp(2) id0 True in simp_all)
        moreover have "i \<in> on_record q" if "i \<noteq> 0"
          using that slot len comp(2) by (auto simp: q_def on_record_def set_update_memI intro!: image_eqI [of i nt_id "?v\<lparr>nt_id := i\<rparr>"])
        ultimately show ?thesis using Some comp(2) by (auto simp: m on_record_def split: if_splits)
      next
        case False
        have sent: "n_sent (close_id i p) = n_sent n @ (if i \<noteq> 0 then [CloseNotification i] else [])"
          using call cur comp(3) fields by (auto simp: close_id_def call_ok_def)
        have refs: "n_refs (close_id i p) = n_refs p" by simp
        have m: "m = (close_id i p)\<lparr>n_refs := n_refs p - 1\<rparr>"
          using False Some cur comp(2) fields drop [OF refs]
          by (simp add: m_def notified_def p_def [symmetric] c_def [symmetric] Let_def)
        have "linked (close_id i p)" using comp(1) by (rule linked_same) simp_all
        then have "linked m" by (rule linked_same) (simp_all add: m)
        then show ?thesis using Some comp(2) sent by (auto simp: m on_record_def closed_by_iff split: if_splits)
      qed
    qed
  qed
qed

lemma capabilities_accounted:
  assumes "good 0 {} n" and "\<not> n_stopped n" and "linked n" and "k < length (n_calls n)"
    and m_def: "m = capabilities escape (n_calls n ! k) reply (complete k n)"
  shows "linked m \<and> on_record n \<subseteq> on_record m \<union> closed_by n m"
proof -
  define p where "p = complete k n"
  let ?c = "n_calls n ! k"
  note comp = complete_linked [OF assms(3,4), folded p_def]
  have g: "good (Suc 0) {} p" unfolding p_def using assms(1,4) by (rule good_complete)
  have run: "\<not> n_stopped p" "n_generation p = n_generation n" using assms(2) by (simp_all add: p_def complete_def)
  have "call_ok n ?c" using assms(1,4) by (simp add: good_def calls_ok_def)
  then have c: "call_ok p ?c" by (simp add: call_ok_def p_def complete_def)
  have rel: "linked (release q) \<and> on_record n \<subseteq> on_record (release q) \<union> closed_by n (release q)"
    if "good (Suc 0) {} q" "\<not> n_stopped q" "linked q" "accounted n q" for q
    using that release_running [OF that(1,2)] accounted_closed [OF that(4)]
    by (auto simp: linked_def on_record_def closed_by_iff)
  have ap: "accounted n p" by (rule accounted_same [of _ _ "[]"]) (simp_all add: comp)
  show ?thesis
  proof (cases "c_generation ?c = n_generation n")
    case False
    then show ?thesis using rel [OF g run(1) comp(1) ap] run
      by (simp add: m_def capabilities_def p_def [symmetric])
  next
    case True
    obtain a b d where m: "m = release (fold (send_notice escape) [0..<LIMIT]
        (p\<lparr>n_actions := a, n_markup := b, n_images := d, n_ready := True\<rparr>))"
      using True run by (cases reply) (auto simp: m_def capabilities_def p_def [symmetric] Let_def)
    define q where "q = p\<lparr>n_actions := a, n_markup := b, n_images := d, n_ready := True\<rparr>"
    have gq: "good (Suc 0) {..<LIMIT} q" using g c True run by (auto simp: q_def good_def inv_defs)
    have lq: "linked q" using comp(1) by (rule linked_same) (simp_all add: q_def)
    have aq: "accounted n q" by (rule accounted_same [of _ _ "[]"]) (simp_all add: comp q_def)
    define r where "r = fold (send_notice escape) [0..<LIMIT] q"
    have gr: "good (Suc 0) {} r" using good_send_all [OF gq, of "[0..<LIMIT]" escape] by (auto simp: r_def elim: good_mono)
    have "linked r \<and> accounted q r" unfolding r_def by (rule send_all_accounted [OF gq _ lq]) simp
    then show ?thesis
      using rel [OF gr] run accounted_trans [OF aq] by (auto simp: m r_def q_def send_all_keeps)
  qed
qed

lemma free_closes:
  assumes "good 0 {} n" and "\<not> n_stopped n"
  shows "on_record n \<subseteq> closed_by n (zc_notifications_free n)" and "n_stopped (zc_notifications_free n)"
proof -
  define p where "p = n\<lparr>n_stopped := True, n_subscribed := False\<rparr>"
  let ?close = "\<lambda>k n. close_id (nt_id (n_notices n ! k)) n"
  have fold: "\<exists>ms. fold ?close ks q = q\<lparr>n_sent := n_sent q @ ms\<rparr> \<and>
      (\<forall>k \<in> set ks. nt_id (n_notices q ! k) \<noteq> 0 \<and> n_bus q \<and> n_owner q \<noteq> None \<longrightarrow>
         CloseNotification (nt_id (n_notices q ! k)) \<in> set ms)" for ks q
  proof (induction ks arbitrary: q)
    case Nil
    have "fold ?close [] q = q\<lparr>n_sent := n_sent q @ []\<rparr>" by simp
    then show ?case by (intro exI [of _ "[]"]) simp
  next
    case (Cons k ks)
    define one where "one = (if nt_id (n_notices q ! k) \<noteq> 0 \<and> n_bus q \<and> n_owner q \<noteq> None
      then [CloseNotification (nt_id (n_notices q ! k))] else [])"
    have eq: "?close k q = q\<lparr>n_sent := n_sent q @ one\<rparr>" by (simp add: close_id_def one_def)
    obtain ms where ms: "fold ?close ks (q\<lparr>n_sent := n_sent q @ one\<rparr>) = (q\<lparr>n_sent := n_sent q @ one\<rparr>)\<lparr>n_sent := (n_sent q @ one) @ ms\<rparr>"
      "\<forall>j \<in> set ks. nt_id (n_notices q ! j) \<noteq> 0 \<and> n_bus q \<and> n_owner q \<noteq> None \<longrightarrow>
         CloseNotification (nt_id (n_notices q ! j)) \<in> set ms"
      using Cons.IH [of "q\<lparr>n_sent := n_sent q @ one\<rparr>"] by auto
    then show ?case by (intro exI [of _ "one @ ms"]) (auto simp: eq one_def)
  qed
  obtain ms where ms: "fold ?close [0..<LIMIT] p = p\<lparr>n_sent := n_sent p @ ms\<rparr>"
    "\<forall>k < LIMIT. nt_id (n_notices p ! k) \<noteq> 0 \<and> n_bus p \<and> n_owner p \<noteq> None \<longrightarrow>
         CloseNotification (nt_id (n_notices p ! k)) \<in> set ms"
    using fold [of "[0..<LIMIT]" p] by auto
  have eq: "zc_notifications_free n = release (p\<lparr>n_sent := n_sent p @ ms\<rparr>)"
    by (simp add: zc_notifications_free_def Let_def p_def [symmetric] ms(1))
  have sent: "n_sent (release q) = n_sent q" "n_stopped (release q) = n_stopped q" for q
    by (simp_all add: release_def Let_def)
  show "n_stopped (zc_notifications_free n)" by (simp add: eq sent p_def)
  show "on_record n \<subseteq> closed_by n (zc_notifications_free n)"
  proof
    fix i
    assume "i \<in> on_record n"
    then obtain k where k: "k < LIMIT" "nt_id (n_notices n ! k) = i" "i \<noteq> 0"
      using good_length [OF assms(1)] by (auto simp: on_record_def in_set_conv_nth)
    then have "CloseNotification i \<in> set ms"
      using ms(2) good_notice [OF assms(1) k(1)] by (auto simp: p_def notice_ok_def)
    then show "i \<in> closed_by n (zc_notifications_free n)" by (simp add: closed_by_iff eq sent p_def)
  qed
qed

text \<open>Every event of a running component keeps or closes what is on record.\<close>

lemma step_accounted:
  assumes "good 0 {} n" and "\<not> n_stopped n" and "linked n" and "allowed e n"
    and m_def: "m = notification_step utf8 escape e n"
  shows "(n_stopped m \<or> linked m) \<and> (on_record n \<union> acknowledged e n) - reported e n - closed_by n m \<subseteq> on_record m \<and>
    (n_stopped m \<longrightarrow> on_record n \<union> acknowledged e n \<subseteq> closed_by n m)"
proof (cases e)
  case (Client c)
  have "linked m \<and> accounted n m" using clients_accounted [OF assms(1,3), of utf8 escape "[c]"] Client by (simp add: m_def)
  moreover have "\<not> n_stopped m" using assms(2) Client by (simp add: m_def client_keeps)
  ultimately show ?thesis using Client accounted_closed by auto
next
  case (Appeared owner)
  have "n_notices m = n_notices n" "notify_keys (n_calls m) = notify_keys (n_calls n)" "n_stopped m = n_stopped n"
    "\<forall>c \<in> set (n_calls m). c \<in> set (n_calls n) \<or> c_kind c = CapsCall"
    using Appeared by (simp_all add: m_def appeared_def new_call_def Let_def notify_keys_def)
  then show ?thesis using assms(2,3) Appeared by (auto simp: linked_def)
next
  case Vanished
  have m: "m = n\<lparr>n_generation := n_generation n + 1, n_ready := False, n_subscribed := False, n_owner := None,
      n_notices := replicate LIMIT empty_notice\<rparr>"
    using Vanished good_length [OF assms(1)] by (simp add: m_def vanished_def clear_all_eq)
  have "\<forall>c \<in> set (n_calls n). c_slot c < LIMIT" using assms(1) by (auto simp: good_def calls_ok_def call_ok_def)
  then show ?thesis using assms(2,3) Vanished by (simp add: m linked_def)
next
  case (NotifyReply k reply)
  then have k: "k < length (n_calls n)" "c_kind (n_calls n ! k) = NotifyCall" using assms(4) by simp_all
  have m: "m = notified (n_calls n ! k) reply (complete k n)" using NotifyReply by (simp add: m_def)
  have "n_stopped (release q) = n_stopped q" for q by (simp add: release_def Let_def)
  then have "\<not> n_stopped m" using assms(2)
    by (auto simp: m notified_def complete_def Let_def split: option.split)
  then show ?thesis using notified_accounted [OF assms(1-3) k m] NotifyReply by auto
next
  case (CapsReply k reply)
  then have k: "k < length (n_calls n)" using assms(4) by simp
  have m: "m = capabilities escape (n_calls n ! k) reply (complete k n)" using CapsReply by (simp add: m_def)
  have "n_stopped (release q) = n_stopped q" for q by (simp add: release_def Let_def)
  then have "\<not> n_stopped m" using assms(2)
    by (auto simp: m capabilities_def complete_def Let_def send_all_keeps split: option.split)
  then show ?thesis using capabilities_accounted [OF assms(1-3) k m] CapsReply by auto
next
  case (Signal sender signal params cs)
  have m: "m = signal_received (Some (\<lambda>chat token. fold (client_step utf8 escape) cs)) sender signal params n"
    using Signal by (simp add: m_def)
  have keeps: "n_stopped (fold (client_step utf8 escape) cs n) = n_stopped n" for n
    by (induction cs arbitrary: n) (simp_all add: client_keeps)
  have "n_stopped m = n_stopped n"
    unfolding m signal_received_def Let_def
    by (auto simp: keeps split: option.split signal_name.split parameters.split)
  then show ?thesis using signal_accounted [OF assms(1,3) m] assms(2) Signal by auto
next
  case Free
  then have m: "m = zc_notifications_free n" by (simp add: m_def)
  show ?thesis using free_closes [OF assms(1,2)] Free by (auto simp: m)
qed

lemma history_reachable: "history utf8 escape n open_ids \<Longrightarrow> reachable utf8 escape n"
  by (induction rule: history.induct) (auto intro: reachable.intros)

lemma history_on_record:
  "history utf8 escape n open_ids \<Longrightarrow> (if n_stopped n then open_ids = {} else linked n \<and> open_ids \<subseteq> on_record n)"
proof (induction rule: history.induct)
  case history_new
  then show ?case by (simp add: zc_notifications_new_def linked_def notify_keys_def)
next
  case (history_step n open_ids e m)
  show ?case
  proof (cases "n_stopped n")
    case True
    have "n_stopped m"
    proof (cases e)
      case (NotifyReply k reply)
      then show ?thesis using True history_step.hyps(3)
        by (auto simp: notified_def release_def complete_def clear_notice_def Let_def split: option.split)
    next
      case (CapsReply k reply)
      then show ?thesis using True history_step.hyps(3) by (simp add: capabilities_def release_def complete_def Let_def)
    qed (use True history_step.hyps(2) in auto)
    moreover have "acknowledged e n = {}"
    proof (cases e)
      case (NotifyReply k reply)
      then show ?thesis using True by (cases reply) simp_all
    qed simp_all
    ultimately show ?thesis using history_step.IH True by simp
  next
    case False
    have good: "good 0 {} n"
      using reachable_fine [OF history_reachable [OF history_step.hyps(1)]] False by (auto simp: fine_def released_def)
    have old: "linked n" "open_ids \<subseteq> on_record n" using history_step.IH False by simp_all
    show ?thesis
      using step_accounted [OF good False old(1) history_step.hyps(2,3)] old(2) by auto
  qed
qed

text \<open>
  C28: The component keeps track of every notification it learned the id of. Take all ids that a
  \<open>Notify\<close> reply gave while the component was running and the daemon it asked still owned the name,
  less those that the daemon reported closed, that went with the daemon, or that the component asked
  to close since: each is the id of a current notice, so that a later dismissal closes it, and none
  is left once the component is freed. A reply that comes late, for a notice read or replaced
  meanwhile, therefore closes its notification at once. Replies that fail (a time out among them),
  that arrive after the component was freed, or that come from an earlier daemon give no id to follow.
\<close>

theorem zc_notifications_no_orphan:
  assumes "history utf8 escape n open_ids"
  shows "(n_stopped n \<longrightarrow> open_ids = {}) \<and>
    (\<forall>i \<in> open_ids. i \<noteq> 0 \<and> (\<exists>k < LIMIT. nt_chat (n_notices n ! k) \<noteq> None \<and> nt_id (n_notices n ! k) = i))"
proof (cases "n_stopped n")
  case True
  then show ?thesis using history_on_record [OF assms] by simp
next
  case False
  have good: "good 0 {} n"
    using reachable_fine [OF history_reachable [OF assms]] False by (auto simp: fine_def released_def)
  have "\<exists>k < LIMIT. nt_chat (n_notices n ! k) \<noteq> None \<and> nt_id (n_notices n ! k) = i" if rec: "i \<in> on_record n" for i
  proof -
    obtain k where k: "k < LIMIT" "nt_id (n_notices n ! k) = i" "i \<noteq> 0"
      using rec good_length [OF good] by (auto simp: on_record_def in_set_conv_nth)
    then show ?thesis using good_notice [OF good k(1)] by (auto simp: notice_ok_def)
  qed
  moreover have "open_ids \<subseteq> on_record n" using history_on_record [OF assms] False by simp
  ultimately show ?thesis using False by (auto simp: on_record_def)
qed

text \<open>A run with the events that make it up.\<close>

fun run_history :: "(string \<Rightarrow> bool) \<Rightarrow> (string \<Rightarrow> string) \<Rightarrow> event list \<Rightarrow> notifications \<times> nat set \<Rightarrow> (notifications \<times> nat set) option" where
  "run_history utf8 escape [] s = Some s"
| "run_history utf8 escape (e # es) (n, open_ids) =
     (if \<not> allowed e n then None
      else let m = notification_step utf8 escape e n in
        run_history utf8 escape es (m, (open_ids \<union> acknowledged e n) - reported e n - closed_by n m))"

lemma run_history_history:
  "run_history utf8 escape es (n, open_ids) = Some (m, ids) \<Longrightarrow> history utf8 escape n open_ids \<Longrightarrow> history utf8 escape m ids"
proof (induction es arbitrary: n open_ids)
  case (Cons e es)
  then show ?case using history_step by (auto simp: Let_def simp del: notification_step.simps split: if_splits)
qed simp

text \<open>
  Two chats: the reply for \<open>c\<close> came with id 7, which is open; then \<open>a\<close> is read and its reply comes with
  id 9, which is closed at once.
\<close>

definition late_reply :: "event list" where
  "late_reply = [Appeared '':1.1'', CapsReply 0 (Some [''actions'']), Client (Show ''a'' ''s'' ''b'' None),
      Client (Show ''c'' ''s'' ''b'' None), NotifyReply 1 (Some 7), Client (Dismiss ''a''), NotifyReply 0 (Some 9)]"

definition late_run :: "notifications \<times> nat set" where
  "late_run = the (run_history (\<lambda>_. True) id late_reply (zc_notifications_new, {}))"

theorem zc_notifications_no_orphan_witness:
  "history (\<lambda>_. True) id (fst late_run) (snd late_run) \<and> 7 \<in> snd late_run \<and> 9 \<notin> snd late_run \<and>
   last (n_sent (fst late_run)) = CloseNotification 9 \<and>
   (\<exists>k < LIMIT. nt_chat (n_notices (fst late_run) ! k) \<noteq> None \<and> nt_id (n_notices (fst late_run) ! k) = 7)"
proof -
  have "run_history (\<lambda>_. True) id late_reply (zc_notifications_new, {}) \<noteq> None" by code_simp
  then have "run_history (\<lambda>_. True) id late_reply (zc_notifications_new, {}) = Some (fst late_run, snd late_run)"
    by (auto simp: late_run_def)
  then have h: "history (\<lambda>_. True) id (fst late_run) (snd late_run)" by (rule run_history_history) (rule history_new)
  moreover have m: "7 \<in> snd late_run" "9 \<notin> snd late_run" "last (n_sent (fst late_run)) = CloseNotification 9"
    by code_simp+
  ultimately show ?thesis using zc_notifications_no_orphan [OF h] by blast
qed

section \<open>Pictures\<close>

lemma upto_upt: "[0..int n - 1] = map int [0..<n]"
proof (induction n)
  case (Suc n)
  then show ?case by (simp add: upto_rec2)
qed simp

lemma concat_chunks: "concat (map (\<lambda>i. take m (drop (i * m) xs)) [0..<n]) = take (n * m) xs"
  by (induction n) (simp_all add: take_add [symmetric] add.commute)

lemma scaled_bounds:
  assumes "0 < side" "side \<le> edge"
  shows "1 \<le> scaled side edge" "scaled side edge \<le> 128"
proof -
  have "side * 128 div edge \<le> edge * 128 div edge" using assms by (intro zdiv_mono1) auto
  then have "side * 128 div edge \<le> 128" using assms by simp
  then show "1 \<le> scaled side edge" "scaled side edge \<le> 128"
    using assms by (auto simp: scaled_def IMAGE_EDGE_def)
qed

lemma scaled_index:
  assumes "0 \<le> y" "y < h" "0 < H"
  shows "0 \<le> y * H div h \<and> y * H div h < (H :: int)"
proof -
  have "y * H < H * h" using assms by (simp add: mult.commute mult_strict_left_mono)
  moreover have "y * H div h * h \<le> y * H" using assms by (simp add: div_times_less_eq_dividend minus_mod_eq_div_mult [symmetric])
  ultimately have "y * H div h * h < H * h" by linarith
  then show ?thesis using assms by (simp add: pos_imp_zdiv_nonneg_iff)
qed

lemma source_offset_bounds:
  assumes "0 \<le> y" "y < h" "0 \<le> x" "x < w" "0 < px_width im" "0 < px_height im"
  shows "0 \<le> source_offset w h im y x" "source_offset w h im y x + 4 \<le> px_width im * px_height im * 4"
proof -
  let ?y = "y * px_height im div h" and ?x = "x * px_width im div w"
  have y: "0 \<le> ?y" "?y \<le> px_height im - 1" and x: "0 \<le> ?x" "?x \<le> px_width im - 1"
    using scaled_index assms by auto
  show "0 \<le> source_offset w h im y x" using y x assms by (simp add: source_offset_def)
  have "?y * px_width im \<le> (px_height im - 1) * px_width im" using y assms by (intro mult_right_mono) auto
  then show "source_offset w h im y x + 4 \<le> px_width im * px_height im * 4"
    using x by (simp add: source_offset_def algebra_simps)
qed

lemma image_rows:
  assumes "length (px_data im) = px_bytes im" "image_hint (Some im) = Some h"
  defines "w \<equiv> h_width h" and "e \<equiv> h_height h"
  shows "0 < px_width im" "0 < px_height im" "int (length (px_data im)) = px_width im * px_height im * 4"
    "w = scaled (px_width im) (max (px_width im) (px_height im))"
    "e = scaled (px_height im) (max (px_width im) (px_height im))"
    "h_bytes h = concat (map (\<lambda>y. concat (map (\<lambda>x.
       take 4 (drop (nat (source_offset w e im y x)) (px_data im))) [0..w - 1])) [0..e - 1])"
  using assms by (auto simp: image_hint_def Let_def split: if_splits)

text \<open>
  \<open>image_hint\<close> reads only inside the picture and stays within its budget: for a picture
  whose buffer has the bytes it claims, both edges of the result are 1 to 128, its bytes are
  exactly \<open>width * height * 4\<close>, at most 64 KiB, every pixel is four bytes inside the source
  buffer, and a picture that already fits is passed on unchanged.
\<close>

theorem image_hint_bounds:
  assumes "length (px_data im) = px_bytes im" "image_hint (Some im) = Some h"
  shows "1 \<le> h_width h \<and> h_width h \<le> 128 \<and> 1 \<le> h_height h \<and> h_height h \<le> 128 \<and> h_stride h = h_width h * 4 \<and>
    int (length (h_bytes h)) = h_width h * h_height h * 4 \<and> length (h_bytes h) \<le> 65536 \<and>
    (\<forall>y \<in> {0..<h_height h}. \<forall>x \<in> {0..<h_width h}.
       0 \<le> source_offset (h_width h) (h_height h) im y x \<and>
       source_offset (h_width h) (h_height h) im y x + 4 \<le> int (length (px_data im))) \<and>
    (px_width im \<le> 128 \<and> px_height im \<le> 128 \<longrightarrow> h_bytes h = px_data im)"
proof -
  let ?W = "px_width im" and ?H = "px_height im"
  define w where "w = h_width h"
  define e where "e = h_height h"
  note rows = image_rows [OF assms, folded w_def e_def]
  have stride: "h_stride h = w * 4" using assms(2) by (auto simp: image_hint_def Let_def w_def e_def split: if_splits)
  have we: "1 \<le> w" "w \<le> 128" "1 \<le> e" "e \<le> 128"
    unfolding rows(4,5) by (rule scaled_bounds; use rows(1,2) in simp)+
  have off: "0 \<le> source_offset w e im y x" "source_offset w e im y x + 4 \<le> int (length (px_data im))"
    if "0 \<le> y" "y < e" "0 \<le> x" "x < w" for y x
    using source_offset_bounds [OF that rows(1,2)] rows(3) by simp_all
  have four: "length (take 4 (drop (nat (source_offset w e im y x)) (px_data im))) = 4"
    if "0 \<le> y" "y < e" "0 \<le> x" "x < w" for y x
    using off [OF that] by simp
  have row: "length (concat (map (\<lambda>x. take 4 (drop (nat (source_offset w e im y x)) (px_data im))) [0..w - 1])) = nat w * 4"
    if "0 \<le> y" "y < e" for y
  proof -
    have "map length (map (\<lambda>x. take 4 (drop (nat (source_offset w e im y x)) (px_data im))) [0..w - 1]) = map (\<lambda>x. 4) [0..w - 1]"
      unfolding map_map comp_def by (rule map_cong) (use four that in auto)
    then show ?thesis by (simp only: length_concat) (simp add: sum_list_triv)
  qed
  have "map length (map (\<lambda>y. concat (map (\<lambda>x. take 4 (drop (nat (source_offset w e im y x)) (px_data im))) [0..w - 1])) [0..e - 1]) =
      map (\<lambda>y. nat w * 4) [0..e - 1]"
    unfolding map_map comp_def by (rule map_cong) (use row in auto)
  then have len: "length (h_bytes h) = nat e * (nat w * 4)"
    unfolding rows(6) by (simp only: length_concat) (simp add: sum_list_triv)
  then have total: "int (length (h_bytes h)) = w * e * 4" using we by simp
  have "w * e \<le> 128 * 128" using we by (intro mult_mono) auto
  then have small: "length (h_bytes h) \<le> 65536" using total by linarith
  have same: "h_bytes h = px_data im" if "?W \<le> 128" "?H \<le> 128"
  proof -
    have dims: "w = int (nat ?W)" "e = int (nat ?H)"
      using that rows(1,2) by (auto simp: rows(4,5) scaled_def IMAGE_EDGE_def)
    have ups: "[0..w - 1] = map int [0..<nat ?W]" "[0..e - 1] = map int [0..<nat ?H]"
      by (subst dims, rule upto_upt)+
    have pixel: "nat (source_offset w e im (int y) (int x)) = y * (nat ?W * 4) + x * 4" for y x
      using rows(1,2) by (simp add: source_offset_def dims nat_add_distrib nat_mult_distrib algebra_simps)
    have line: "concat (map (\<lambda>x. take 4 (drop (y * (nat ?W * 4) + x * 4) (px_data im))) [0..<nat ?W]) =
        take (nat ?W * 4) (drop (y * (nat ?W * 4)) (px_data im))" for y
      using concat_chunks [of 4 "drop (y * (nat ?W * 4)) (px_data im)" "nat ?W"]
      by (simp add: add.commute)
    have "h_bytes h = take (nat ?H * (nat ?W * 4)) (px_data im)"
      unfolding rows(6) ups by (simp add: comp_def pixel line concat_chunks)
    moreover have "int (nat ?H * (nat ?W * 4)) = int (length (px_data im))" using rows(1-3) by simp
    then have "nat ?H * (nat ?W * 4) = length (px_data im)" by (simp only: of_nat_eq_iff)
    ultimately show ?thesis by simp
  qed
  show ?thesis using we stride total small off same unfolding w_def e_def by auto
qed

definition tall :: pixels where
  "tall = \<lparr>px_data = replicate 12 (CHR ''x''), px_bytes = 12, px_width = 1, px_height = 3\<rparr>"

theorem image_hint_bounds_witness:
  "h_bytes (\<lparr>h_width = 1, h_height = 3, h_stride = 4, h_bytes = px_data tall\<rparr>) = px_data tall \<and>
   image_hint (Some tall) = Some \<lparr>h_width = 1, h_height = 3, h_stride = 4, h_bytes = px_data tall\<rparr>"
proof -
  obtain h where h: "image_hint (Some tall) = Some h" "h_width h = 1" "h_height h = 3"
    by (auto simp: image_hint_def tall_def Let_def scaled_def IMAGE_EDGE_def)
  have "h_stride h = 4" "h_bytes h = px_data tall"
    using image_hint_bounds [OF _ h(1)] h(2,3) by (simp_all add: tall_def)
  then have "h = \<lparr>h_width = 1, h_height = 3, h_stride = 4, h_bytes = px_data tall\<rparr>"
    using h(2,3) by (cases h) simp
  then show ?thesis using h(1) by simp
qed

text \<open>One tick dispatches the first 64 batches, no more, and leaves the rest in order.\<close>

lemma poll_first_batches:
  "zc_notifications_poll utf8 escape queue n =
     (drop 64 queue, fold (\<lambda>batch. fold (notification_step utf8 escape) batch) (take 64 queue) n)"
proof -
  have "dispatch utf8 escape m queue n =
     (drop m queue, fold (\<lambda>batch. fold (notification_step utf8 escape) batch) (take m queue) n)" for m
  proof (induction m arbitrary: queue n)
    case (Suc m)
    then show ?case by (cases queue) simp_all
  qed simp
  then show ?thesis by (simp add: zc_notifications_poll_def)
qed

end
