(* ===== verification/TlsFiles.thy ===== *)
theory TlsFiles
  imports RelayMedia
begin

text \<open>
  The file half of \<open>src/relay/tls.c\<close>: credentials and configuration are read and replaced
  only below a validated private directory. \<open>private_parent\<close> walks to it, \<open>private_open_at\<close>
  and \<open>private_read\<close> read a file in it, \<open>zr_tls_replace_config\<close> replaces one after an
  optimistic comparison. A buffer the C code fills is part of the result: \<open>Inr bytes\<close> stands
  for the count and the bytes, \<open>Inl code\<close> for a negative result. A NULL path is not
  represented; \<open>expected\<close> is \<open>None\<close> for NULL, which comes with length 0. What
  \<open>zr_random\<close> returned is a parameter (\<open>None\<close>: it failed).
\<close>

section \<open>Walking to the private directory\<close>

definition ancestor_ok :: "nat \<Rightarrow> stat \<Rightarrow> bool" where
  "ancestor_ok uid st \<longleftrightarrow> \<not> ((st_uid st \<noteq> 0 \<and> st_uid st \<noteq> uid) \<or>
     (st_mode st AND M022 \<noteq> 0 \<and> \<not> (st_uid st = 0 \<and> st_mode st AND S_ISVTX \<noteq> 0)))"

definition private_dir_ok :: "nat \<Rightarrow> stat \<Rightarrow> bool" where
  "private_dir_ok uid st \<longleftrightarrow> \<not> (st_uid st \<noteq> uid \<or> st_mode st AND M077 \<noteq> 0 \<or> st_mode st AND M0700 \<noteq> M0700)"

text \<open>The loop of \<open>private_parent\<close>: the last part is the leaf, the others are directories.\<close>

fun private_walk :: "string list \<Rightarrow> fd \<Rightarrow> world \<Rightarrow> (int \<times> string) \<times> world" where
  "private_walk [] dir w = ((-1, ''''), sys_close dir w)"
| "private_walk (part # rest) dir w =
     (if part = '''' \<or> part = ''.'' \<or> part = ''..'' then ((-1, ''''), sys_close dir w)
      else if rest = [] then ((dir, part), w)
      else case sys_openat dir part [O_RDONLY, O_DIRECTORY, O_NOFOLLOW, O_CLOEXEC] 0 w of
        (Inl e, w) \<Rightarrow> ((-1, ''''), sys_close dir w)
      | (Inr next_dir, w) \<Rightarrow>
          (case sys_fstat next_dir (sys_close dir w) of
             (Inl e, w) \<Rightarrow> ((-1, ''''), sys_close next_dir w)
           | (Inr ancestor, w) \<Rightarrow>
               if \<not> ancestor_ok (w_uid w) ancestor then ((-1, ''''), sys_close next_dir w)
               else private_walk rest next_dir w))"

definition private_parent :: "string \<Rightarrow> world \<Rightarrow> (int \<times> string) \<times> world" where
  "private_parent path w =
     (if \<not> has_prefix ''/'' path \<or> length path \<ge> PATH_MAX then ((-1, ''''), w)
      else case sys_open ''/'' [O_RDONLY, O_DIRECTORY, O_CLOEXEC] 0 w of
        (Inl e, w) \<Rightarrow> ((-1, ''''), w)
      | (Inr dir, w) \<Rightarrow>
          (case private_walk (components (tl path)) dir w of ((dir, leaf), w) \<Rightarrow>
             if dir < 0 then ((-1, ''''), w)
             else case sys_fstat dir w of
               (Inl e, w) \<Rightarrow> ((-1, ''''), sys_close dir w)
             | (Inr st, w) \<Rightarrow>
                 if \<not> private_dir_ok (w_uid w) st then ((-1, ''''), sys_close dir w)
                 else ((dir, leaf), w)))"

section \<open>Reading a private file\<close>

definition CONFIG_LIMIT :: nat where "CONFIG_LIMIT = 65536"

definition private_st_ok :: "nat \<Rightarrow> stat \<Rightarrow> bool" where
  "private_st_ok uid st \<longleftrightarrow> \<not> (\<not> S_ISREG st \<or> st_uid st \<noteq> uid \<or> st_mode st AND M077 \<noteq> 0 \<or>
     st_nlink st \<noteq> 1 \<or> st_size st > int CONFIG_LIMIT)"

definition private_open_at :: "fd \<Rightarrow> string \<Rightarrow> world \<Rightarrow> int \<times> world" where
  "private_open_at dir leaf w =
     (case sys_openat dir leaf [O_RDONLY, O_NOFOLLOW, O_CLOEXEC, O_NONBLOCK] 0 w of
        (Inl e, w) \<Rightarrow> (if e = ENOENT then -2 else -1, w)
      | (Inr fd, w) \<Rightarrow>
          (case sys_fstat fd w of
             (Inl e, w) \<Rightarrow> (-1, sys_close fd w)
           | (Inr st, w) \<Rightarrow> if \<not> private_st_ok (w_uid w) st then (-1, sys_close fd w) else (fd, w)))"

lemma read_script:
  "sys_read fd n w = (r, v) \<Longrightarrow> length (w_script v) \<le> length (w_script w) \<and>
     (r = Inl EINTR \<longrightarrow> length (w_script v) < length (w_script w)) \<and>
     (\<forall>got. r = Inr got \<longrightarrow> length got \<le> n)"
  unfolding sys_read_def
  by (cases rule: syscall_cases) (auto simp: Let_def split: option.splits)

text \<open>\<open>private_read\<close> with the bytes read so far; the descriptor is closed on every path.\<close>

function private_read :: "fd \<Rightarrow> nat \<Rightarrow> char list \<Rightarrow> world \<Rightarrow> char list option \<times> world" where
  "private_read fd cap got w =
     (if length got < cap then
        (case sys_read fd (cap - length got) w of
           (Inl e, v) \<Rightarrow> if e = EINTR then private_read fd cap got v else (None, sys_close fd v)
         | (Inr part, v) \<Rightarrow> if part = [] then (Some got, sys_close fd v)
             else private_read fd cap (got @ part) v)
      else (None, sys_close fd w))"
  by pat_completeness auto

termination
proof (relation "measure (\<lambda>(fd, cap, got, w). (cap - length got) + length (w_script w))", goal_cases)
  case 1
  show ?case by simp
next
  case (2 fd cap got w x v e)
  with read_script [OF 2(2) [symmetric]] have "length (w_script v) < length (w_script w)" by simp
  then show ?case by simp
next
  case (3 fd cap got w x v part)
  with read_script [OF 3(2) [symmetric]] have "length (w_script v) \<le> length (w_script w)" "0 < length part"
    by simp_all
  with 3(1) show ?case by (cases part) auto
qed

declare private_read.simps [simp del]

definition zr_tls_read_config :: "string \<Rightarrow> nat \<Rightarrow> world \<Rightarrow> (int + char list) \<times> world" where
  "zr_tls_read_config path cap w =
     (case private_parent path w of ((dir, leaf), w) \<Rightarrow>
        if dir < 0 then (Inl (-1), w)
        else case private_open_at dir leaf w of (fd, w) \<Rightarrow>
          (let w = sys_close dir w in
           if fd < 0 then (Inl fd, w)
           else case private_read fd cap [] w of
             (None, w) \<Rightarrow> (Inl (-1), w)
           | (Some data, w) \<Rightarrow> (Inr data, w)))"

definition zr_tls_read_file :: "string \<Rightarrow> nat \<Rightarrow> world \<Rightarrow> (int + char list) \<times> world" where
  "zr_tls_read_file path cap w = (case zr_tls_read_config path cap w of
     (Inl code, w) \<Rightarrow> (Inl (-1), w) | (Inr data, w) \<Rightarrow> (Inr data, w))"

section \<open>Replacing a configuration\<close>

definition config_matches :: "fd \<Rightarrow> string \<Rightarrow> char list option \<Rightarrow> world \<Rightarrow> int \<times> world" where
  "config_matches dir leaf expected w =
     (case private_open_at dir leaf w of (fd, w) \<Rightarrow>
        if fd = -2 then (if expected \<noteq> None then -2 else 0, w)
        else if fd < 0 then (-1, w)
        else case private_read fd CONFIG_LIMIT [] w of
          (None, w) \<Rightarrow> (-1, w)
        | (Some current, w) \<Rightarrow> (if expected = Some current then 0 else -2, w))"

text \<open>Between the creation of the temporary file and the label \<open>done\<close>.\<close>

definition config_commit :: "fd \<Rightarrow> string \<Rightarrow> string \<Rightarrow> fd \<Rightarrow> char list option \<Rightarrow> char list \<Rightarrow> world \<Rightarrow> int \<times> world" where
  "config_commit dir leaf temporary fd expected data w =
     (case sys_fchmod fd M0600 w of
        (Inl e, w) \<Rightarrow> (-1, w)
      | (Inr _, w) \<Rightarrow>
          (case write_all fd data w of (ok, w) \<Rightarrow>
             if \<not> ok then (-1, w)
             else case sys_fsync fd w of
               (Inl e, w) \<Rightarrow> (-1, w)
             | (Inr _, w) \<Rightarrow>
                 (case config_matches dir leaf expected w of (result, w) \<Rightarrow>
                    if result \<noteq> 0 then (result, w)
                    else case sys_renameat dir temporary dir leaf w of
                      (Inl e, w) \<Rightarrow> (-1, w)
                    | (Inr _, w) \<Rightarrow>
                        (case sys_fsync dir w of (Inl e, w) \<Rightarrow> (1, w) | (Inr _, w) \<Rightarrow> (0, w)))))"

definition temporary_name :: "nat list \<Rightarrow> string" where
  "temporary_name random = ''.relay-settings-'' @ hex_bytes random"

definition zr_tls_replace_config :: "string \<Rightarrow> char list option \<Rightarrow> char list \<Rightarrow> nat list option \<Rightarrow> world \<Rightarrow> int \<times> world" where
  "zr_tls_replace_config path expected data zr_random w =
     (if length data \<ge> 65536 \<or> (case expected of None \<Rightarrow> 0 | Some e \<Rightarrow> length e) \<ge> 65536 then (-1, w)
      else case private_parent path w of ((dir, leaf), w) \<Rightarrow>
        if dir < 0 then (-1, w)
        else case config_matches dir leaf expected w of (result, w) \<Rightarrow>
          if result \<noteq> 0 then (result, sys_close dir w)
          else case zr_random of
            None \<Rightarrow> (-1, sys_close dir w)
          | Some random \<Rightarrow>
              (case sys_openat dir (temporary_name random)
                  [O_WRONLY, O_CREAT, O_EXCL, O_NOFOLLOW, O_CLOEXEC] M0600 w of
                 (Inl e, w) \<Rightarrow> (-1, sys_close dir w)
               | (Inr fd, w) \<Rightarrow>
                   (case config_commit dir leaf (temporary_name random) fd expected data w of (result, w) \<Rightarrow>
                      (result, sys_close dir (snd (sys_unlinkat dir (temporary_name random) False (sys_close fd w)))))))"

section \<open>What reading does\<close>

text \<open>\<open>read_on w v fd\<close>: only the offset of \<open>fd\<close> and the script may differ.\<close>

definition read_on :: "world \<Rightarrow> world \<Rightarrow> fd \<Rightarrow> bool" where
  "read_on w v fd \<longleftrightarrow> same_disk w v \<and> w_nextfd v = w_nextfd w \<and> (w_files v)(fd := None) = (w_files w)(fd := None) \<and>
     fewer_faults w v"

lemma read_on_quiet: "quiet w v \<Longrightarrow> read_on w v fd"
  by (simp add: read_on_def quiet_def)

lemma read_on_trans: "read_on u v fd \<Longrightarrow> read_on v w fd \<Longrightarrow> read_on u w fd"
  by (auto simp: read_on_def fewer_faults_def same_disk_def)

lemma take_length_take: "take (length (take k xs)) xs = take k xs"
  by (cases "k \<le> length xs") simp_all

lemma sys_read_okD:
  assumes "sys_read fd n w = (Inr got, v)"
  shows "\<exists>f bs. w_files w fd = Some f \<and> file_bytes w (f_ino f) = Some bs \<and> read_on w v fd \<and>
    w_files v fd = Some (f\<lparr>f_pos := f_pos f + length got\<rparr>) \<and> got = take (length got) (drop (f_pos f) bs) \<and>
    (got = [] \<longrightarrow> n = 0 \<or> length bs \<le> f_pos f)"
  using assms unfolding sys_read_def
proof (cases rule: syscall_cases)
  case (run lim)
  let ?w = "w\<lparr>w_script := tl (w_script w)\<rparr>"
  from run obtain f bs where f: "w_files w fd = Some f" "file_bytes w (f_ino f) = Some bs"
    by (auto split: option.splits)
  let ?g = "take (if drop (f_pos f) bs = [] then 0 else max 1 (limited lim n)) (take n (drop (f_pos f) bs))"
  have "?g = got \<and> v = ?w\<lparr>w_files := (w_files ?w)(fd \<mapsto> f\<lparr>f_pos := f_pos f + length ?g\<rparr>)\<rparr>"
    using run f by (auto simp: Let_def simp del: take_take length_take split del: if_split)
  then have got: "got = ?g" and v: "v = ?w\<lparr>w_files := (w_files ?w)(fd \<mapsto> f\<lparr>f_pos := f_pos f + length got\<rparr>)\<rparr>"
    by (simp_all only: simp_thms)
  have "read_on w v fd" unfolding v by (auto simp: read_on_def same_disk_def fewer_faults_def)
  moreover have "got = take (length got) (drop (f_pos f) bs)"
    unfolding got take_take by (rule take_length_take [symmetric])
  moreover have "got = [] \<longrightarrow> n = 0 \<or> length bs \<le> f_pos f" unfolding got by auto
  ultimately show ?thesis using f v by auto
qed auto

lemma sys_read_errD: "sys_read fd n w = (Inl e, v) \<Longrightarrow> quiet w v"
  unfolding sys_read_def
  by (cases rule: syscall_cases) (auto simp: Let_def split: option.splits intro: pops_quiet)

text \<open>Only the whole file is a success, and the descriptor is closed in any case.\<close>

lemma private_read_effect:
  assumes "private_read fd cap got w = (r, v)" and "w_files w fd = Some f" and "file_bytes w (f_ino f) = Some bs"
    and "f_pos f = length got" and "got = take (length got) bs"
  shows "same_disk w v \<and> w_nextfd v = w_nextfd w \<and> w_files v = (w_files w)(fd := None) \<and>
    (\<forall>data. r = Some data \<longrightarrow> data = bs \<and> length data < cap)"
  using assms
proof (induction fd cap got w arbitrary: r v f rule: private_read.induct)
  case (1 fd cap got w)
  note unf = private_read.simps [of fd cap got w]
  have closed: "same_disk w (sys_close fd u) \<and> w_nextfd (sys_close fd u) = w_nextfd w \<and>
      w_files (sys_close fd u) = (w_files w)(fd := None)" if "read_on w u fd" for u
    using that by (simp add: read_on_def)
  show ?case
  proof (cases "length got < cap")
    case False
    with unf "1.prems"(1) closed [of w] show ?thesis by (auto simp: read_on_quiet)
  next
    case True
    obtain x u where x: "sys_read fd (cap - length got) w = (x, u)" by fastforce
    show ?thesis
    proof (cases x)
      case (Inl e)
      have q: "quiet w u" using x Inl sys_read_errD by blast
      show ?thesis
      proof (cases "e = EINTR")
        case False
        with unf "1.prems"(1) True x Inl closed [OF read_on_quiet [OF q]] show ?thesis by auto
      next
        case again: True
        then have "private_read fd cap got u = (r, v)" using unf "1.prems"(1) True x Inl by simp
        note rec = "1.IH"(1) [OF True x [symmetric] Inl again this]
        have u: "w_files u = w_files w" "w_nextfd u = w_nextfd w" "same_disk w u" using q by (auto simp: quiet_def)
        have "w_files u fd = Some f" "file_bytes u (f_ino f) = Some bs"
          using "1.prems"(2,3) u by (simp_all add: file_bytes_def same_disk_lookups)
        from rec [OF this "1.prems"(4,5)] u show ?thesis by (auto intro: same_disk_trans)
      qed
    next
      case (Inr part)
      from sys_read_okD [OF x [unfolded Inr]] "1.prems"(2,3) have
        rd: "read_on w u fd" "w_files u fd = Some (f\<lparr>f_pos := f_pos f + length part\<rparr>)"
          "part = take (length part) (drop (f_pos f) bs)" "part = [] \<longrightarrow> length bs \<le> f_pos f"
        using True by auto
      show ?thesis
      proof (cases "part = []")
        case empty: True
        then have "r = Some got" "v = sys_close fd u" using unf "1.prems"(1) True x Inr by simp_all
        moreover have "got = bs"
        proof -
          have "length bs \<le> length got" using rd(4) empty "1.prems"(4) by simp
          then have "take (length got) bs = bs" by simp
          then show ?thesis using "1.prems"(5) by simp
        qed
        ultimately show ?thesis using closed [OF rd(1)] True by simp
      next
        case more: False
        then have rec: "private_read fd cap (got @ part) u = (r, v)" using unf "1.prems"(1) True x Inr by simp
        have "take (length got + length part) bs = take (length got) bs @ take (length part) (drop (length got) bs)"
          by (rule take_add)
        also have "\<dots> = got @ part" using rd(3) "1.prems"(4,5) by simp
        finally have pre: "got @ part = take (length (got @ part)) bs" by simp
        have fb: "file_bytes u (f_ino (f\<lparr>f_pos := f_pos f + length part\<rparr>)) = Some bs"
          using "1.prems"(3) rd(1) by (simp add: read_on_def same_disk_def file_bytes_def node_of_def)
        have pos: "f_pos (f\<lparr>f_pos := f_pos f + length part\<rparr>) = length (got @ part)" using "1.prems"(4) by simp
        from "1.IH"(2) [OF True x [symmetric] Inr more rec rd(2) fb pos pre]
        have "same_disk u v \<and> w_nextfd v = w_nextfd u \<and> w_files v = (w_files u)(fd := None) \<and>
            (\<forall>data. r = Some data \<longrightarrow> data = bs \<and> length data < cap)" .
        then show ?thesis using rd(1) by (auto simp: read_on_def same_disk_def)
      qed
    qed
  qed
qed

section \<open>What the walk establishes\<close>

text \<open>
  \<open>trusted w uid d ps\<close>: every directory below \<open>d\<close> that the parts lead through belongs
  to root or the user and only its owner may write it, a sticky directory of root excepted.
\<close>

fun trusted :: "world \<Rightarrow> nat \<Rightarrow> ino \<Rightarrow> string list \<Rightarrow> bool" where
  "trusted w uid d [] = True"
| "trusted w uid d (c # cs) = (case entry w d c of None \<Rightarrow> False
     | Some i \<Rightarrow> (case w_inodes w i of None \<Rightarrow> False
         | Some nd \<Rightarrow> ancestor_ok uid (stat_of i nd) \<and> trusted w uid i cs))"

lemma walk_flags: "ro_flags [O_RDONLY, O_DIRECTORY, O_NOFOLLOW, O_CLOEXEC]"
  by (simp add: ro_flags_def)

lemma part_plain: "media_component c \<Longrightarrow> plain_name c"
  by (rule media_component_plain)

lemma private_walk_effect:
  assumes "private_walk parts dir w = ((r, leaf), v)" and "wf_fds w0" and "holds w0 w dir d" and "same_disk w0 w"
    and "\<forall>c \<in> set parts. CHR ''/'' \<notin> set c"
  shows "same_disk w0 v \<and> (if r < 0 then freed w0 v
    else list_all media_component parts \<and> parts \<noteq> [] \<and> leaf = last parts \<and>
      (\<exists>i. chain w0 d (butlast parts) = Some i \<and> trusted w0 (w_uid w0) d (butlast parts) \<and> holds w0 v r i))"
  using assms(1,3,4,5)
proof (induction parts arbitrary: dir w d)
  case Nil
  then show ?case using holds_closed [OF Nil(2) assms(2)] by auto
next
  case (Cons part rest)
  note h = Cons.prems(2) and sd = Cons.prems(3)
  have failed: ?case if "r = -1" "freed w0 v" "same_disk w0 v" using that by simp
  show ?case
  proof (cases "part = '''' \<or> part = ''.'' \<or> part = ''..''")
    case True
    then have "r = -1" "v = sys_close dir w" using Cons.prems(1) by auto
    then show ?thesis using holds_closed [OF h assms(2)] sd by (intro failed) auto
  next
    case False
    then have mc: "media_component part" using Cons.prems(4) by (auto simp: media_component_def)
    note pl = part_plain [OF mc]
    show ?thesis
    proof (cases "rest = []")
      case True
      then have "r = dir" "leaf = part" "v = w" using Cons.prems(1) False by auto
      then show ?thesis using True mc h sd holds_nonneg [OF h assms(2)] by auto
    next
      case more: False
      obtain x u where x: "sys_openat dir part [O_RDONLY, O_DIRECTORY, O_NOFOLLOW, O_CLOEXEC] 0 w = (x, u)"
        by fastforce
      show ?thesis
      proof (cases x)
        case (Inl e)
        then have q: "quiet w u" using x openat_ro_errD [OF _ walk_flags pl] by blast
        have "r = -1" "v = sys_close dir u" using Cons.prems(1) False more x Inl by auto
        then show ?thesis
          using holds_closed [OF holds_quiet [OF h q] assms(2)] same_disk_quiet [OF sd q] by (intro failed) auto
      next
        case (Inr nx)
        obtain i where i: "entry w d part = Some i" "opened w u nx i False"
          using openat_ro_okD [OF _ walk_flags pl] x Inr holds_fd_ino [OF h] by fastforce
        have hu: "holds w0 (sys_close dir u) nx i" by (rule holds_step [OF assms(2) h i(2)])
        have sdu: "same_disk w0 (sys_close dir u)" using same_disk_opened [OF sd i(2)] by simp
        obtain y t where y: "sys_fstat nx (sys_close dir u) = (y, t)" by fastforce
        have q: "quiet (sys_close dir u) t" using y fstat_okD fstat_errD by (cases y) blast+
        note ht = holds_quiet [OF hu q] and sdt = same_disk_quiet [OF sdu q]
        show ?thesis
        proof (cases "\<exists>st. y = Inr st \<and> ancestor_ok (w_uid t) st")
          case False
          then have "r = -1" "v = sys_close nx t"
            using Cons.prems(1) \<open>\<not> (part = '''' \<or> part = ''.'' \<or> part = ''..'')\<close> more x Inr y
            by (auto split: sum.splits if_splits)
          then show ?thesis using holds_closed [OF ht assms(2)] sdt by (intro failed) auto
        next
          case True
          then obtain st where st: "y = Inr st" "ancestor_ok (w_uid t) st" by blast
          then have rec: "private_walk rest nx t = ((r, leaf), v)"
            using Cons.prems(1) False more x Inr y by auto
          obtain nd where nd: "w_inodes w0 i = Some nd" "st = stat_of i nd"
            using fstat_okD [of nx "sys_close dir u" st t] y st(1) holds_fd_ino [OF hu] sdu
            by (auto simp: same_disk_lookups)
          have e0: "entry w0 d part = Some i" using i(1) same_disk_lookups(3) [OF sd] by simp
          have uid: "w_uid t = w_uid w0" using sdt by (simp add: same_disk_lookups)
          have "\<forall>c \<in> set rest. CHR ''/'' \<notin> set c" using Cons.prems(4) by simp
          from Cons.IH [OF rec ht sdt this] show ?thesis
            using more mc e0 nd st(2) uid by auto
        qed
      qed
    qed
  qed
qed

definition private_inode :: "nat \<Rightarrow> inode \<Rightarrow> bool" where
  "private_inode uid nd \<longleftrightarrow> i_uid nd = uid \<and> i_mode nd AND M077 = 0 \<and> i_mode nd AND M0700 = M0700"

text \<open>The directory a path's leaf is looked up in, and what the walk checked on the way.\<close>

definition config_dir :: "world \<Rightarrow> string \<Rightarrow> ino \<Rightarrow> bool" where
  "config_dir w path d \<longleftrightarrow> has_prefix ''/'' path \<and> length path < PATH_MAX \<and>
     list_all media_component (components (tl path)) \<and>
     chain w (w_root w) (butlast (components (tl path))) = Some d \<and>
     trusted w (w_uid w) (w_root w) (butlast (components (tl path))) \<and>
     (\<exists>nd. w_inodes w d = Some nd \<and> private_inode (w_uid w) nd)"

definition config_leaf :: "string \<Rightarrow> string" where
  "config_leaf path = last (components (tl path))"

lemma components_no_slash: "\<forall>c \<in> set (components p). CHR ''/'' \<notin> set c"
  using split_on_segments [of "\<lambda>c. c = CHR ''/''" p] by (auto simp: components_def)

lemma private_parent_effect:
  assumes "private_parent path w = ((r, leaf), v)" and "wf_fds w"
  shows "same_disk w v \<and> (if r < 0 then r = -1 \<and> freed w v
    else (\<exists>d. config_dir w path d \<and> leaf = config_leaf path \<and> plain_name leaf \<and> holds w v r d))"
proof (cases "\<not> has_prefix ''/'' path \<or> length path \<ge> PATH_MAX")
  case True
  then show ?thesis using assms(1) by (auto simp: private_parent_def freed_def)
next
  case False
  let ?ps = "components (tl path)"
  obtain x u where x: "sys_open ''/'' [O_RDONLY, O_DIRECTORY, O_CLOEXEC] 0 w = (x, u)" by fastforce
  show ?thesis
  proof (cases x)
    case (Inl e)
    then have "quiet w u" using x by (auto dest: open_root_errD)
    then show ?thesis using Inl x False assms(1) by (auto simp: private_parent_def quiet_def freed_def same_disk_def)
  next
    case (Inr dir)
    then have o: "opened w u dir (w_root w) False" using x by (auto dest: open_root_okD)
    obtain r1 l1 t where p: "private_walk ?ps dir u = ((r1, l1), t)" by (metis prod.collapse)
    note eff = private_walk_effect [OF p assms(2) opened_holds [OF o] same_disk_opened [OF same_disk_refl o]
        components_no_slash]
    show ?thesis
    proof (cases "r1 < 0")
      case True
      then have "r = -1" "v = t" using Inr x False p assms(1) by (auto simp: private_parent_def)
      then show ?thesis using eff True by auto
    next
      case got: False
      then obtain d where d: "list_all media_component ?ps" "?ps \<noteq> []" "l1 = last ?ps"
        "chain w (w_root w) (butlast ?ps) = Some d" "trusted w (w_uid w) (w_root w) (butlast ?ps)"
        "holds w t r1 d" "same_disk w t" using eff by auto
      obtain y t1 where y: "sys_fstat r1 t = (y, t1)" by fastforce
      have q: "quiet t t1" using y fstat_okD fstat_errD by (cases y) blast+
      note h = holds_quiet [OF d(6) q] and sd = same_disk_quiet [OF d(7) q]
      show ?thesis
      proof (cases "\<exists>st. y = Inr st \<and> private_dir_ok (w_uid t1) st")
        case False
        then have "r = -1" "v = sys_close r1 t1"
          using got Inr x \<open>\<not> (\<not> has_prefix ''/'' path \<or> length path \<ge> PATH_MAX)\<close> p y assms(1)
          by (auto simp: private_parent_def split: sum.splits if_splits)
        then show ?thesis using holds_closed [OF h assms(2)] sd by simp
      next
        case True
        then obtain st where st: "y = Inr st" "private_dir_ok (w_uid t1) st" by blast
        then have v: "r = r1" "leaf = l1" "v = t1" using got Inr x False p y assms(1) by (auto simp: private_parent_def)
        obtain nd where nd: "w_inodes w d = Some nd" "st = stat_of d nd"
          using fstat_okD [of r1 t st t1] y st(1) holds_fd_ino [OF d(6)] d(7) by (auto simp: same_disk_lookups)
        have "private_inode (w_uid w) nd"
          using st(2) nd(2) sd by (simp add: private_dir_ok_def private_inode_def stat_of_def same_disk_lookups)
        moreover have "plain_name l1" using d(1-3) part_plain by (simp add: list_all_iff)
        ultimately show ?thesis
          using v got d nd h sd False by (auto simp: config_dir_def config_leaf_def)
      qed
    qed
  qed
qed

section \<open>Opening and comparing\<close>

lemma open_inode_no_ENOENT: "open_inode i fl w \<noteq> (Inl ENOENT, v)"
  by (auto simp: open_inode_def new_fd_def Let_def split: option.splits node.splits)

lemma openat_ro_ENOENT:
  assumes "sys_openat dfd n fl m w = (Inl ENOENT, v)" and "ro_flags fl" and "plain_name n"
  shows "\<exists>d. fd_ino w dfd = Some d \<and> entry w d n = None"
  using assms(1) unfolding sys_openat_def
proof (cases rule: syscall_cases)
  case (run lim)
  have fl: "O_NOFOLLOW \<in> set fl" "O_CREAT \<notin> set fl" using assms(2) by (auto simp: ro_flags_def)
  from run plain_nameD [OF assms(3)] obtain d where d: "fd_ino w dfd = Some d"
    by (auto simp: parent_of_plain [OF assms(3)] split: option.splits if_splits)
  have "entry w d n = None"
  proof (rule ccontr)
    assume "entry w d n \<noteq> None"
    then obtain i where "entry w d n = Some i" by blast
    then show False using run plain_nameD [OF assms(3)] d fl
      by (auto simp: parent_of_plain [OF assms(3)] open_inode_no_ENOENT
          split: option.splits if_splits node.splits)
  qed
  then show ?thesis using d by blast
qed auto

text \<open>\<open>private_file w d n bs\<close>: the entry is a private file of the user with these bytes.\<close>

definition private_file :: "world \<Rightarrow> ino \<Rightarrow> string \<Rightarrow> char list \<Rightarrow> bool" where
  "private_file w d n bs \<longleftrightarrow> (\<exists>i nd. entry w d n = Some i \<and> w_inodes w i = Some nd \<and> i_node nd = Regular bs \<and>
     i_uid nd = w_uid w \<and> i_mode nd AND M077 = 0 \<and> i_nlink nd = 1 \<and> length bs \<le> CONFIG_LIMIT)"

lemma private_file_same: "same_disk w v \<Longrightarrow> private_file v d n bs = private_file w d n bs"
  by (simp add: private_file_def same_disk_lookups)

lemma config_flags: "ro_flags [O_RDONLY, O_NOFOLLOW, O_CLOEXEC, O_NONBLOCK]"
  by (simp add: ro_flags_def)

lemma private_open_at_checked: "private_open_at dir leaf w =
  (case open_checked [O_RDONLY, O_NOFOLLOW, O_CLOEXEC, O_NONBLOCK] private_st_ok dir leaf w of
     (Inl (Some e), v) \<Rightarrow> (if e = ENOENT then -2 else -1, v)
   | (Inl None, v) \<Rightarrow> (-1, v) | (Inr fd, v) \<Rightarrow> (fd, v))"
  by (auto simp: private_open_at_def open_checked_def split: prod.splits sum.splits)

lemma private_open_at_effect:
  assumes "private_open_at dir leaf w = (fd, v)" and "plain_name leaf" and "wf_fds w" and "fd_ino w dir = Some d"
  shows "if fd < 0 then returned w v \<and> (fd = -1 \<or> fd = -2 \<and> entry w d leaf = None)
    else (\<exists>i bs. entry w d leaf = Some i \<and> file_bytes w i = Some bs \<and> private_file w d leaf bs \<and>
      opened w v fd i False)"
proof -
  obtain x u where x: "open_checked [O_RDONLY, O_NOFOLLOW, O_CLOEXEC, O_NONBLOCK] private_st_ok dir leaf w = (x, u)"
    by fastforce
  show ?thesis
  proof (cases x)
    case (Inl e)
    then have r: "returned w u" using x open_checked_err [OF _ config_flags assms(2,3)] by blast
    have "fd = -1 \<or> fd = -2 \<and> e = Some ENOENT" "v = u"
      using assms(1) x Inl by (auto simp: private_open_at_checked split: option.splits if_splits)
    moreover have "entry w d leaf = None" if "e = Some ENOENT"
    proof -
      have "\<exists>v'. sys_openat dir leaf [O_RDONLY, O_NOFOLLOW, O_CLOEXEC, O_NONBLOCK] 0 w = (Inl ENOENT, v')"
        using x Inl that by (auto simp: open_checked_def split: prod.splits sum.splits if_splits)
      then show ?thesis using openat_ro_ENOENT [OF _ config_flags assms(2)] assms(4) by fastforce
    qed
    ultimately show ?thesis using r by auto
  next
    case (Inr g)
    then have v: "fd = g" "v = u" using assms(1) x by (auto simp: private_open_at_checked)
    from open_checked_ok [OF x [unfolded Inr] config_flags assms(2)] assms(4) obtain i nd where
      o: "entry w d leaf = Some i" "w_inodes w i = Some nd" "private_st_ok (w_uid w) (stat_of i nd)"
        "opened w u g i False" by auto
    obtain bs where bs: "i_node nd = Regular bs"
      using o(3) by (cases "i_node nd") (auto simp: private_st_ok_def S_ISREG_def stat_of_def)
    then have "private_file w d leaf bs" "file_bytes w i = Some bs"
      using o by (auto simp: private_file_def private_st_ok_def stat_of_def file_bytes_def node_of_def)
    then show ?thesis using v o opened_nonneg [OF o(4) assms(3)] by auto
  qed
qed

lemma private_file_unique: "private_file w d n bs \<Longrightarrow> private_file w d n cs \<Longrightarrow> bs = cs"
  by (auto simp: private_file_def)

text \<open>Open and read: the descriptor table is as before, a result is the whole file.\<close>

lemma open_read_effect:
  assumes "private_open_at dir leaf w = (fd, u)" and "0 \<le> fd" and "private_read fd cap [] u' = (r, v)"
    and "plain_name leaf" and "wf_fds w" and "fd_ino w dir = Some d" and "u' = u \<or> u' = sys_close dir u"
  shows "same_disk w v \<and> w_nextfd w \<le> w_nextfd v \<and>
    w_files v = (if u' = u then w_files w else (w_files w)(dir := None)) \<and>
    (\<forall>data. r = Some data \<longrightarrow> private_file w d leaf data \<and> length data < cap)"
proof -
  from private_open_at_effect [OF assms(1,4-6)] assms(2) obtain i bs where
    o: "file_bytes w i = Some bs" "private_file w d leaf bs" "opened w u fd i False" by auto
  have free: "w_files w fd = None" using opened_fresh [OF o(3) assms(5)] .
  have ne: "fd \<noteq> dir" using free assms(6) by (auto simp: fd_ino_def)
  have "w_files u' fd = Some \<lparr>f_ino = i, f_pos = 0, f_wr = False\<rparr>" "same_disk w u'" "w_nextfd u' = w_nextfd w + 1"
    "file_bytes u' i = Some bs"
    using o ne assms(7) by (auto simp: opened_def same_disk_def file_bytes_def node_of_def sys_close_def)
  with private_read_effect [OF assms(3), of "\<lparr>f_ino = i, f_pos = 0, f_wr = False\<rparr>" bs]
  have p: "same_disk u' v" "w_nextfd v = w_nextfd u'" "w_files v = (w_files u')(fd := None)"
    "\<forall>data. r = Some data \<longrightarrow> data = bs \<and> length data < cap" by auto
  have "w_files v = (if u' = u then w_files w else (w_files w)(dir := None))"
    using p(3) o(3) free ne assms(7) by (auto simp: opened_def fun_eq_iff)
  then show ?thesis
    using p o \<open>same_disk w u'\<close> \<open>w_nextfd u' = w_nextfd w + 1\<close> by (auto intro: same_disk_trans)
qed

lemma config_matches_effect:
  assumes "config_matches dir leaf expected w = (r, v)" and "plain_name leaf" and "wf_fds w" and "fd_ino w dir = Some d"
  shows "same_disk w v \<and> w_nextfd w \<le> w_nextfd v \<and> w_files v = w_files w \<and> (r = 0 \<or> r = -1 \<or> r = -2) \<and>
    (r = 0 \<longrightarrow> (case expected of None \<Rightarrow> entry w d leaf = None | Some e \<Rightarrow> private_file w d leaf e)) \<and>
    (r = -2 \<longrightarrow> (case expected of None \<Rightarrow> entry w d leaf \<noteq> None | Some e \<Rightarrow> \<not> private_file w d leaf e))"
proof -
  obtain fd u where o: "private_open_at dir leaf w = (fd, u)" by fastforce
  note eff = private_open_at_effect [OF o assms(2-4)]
  show ?thesis
  proof (cases "fd < 0")
    case True
    then have "returned w u" and e: "fd = -1 \<or> fd = -2 \<and> entry w d leaf = None" using eff by auto
    then have u: "same_disk w u" "w_nextfd w \<le> w_nextfd u" "w_files u = w_files w" by (auto simp: returned_def)
    have "v = u \<and> r = (if fd = -2 then if expected \<noteq> None then -2 else 0 else -1)"
      using assms(1) o e by (auto simp: config_matches_def)
    then show ?thesis using u e by (auto simp: private_file_def split: option.splits if_splits)
  next
    case False
    obtain x t where x: "private_read fd CONFIG_LIMIT [] u = (x, t)" by fastforce
    from open_read_effect [OF o _ x assms(2-4)] False have
      p: "same_disk w t" "w_nextfd w \<le> w_nextfd t" "w_files t = w_files w"
        "\<forall>data. x = Some data \<longrightarrow> private_file w d leaf data" by auto
    have "v = t \<and> r = (case x of None \<Rightarrow> -1 | Some current \<Rightarrow> if expected = Some current then 0 else -2)"
      using assms(1) o False x by (auto simp: config_matches_def split: option.splits)
    then show ?thesis
      using p private_file_unique [of w d leaf] by (auto simp: private_file_def split: option.splits if_splits)
  qed
qed

section \<open>Reading a configuration\<close>

lemma zr_tls_read_config_effect:
  assumes "wf_fds w" and "zr_tls_read_config path cap w = (result, v)"
  shows "same_disk w v \<and> w_files v = w_files w \<and> w_nextfd w \<le> w_nextfd v \<and>
    (case result of
       Inr data \<Rightarrow> length data < cap \<and> (\<exists>d. config_dir w path d \<and> private_file w d (config_leaf path) data)
     | Inl code \<Rightarrow> code = -1 \<or> code = -2 \<and> (\<exists>d. config_dir w path d \<and> entry w d (config_leaf path) = None))"
proof -
  obtain dir leaf u where p: "private_parent path w = ((dir, leaf), u)" by (metis prod.collapse)
  note par = private_parent_effect [OF p assms(1)]
  show ?thesis
  proof (cases "dir < 0")
    case True
    then show ?thesis using par p assms(2) by (auto simp: zr_tls_read_config_def freed_def)
  next
    case False
    then obtain d where d: "config_dir w path d" "leaf = config_leaf path" "plain_name leaf" "holds w u dir d"
      "same_disk w u" using par by auto
    have wf: "wf_fds u" by (rule holds_wf [OF d(4) assms(1)])
    have at: "fd_ino u dir = Some d" by (rule holds_fd_ino [OF d(4)])
    have up: "w_nextfd w \<le> w_nextfd u" using d(4) by (auto simp: holds_def)
    have balance: "(w_files u)(dir := None) = w_files w"
      using d(4) assms(1) by (auto simp: holds_def wf_fds_def fun_eq_iff)
    obtain fd t where o: "private_open_at dir leaf u = (fd, t)" by fastforce
    note op = private_open_at_effect [OF o d(3) wf at]
    show ?thesis
    proof (cases "fd < 0")
      case True
      then have "result = Inl fd" "v = sys_close dir t"
        using p False o assms(2) by (auto simp: zr_tls_read_config_def Let_def)
      moreover have "same_disk u t" "w_files t = w_files u" "w_nextfd u \<le> w_nextfd t" "fd = -1 \<or> fd = -2 \<and> entry u d leaf = None"
        using op True by (auto simp: returned_def)
      ultimately show ?thesis
        using d balance up same_disk_trans [OF d(5)] by (auto simp: same_disk_lookups)
    next
      case ok: False
      obtain x s where x: "private_read fd cap [] (sys_close dir t) = (x, s)" by fastforce
      from open_read_effect [OF o _ x d(3) wf at] ok have
        r: "same_disk u s" "w_nextfd u \<le> w_nextfd s" "w_files s = (w_files u)(dir := None) \<or> sys_close dir t = t \<and> w_files s = w_files u"
          "\<forall>data. x = Some data \<longrightarrow> private_file u d leaf data \<and> length data < cap" by (auto split: if_splits)
      have "sys_close dir t \<noteq> t"
      proof
        assume "sys_close dir t = t"
        then have "w_files t dir = None" by (metis close_files fun_upd_same)
        moreover have "w_files t dir = w_files u dir" using op ok at opened_fresh [OF _ wf]
          by (fastforce simp: opened_def fd_ino_def)
        ultimately show False using at by (simp add: fd_ino_def)
      qed
      then have "w_files s = w_files w" using r(3) balance by simp
      moreover have "result = (case x of None \<Rightarrow> Inl (-1) | Some data \<Rightarrow> Inr data)" "v = s"
        using p False o ok x assms(2) by (auto simp: zr_tls_read_config_def Let_def split: option.splits)
      ultimately show ?thesis
        using r(1,2,4) d up same_disk_trans [OF d(5) r(1)] private_file_same [OF d(5)]
        by (auto split: option.splits)
    qed
  qed
qed

text \<open>
  \<open>zr_tls_read_config\<close> returns bytes only for an absolute path without empty or dot
  components whose directories are reached without following a link, each owned by root or
  the user and not writable by others, the last one private to the user; the bytes are the
  whole of a private, singly linked regular file of the user, shorter than the buffer. \<open>-2\<close>
  is returned only when the directory is such a one and the leaf is absent. In all cases the
  disk is unchanged and every descriptor is closed.
\<close>

theorem zr_tls_read_config_private:
  assumes "wf_fds w" and "zr_tls_read_config path cap w = (result, v)"
  shows "same_disk w v \<and> w_files v = w_files w \<and>
    (case result of
       Inr data \<Rightarrow> length data < cap \<and> (\<exists>d. config_dir w path d \<and> private_file w d (config_leaf path) data)
     | Inl code \<Rightarrow> code = -1 \<or> code = -2 \<and> (\<exists>d. config_dir w path d \<and> entry w d (config_leaf path) = None))"
  using zr_tls_read_config_effect [OF assms] by blast

lemmas tls_file_run = zr_tls_read_config_def private_parent_def private_walk.simps private_dir_ok_def
  ancestor_ok_def private_open_at_def private_st_ok_def CONFIG_LIMIT_def private_read.simps PATH_MAX_def
  sys_open_def config_matches_def zr_tls_replace_config_def config_commit_def

theorem zr_tls_read_config_private_witness:
  "fst (zr_tls_read_config ''/up/f'' 16 (sample_world [Ok, Ok, Ok, Ok, Ok, Ok, Short 1])) = Inr ''hi'' \<and>
   (\<exists>d. config_dir (sample_world [Ok, Ok, Ok, Ok, Ok, Ok, Short 1]) ''/up/f'' d) \<and>
   fst (zr_tls_read_config ''/up/g'' 16 (sample_world [])) = Inl (-2) \<and>
   (\<exists>d. config_dir (sample_world []) ''/up/g'' d \<and> entry (sample_world []) d ''g'' = None)"
proof -
  let ?s = "[Ok, Ok, Ok, Ok, Ok, Ok, Short 1]"
  have 1: "fst (zr_tls_read_config ''/up/f'' 16 (sample_world ?s)) = Inr ''hi''"
    by (simp add: tls_file_run posix_run)
  have 2: "fst (zr_tls_read_config ''/up/g'' 16 (sample_world [])) = Inl (-2)"
    by (simp add: tls_file_run posix_run)
  have leaf: "config_leaf ''/up/g'' = ''g''" by (simp add: config_leaf_def components_def)
  from zr_tls_read_config_private [OF sample_wf(1) [of ?s] surjective_pairing, where path = "''/up/f''" and cap = 16] 1
    zr_tls_read_config_private [OF sample_wf(1) [of "[]"] surjective_pairing, where path = "''/up/g''" and cap = 16] 2 leaf
  show ?thesis by fastforce
qed

section \<open>Replacing a configuration\<close>

text \<open>
  \<open>staging i fd w v\<close>: between \<open>w\<close> and \<open>v\<close> only the contents and mode of the staged
  inode \<open>i\<close> and the offset of its descriptor changed.
\<close>

definition staging :: "ino \<Rightarrow> fd \<Rightarrow> world \<Rightarrow> world \<Rightarrow> bool" where
  "staging i fd w v \<longleftrightarrow> entry v = entry w \<and> (\<forall>j. j \<noteq> i \<longrightarrow> file_bytes v j = file_bytes w j) \<and>
     (w_files v)(fd := None) = (w_files w)(fd := None) \<and> fd_ino v fd = fd_ino w fd \<and>
     w_nextfd w \<le> w_nextfd v \<and> w_uid v = w_uid w \<and> w_root v = w_root w"

lemma staging_trans: "staging i fd u v \<Longrightarrow> staging i fd v w \<Longrightarrow> staging i fd u w"
  by (auto simp: staging_def)

lemma staging_same_files: "same_disk w v \<Longrightarrow> w_files v = w_files w \<Longrightarrow> w_nextfd w \<le> w_nextfd v \<Longrightarrow> staging i fd w v"
  by (auto simp: staging_def fd_ino_def file_bytes_def same_disk_lookups fun_eq_iff)

lemma staging_quiet: "quiet w v \<Longrightarrow> staging i fd w v"
  by (rule staging_same_files) (auto simp: quiet_def)

lemma attrs_at: "w_inodes w i = Some nd \<Longrightarrow> attrs w i = Some (i_uid nd, i_mode nd, kind_of (i_node nd))"
  by (simp add: attrs_def)

lemma fchmod_staging:
  assumes "sys_fchmod fd m w = (r, v)" and "fd_ino w fd = Some i"
  shows "staging i fd w v \<and> (\<forall>u. r = Inr u \<longrightarrow> file_bytes v = file_bytes w \<and> w_files v = w_files w \<and>
    attrs v i = map_option (\<lambda>(u, _, k). (u, m, k)) (attrs w i))"
proof (cases r)
  case (Inl e)
  then show ?thesis using fchmod_errD assms(1) staging_quiet by blast
next
  case (Inr x)
  then have r: "sys_fchmod fd m w = (Inr (), v)" using assms(1) by simp
  have n: "w_nextfd v = w_nextfd w \<and> w_root v = w_root w" using r unfolding sys_fchmod_def
    by (cases rule: syscall_cases) (auto split: option.splits)
  show ?thesis using fchmod_okD [OF r] assms(2) n
    by (auto simp: staging_def same_fs_def fd_ino_def attrs_at)
qed

lemma write_all_staging:
  assumes "write_all fd bs w = (ok, v)" and "w_files w fd = Some \<lparr>f_ino = i, f_pos = 0, f_wr = True\<rparr>"
    and "file_bytes w i = Some []"
  shows "staging i fd w v \<and> attrs v = attrs w \<and> (ok \<longrightarrow> file_bytes v i = Some bs)"
proof -
  have "writable w fd" using assms by (simp add: writable_def)
  from write_all_effect [OF this assms(1)] obtain k where
    k: "wrote w v fd (take k bs)" "k \<le> length bs" "ok \<longrightarrow> k = length bs" by blast
  have "file_bytes v j = file_bytes w j" if "j \<noteq> i" for j
    using k(1) that assms(2) by (auto simp: wrote_def file_bytes_def node_of_def)
  moreover have "file_bytes v i = Some (take k bs)" using k(1) assms(2,3) by (auto simp: wrote_def)
  ultimately show ?thesis
    using k assms(2) by (auto simp: staging_def wrote_def fd_ino_def same_env_def)
qed

lemma staging_wf: "staging i fd w v \<Longrightarrow> wf_fds w \<Longrightarrow> w_files w fd \<noteq> None \<Longrightarrow> wf_fds v"
proof -
  assume s: "staging i fd w v" and w: "wf_fds w" and fd: "w_files w fd \<noteq> None"
  have range: "\<not> (w_nextfd w \<le> fd \<or> fd < 0)" using w fd by (auto simp: wf_fds_def)
  have "w_files v g = None" if "w_nextfd v \<le> g \<or> g < 0" for g
  proof -
    have "g \<noteq> fd" "w_nextfd w \<le> g \<or> g < 0" using that range s by (auto simp: staging_def)
    then have "w_files v g = w_files w g" using s unfolding staging_def by (metis fun_upd_apply)
    then show ?thesis using \<open>w_nextfd w \<le> g \<or> g < 0\<close> w by (auto simp: wf_fds_def)
  qed
  then show "wf_fds v" using w s by (auto simp: wf_fds_def staging_def)
qed

lemma staging_fd_ino: "staging i fd w v \<Longrightarrow> fd_ino v g = fd_ino w g"
proof (cases "g = fd")
  case False
  assume "staging i fd w v"
  then have "w_files v g = w_files w g" using False unfolding staging_def by (metis fun_upd_apply)
  then show ?thesis by (simp add: fd_ino_def)
qed (simp add: staging_def)

lemma edited_staging:
  assumes "edited w v E"
  shows "entry v = E" "\<forall>j. file_bytes v j = file_bytes w j" "attrs v = attrs w" "w_files v = w_files w"
    "w_nextfd v = w_nextfd w" "w_uid v = w_uid w" "w_root v = w_root w"
  using assms by (auto simp: edited_def same_env_def)

lemma config_commit_effect:
  assumes "config_commit dir leaf temp fd expected data w = (r, v)" and "plain_name leaf" and "plain_name temp"
    and "wf_fds w" and "fd_ino w dir = Some d" and fd: "w_files w fd = Some \<lparr>f_ino = i, f_pos = 0, f_wr = True\<rparr>"
    and new: "entry w d temp = Some i" "entry w d leaf \<noteq> Some i" "file_bytes w i = Some []"
      "attrs w i = Some (u, m, S_REG)"
  shows "(w_files v)(fd := None) = (w_files w)(fd := None) \<and> fd_ino v dir = Some d \<and> wf_fds v \<and> w_uid v = w_uid w \<and>
    w_root v = w_root w \<and> r \<in> {0, 1, -1, -2} \<and> (\<forall>j. j \<noteq> i \<longrightarrow> file_bytes v j = file_bytes w j) \<and>
    (if r < 0 then entry v = entry w
     else entry v = (entry w)(d := (entry w d)(temp := None, leaf \<mapsto> i)) \<and> file_bytes v i = Some data \<and>
       attrs v i = Some (u, M0600, S_REG))"
proof -
  have early: ?thesis if "r = -1 \<or> r = -2" "staging i fd w v"
    using that staging_wf [OF that(2) assms(4)] staging_fd_ino [OF that(2), of dir] fd assms(5)
    by (auto simp: staging_def)
  have ino: "fd_ino w fd = Some i" using fd by (simp add: fd_ino_def)
  obtain r1 w1 where 1: "sys_fchmod fd M0600 w = (r1, w1)" by fastforce
  note s1 = fchmod_staging [OF 1 ino]
  show ?thesis
  proof (cases r1)
    case (Inl e)
    then show ?thesis using assms(1) 1 s1 by (intro early) (auto simp: config_commit_def)
  next
    case r1: (Inr x)
    obtain ok w2 where 2: "write_all fd data w1 = (ok, w2)" by fastforce
    have s2: "staging i fd w1 w2 \<and> attrs w2 = attrs w1 \<and> (ok \<longrightarrow> file_bytes w2 i = Some data)"
      using write_all_staging [OF 2, of i] s1 r1 fd new(3) by simp
    have t2: "staging i fd w w2" using s1 s2 staging_trans by blast
    show ?thesis
    proof (cases ok)
      case False
      then show ?thesis using assms(1) 1 r1 2 t2 by (intro early) (auto simp: config_commit_def)
    next
      case ok: True
      obtain r3 w3 where 3: "sys_fsync fd w2 = (r3, w3)" by fastforce
      have q3: "quiet w2 w3" by (rule fsync_quiet [OF 3])
      have t3: "staging i fd w w3" by (rule staging_trans [OF t2 staging_quiet [OF q3]])
      show ?thesis
      proof (cases r3)
        case (Inl e)
        then show ?thesis using assms(1) 1 r1 2 ok 3 t3 by (intro early) (auto simp: config_commit_def)
      next
        case r3: (Inr y)
        obtain r4 w4 where 4: "config_matches dir leaf expected w3 = (r4, w4)" by fastforce
        have wf3: "wf_fds w3" using staging_wf [OF t3 assms(4)] fd by simp
        have at3: "fd_ino w3 dir = Some d" using staging_fd_ino [OF t3] assms(5) by simp
        note m4 = config_matches_effect [OF 4 assms(2) wf3 at3]
        have sd4: "same_disk w3 w4" "w_files w4 = w_files w3" "w_nextfd w3 \<le> w_nextfd w4" using m4 by auto
        have t4: "staging i fd w w4" by (rule staging_trans [OF t3 staging_same_files [OF sd4]])
        show ?thesis
        proof (cases "r4 = 0")
          case False
          then show ?thesis using assms(1) 1 r1 2 ok 3 r3 4 t4 m4 by (intro early) (auto simp: config_commit_def)
        next
          case r4: True
          obtain r5 w5 where 5: "sys_renameat dir temp dir leaf w4 = (r5, w5)" by fastforce
          show ?thesis
          proof (cases r5)
            case (Inl e)
            then have "quiet w4 w5" using rename_errD 5 assms(2,3) by blast
            then have "staging i fd w w5" using staging_trans [OF t4 staging_quiet] by blast
            then show ?thesis using assms(1) 1 r1 2 ok 3 r3 4 r4 5 Inl by (intro early) (auto simp: config_commit_def)
          next
            case r5: (Inr z)
            then have 5: "sys_renameat dir temp dir leaf w4 = (Inr (), w5)" using 5 by simp
            have at4: "fd_ino w4 dir = Some d" using staging_fd_ino [OF t4] assms(5) by simp
            have e4: "entry w4 = entry w" using t4 by (simp add: staging_def)
            from rename_okD [OF 5 assms(3,2)] at4 new(1,2) e4 have
              ed: "edited w4 w5 ((entry w)(d := (entry w d)(temp := None, leaf \<mapsto> i)))" by auto
            obtain r6 w6 where 6: "sys_fsync dir w5 = (r6, w6)" by fastforce
            have q6: "quiet w5 w6" by (rule fsync_quiet [OF 6])
            have rv: "v = w6 \<and> (r = 0 \<or> r = 1)"
              using assms(1) 1 r1 2 ok 3 r3 4 r4 5 6 by (auto simp: config_commit_def split: sum.splits)
            note ed5 = edited_staging [OF ed]
            have e6: "entry w6 = (entry w)(d := (entry w d)(temp := None, leaf \<mapsto> i))"
              using quiet_entry [OF q6] ed5(1) by simp
            have fb6: "file_bytes w6 j = file_bytes w4 j" for j
              using quiet_same_fs [OF q6] ed5(2) by (simp add: same_fs_def)
            have at6: "attrs w6 = attrs w1"
              using quiet_attrs [OF q6] ed5(3) quiet_attrs [OF q3] s2 sd4(1)
              by (simp add: attrs_def same_disk_lookups fun_eq_iff)
            have "attrs w6 i = Some (u, M0600, S_REG)" using at6 s1 r1 new(4) by simp
            moreover have "file_bytes w6 i = Some data"
            proof -
              have "file_bytes w4 = file_bytes w3" using sd4(1) by (simp add: file_bytes_def same_disk_lookups fun_eq_iff)
              then show ?thesis using fb6 s2 ok quiet_same_fs [OF q3] by (simp add: same_fs_def)
            qed
            moreover have "(w_files w6)(fd := None) = (w_files w)(fd := None)" "w_uid w6 = w_uid w" "w_root w6 = w_root w"
              using t4 ed5(4,6,7) q6 by (simp_all add: staging_def quiet_def same_disk_def)
            moreover have "fd_ino w6 dir = Some d" using at4 ed5(4) quiet_lookups(6) [OF q6] by (simp add: fd_ino_def)
            moreover have "wf_fds w6"
              using staging_wf [OF t4 assms(4)] fd edited_wf [OF ed] quiet_wf [OF q6] by simp
            ultimately show ?thesis using rv e6 fb6 t4 by (auto simp: staging_def)
          qed
        qed
      qed
    qed
  qed
qed

lemma created_entries:
  assumes "created w v d n nd" and "fresh_inode w" and "i_node nd = Regular bs" and "dir_of w d \<noteq> None"
  shows "entry v = (entry w)(d := (entry w d)(n \<mapsto> w_next w))"
proof -
  have "entry w (w_next w) = (\<lambda>_. None)" "entry v (w_next w) = (\<lambda>_. None)" "d \<noteq> w_next w"
    using assms by (auto simp: fresh_inode_def created_def entry_def dir_of_def fun_eq_iff)
  then show ?thesis using assms(1) by (auto simp: created_def fun_eq_iff)
qed

lemma temporary_plain:
  assumes "\<forall>b \<in> set random. b < 256"
  shows "plain_name (temporary_name random)"
proof -
  have "CHR ''/'' \<notin> set (hex_bytes random)" using hex_bytes_lower [OF assms] by (auto simp: lower_hex_def)
  then show ?thesis by (simp add: temporary_name_def plain_name_def)
qed

lemma dir_of_attrs: "dir_of w d \<noteq> None \<longleftrightarrow> (\<exists>u m. attrs w d = Some (u, m, S_DIR))"
proof (cases "w_inodes w d")
  case (Some nd)
  then show ?thesis by (cases "i_node nd") (simp_all add: dir_of_def attrs_def)
qed (simp add: dir_of_def attrs_def)

lemma entry_dir: "entry w d n = Some i \<Longrightarrow> dir_of w d \<noteq> None"
  by (rule entry_dir_of)

text \<open>The last calls: both descriptors are closed and the temporary name is removed, if it can be.\<close>

lemma discard_temporary:
  assumes "fd_ino w dir = Some d" and "plain_name temp" and "fd \<noteq> dir"
  defines "v \<equiv> sys_close dir (snd (sys_unlinkat dir temp False (sys_close fd w)))"
  shows "w_files v = (w_files w)(fd := None, dir := None)" "file_bytes v = file_bytes w" "attrs v = attrs w"
    "w_root v = w_root w" "wf_fds w \<Longrightarrow> wf_fds v" "entry v = entry w \<or> entry v = (entry w)(d := (entry w d)(temp := None))"
    "entry w d temp = None \<Longrightarrow> entry v = entry w"
proof -
  obtain r u where u: "sys_unlinkat dir temp False (sys_close fd w) = (r, u)" by fastforce
  have at: "fd_ino (sys_close fd w) dir = Some d" using assms(1,3) by (simp add: fd_ino_def)
  have v: "v = sys_close dir u" by (simp add: v_def u)
  have "(\<exists>E. edited (sys_close fd w) u E \<and> (E = entry w \<or> entry w d temp \<noteq> None \<and> E = (entry w)(d := (entry w d)(temp := None))))"
  proof (cases r)
    case (Inl e)
    then have "quiet (sys_close fd w) u" using u unlink_errD assms(2) by blast
    then show ?thesis using edited_quiet by fastforce
  next
    case (Inr x)
    then show ?thesis using unlink_okD [of dir temp False "sys_close fd w" u] u assms(2) at by fastforce
  qed
  then obtain E where E: "edited (sys_close fd w) u E"
    "E = entry w \<or> entry w d temp \<noteq> None \<and> E = (entry w)(d := (entry w d)(temp := None))" by blast
  show "w_files v = (w_files w)(fd := None, dir := None)" "file_bytes v = file_bytes w" "attrs v = attrs w"
    "w_root v = w_root w" using E(1) by (auto simp: v edited_def same_env_def)
  show "wf_fds w \<Longrightarrow> wf_fds v" unfolding v by (intro wf_fds_close edited_wf [OF E(1)])
  show "entry v = entry w \<or> entry v = (entry w)(d := (entry w d)(temp := None))"
    "entry w d temp = None \<Longrightarrow> entry v = entry w"
    using E by (auto simp: v edited_def)
qed

lemma zr_tls_replace_config_effect:
  assumes "wf_fds w" and "fresh_inode w" and random: "\<forall>b \<in> set random. b < 256"
    and "config_leaf path \<noteq> temporary_name random"
    and "zr_tls_replace_config path expected data (Some random) w = (r, v)"
  shows "w_files v = w_files w \<and> wf_fds v \<and> w_root v = w_root w \<and> r \<in> {0, 1, -1, -2} \<and>
    (\<forall>j. j \<noteq> w_next w \<longrightarrow> file_bytes v j = file_bytes w j) \<and>
    (if r < 0 then \<forall>e n. n \<noteq> temporary_name random \<longrightarrow> entry v e n = entry w e n
     else \<exists>d. config_dir w path d \<and>
       (case expected of None \<Rightarrow> entry w d (config_leaf path) = None
        | Some old \<Rightarrow> private_file w d (config_leaf path) old) \<and>
       entry v = (entry w)(d := (entry w d)(config_leaf path \<mapsto> w_next w)) \<and>
       file_bytes v (w_next w) = Some data \<and> attrs v (w_next w) = Some (w_uid w, M0600, S_REG))"
proof -
  define temp where "temp = temporary_name random"
  have pt: "plain_name temp" unfolding temp_def by (rule temporary_plain [OF random])
  have early: ?thesis if "r = -1 \<or> r = -2" "same_disk w v" "w_files v = w_files w" "w_nextfd w \<le> w_nextfd v"
    using that assms(1) by (auto simp: same_disk_lookups file_bytes_def wf_fds_def)
  obtain dir leaf u where p: "private_parent path w = ((dir, leaf), u)" by (metis prod.collapse)
  note par = private_parent_effect [OF p assms(1)]
  define len where "len = (case expected of None \<Rightarrow> 0 | Some e \<Rightarrow> length e)"
  show ?thesis
  proof (cases "length data \<ge> 65536 \<or> len \<ge> 65536 \<or> dir < 0")
    case True
    then have "r = -1 \<and> (v = w \<or> v = u \<and> dir < 0)"
      using assms(5) p by (auto simp: zr_tls_replace_config_def len_def split: if_splits)
    then show ?thesis using par by (intro early) (auto simp: freed_def)
  next
    case start: False
    then obtain d where d: "config_dir w path d" "leaf = config_leaf path" "plain_name leaf" "holds w u dir d"
      "same_disk w u" using par by auto
    have wf: "wf_fds u" by (rule holds_wf [OF d(4) assms(1)])
    have at: "fd_ino u dir = Some d" by (rule holds_fd_ino [OF d(4)])
    have balance: "(w_files u)(dir := None) = w_files w"
      using d(4) assms(1) by (auto simp: holds_def wf_fds_def fun_eq_iff)
    obtain q t where 2: "config_matches dir leaf expected u = (q, t)" by fastforce
    note m2 = config_matches_effect [OF 2 d(3) wf at]
    have sd: "same_disk w t" and ft: "w_files t = w_files u" using m2 same_disk_trans [OF d(5)] by auto
    have up: "w_nextfd w \<le> w_nextfd t" using d(4) m2 by (auto simp: holds_def)
    show ?thesis
    proof (cases "q = 0")
      case False
      then have "r = q" "v = sys_close dir t"
        using assms(5) p start 2 by (auto simp: zr_tls_replace_config_def len_def)
      then show ?thesis using m2 False sd ft balance up by (intro early) auto
    next
      case q: True
      let ?fl = "[O_WRONLY, O_CREAT, O_EXCL, O_NOFOLLOW, O_CLOEXEC]"
      obtain x s where 3: "sys_openat dir temp ?fl M0600 t = (x, s)" by fastforce
      have fl: "create_flags ?fl" by (simp add: create_flags_def)
      have ft': "fresh_inode t" using assms(2) fresh_inode_same [OF sd] by simp
      show ?thesis
      proof (cases x)
        case (Inl e)
        then have qs: "quiet t s" using openat_create_errD [OF _ fl pt ft'] 3 by blast
        have "r = -1" "v = sys_close dir s"
          using assms(5) p start 2 q 3 Inl by (auto simp: zr_tls_replace_config_def len_def temp_def)
        then show ?thesis using same_disk_quiet [OF sd qs] quiet_lookups(7,8) [OF qs] ft balance up by (intro early) auto
      next
        case (Inr fd)
        let ?i = "w_next t"
        have i: "?i = w_next w" and uid: "w_uid t = w_uid w" using sd by (simp_all add: same_disk_def)
        have att: "fd_ino t dir = Some d" using at ft by (simp add: fd_ino_def)
        from openat_create_okD [OF 3 [unfolded Inr] fl pt ft'] att obtain nd where
          c: "entry t d temp = None" "fd = w_nextfd t" "created t s d temp nd" "i_node nd = Regular []"
            "i_uid nd = w_uid t" "i_mode nd = M0600"
            "w_files s = (w_files t)(fd \<mapsto> \<lparr>f_ino = ?i, f_pos = 0, f_wr = True\<rparr>)" "w_nextfd s = w_nextfd t + 1"
          by auto
        have wft: "wf_fds t" using wf m2 by (auto simp: wf_fds_def)
        have wfs: "wf_fds s" using wft c(2,7,8) by (auto simp: wf_fds_def)
        have "w_files t fd = None" using wft c(2) by (simp add: wf_fds_def)
        then have ne: "fd \<noteq> dir" using att by (auto simp: fd_ino_def)
        have ats: "fd_ino s dir = Some d" using att ne c(7) by (simp add: fd_ino_def)
        have isdir: "dir_of t d \<noteq> None"
        proof -
          have ds: "dir_of s d \<noteq> None" using c(3) entry_dir [of s d temp] by (simp add: created_def)
          moreover have "d \<noteq> ?i"
          proof
            assume "d = ?i"
            then show False using ds c(3,4) by (simp add: created_def dir_of_def)
          qed
          ultimately have "attrs s d = attrs t d" using c(3) by (simp add: created_def)
          then show ?thesis using ds unfolding dir_of_attrs by simp
        qed
        have es: "entry s = (entry w)(d := (entry w d)(temp \<mapsto> ?i))"
          using created_entries [OF c(3) ft' c(4) isdir] sd by (simp add: same_disk_lookups fun_eq_iff)
        have leaf: "leaf \<noteq> temp" using assms(4) d(2) temp_def by simp
        have matched: "case expected of None \<Rightarrow> entry w d leaf = None | Some old \<Rightarrow> private_file w d leaf old"
          using m2 q d(5) by (auto simp: same_disk_lookups private_file_same split: option.splits)
        have noclash: "entry s d leaf \<noteq> Some ?i"
          using matched leaf assms(2) i by (auto simp: es private_file_def fresh_inode_def split: option.splits)
        obtain k z where 4: "config_commit dir leaf temp fd expected data s = (k, z)" by fastforce
        have "entry s d temp = Some ?i" "file_bytes s ?i = Some []" "attrs s ?i = Some (w_uid w, M0600, S_REG)"
          "w_files s fd = Some \<lparr>f_ino = ?i, f_pos = 0, f_wr = True\<rparr>"
          using c uid es by (auto simp: created_def file_bytes_def node_of_def attrs_def)
        from config_commit_effect [OF 4 d(3) pt wfs ats this(4) this(1) noclash this(2,3)] have
          z: "(w_files z)(fd := None) = (w_files s)(fd := None)" "fd_ino z dir = Some d" "k \<in> {0, 1, -1, -2}"
            "\<forall>j. j \<noteq> ?i \<longrightarrow> file_bytes z j = file_bytes s j" "wf_fds z" "w_root z = w_root s"
          and fin: "if k < 0 then entry z = entry s
            else entry z = (entry s)(d := (entry s d)(temp := None, leaf \<mapsto> ?i)) \<and> file_bytes z ?i = Some data \<and>
              attrs z ?i = Some (w_uid w, M0600, S_REG)" by auto
        have rv: "r = k" "v = sys_close dir (snd (sys_unlinkat dir temp False (sys_close fd z)))"
          using assms(5) p start 2 q 3 Inr 4 by (auto simp: zr_tls_replace_config_def len_def temp_def)
        note dis = discard_temporary [OF z(2) pt ne, folded rv(2)]
        have files: "w_files v = w_files w"
        proof -
          have "(w_files s)(fd := None) = w_files t"
            using c(7) \<open>w_files t fd = None\<close> by (auto simp: fun_eq_iff)
          then show ?thesis using dis(1) z(1) ft balance by simp
        qed
        have others: "\<forall>j. j \<noteq> w_next w \<longrightarrow> file_bytes v j = file_bytes w j"
          using dis(2) z(4) c(3) i sd by (auto simp: created_def file_bytes_def same_disk_lookups)
        have rooted: "wf_fds v" "w_root v = w_root w"
          using dis(4,5) z(5,6) c(3) sd by (auto simp: created_def same_env_def same_disk_def)
        have w0: "entry w d temp = None" using c(1) sd by (simp add: same_disk_lookups)
        show ?thesis
        proof (cases "k < 0")
          case True
          then have "\<forall>e n. n \<noteq> temp \<longrightarrow> entry v e n = entry w e n" using dis(6) fin es by auto
          then show ?thesis using True rv(1) files others z(3) rooted by (auto simp: temp_def)
        next
          case False
          have idem: "(entry w d)(temp := None) = entry w d" using w0 by (simp add: fun_upd_idem)
          have "entry z = (entry w)(d := ((entry w d)(temp := None))(leaf \<mapsto> ?i))"
            using False fin es by simp
          then have ez: "entry z = (entry w)(d := (entry w d)(leaf \<mapsto> ?i))" unfolding idem .
          then have "entry z d temp = None" using w0 leaf by simp
          then have "entry v = entry z" by (rule dis(7))
          then show ?thesis
            using False fin dis(2,3) ez i rv(1) files others z(3) rooted matched d(1,2) by auto
        qed
      qed
    qed
  qed
qed

text \<open>
  C3: \<open>zr_tls_replace_config\<close> replaces atomically and optimistically. Whatever system call
  fails, all descriptors are closed, and unless 0 or 1 is returned no name but the random
  temporary one and no contents of an existing file changed. If 0 or 1 is returned, the
  configuration was what the caller expected, its name now leads to a new file of the user
  with mode 0600 and exactly the given bytes, and no other name changed.
\<close>

theorem zr_tls_replace_config_atomic:
  assumes "wf_fds w" and "fresh_inode w" and random: "\<forall>b \<in> set random. b < 256"
    and "config_leaf path \<noteq> temporary_name random"
    and "zr_tls_replace_config path expected data (Some random) w = (r, v)"
  shows "w_files v = w_files w \<and> r \<in> {0, 1, -1, -2} \<and>
    (\<forall>j. j \<noteq> w_next w \<longrightarrow> file_bytes v j = file_bytes w j) \<and>
    (if r < 0 then \<forall>e n. n \<noteq> temporary_name random \<longrightarrow> entry v e n = entry w e n
     else \<exists>d. config_dir w path d \<and>
       (case expected of None \<Rightarrow> entry w d (config_leaf path) = None
        | Some old \<Rightarrow> private_file w d (config_leaf path) old) \<and>
       entry v = (entry w)(d := (entry w d)(config_leaf path \<mapsto> w_next w)) \<and>
       file_bytes v (w_next w) = Some data \<and> attrs v (w_next w) = Some (w_uid w, M0600, S_REG))"
  using zr_tls_replace_config_effect [OF assms] by blast

definition sample_random :: "nat list" where
  "sample_random = replicate 16 0"

lemma sample_name: "temporary_name sample_random = ''.relay-settings-00000000000000000000000000000000''"
  by code_simp

text \<open>Success and an edit noticed in time, on concrete worlds.\<close>

theorem zr_tls_replace_config_atomic_witness:
  "fst (zr_tls_replace_config ''/up/f'' (Some ''hi'') ''new'' (Some sample_random) (sample_world [])) = 0 \<and>
   file_bytes (snd (zr_tls_replace_config ''/up/f'' (Some ''hi'') ''new'' (Some sample_random) (sample_world []))) 4 = Some ''new'' \<and>
   fst (zr_tls_replace_config ''/up/f'' (Some ''ho'') ''new'' (Some sample_random) (sample_world [])) = -2"
proof -
  let ?run = "zr_tls_replace_config ''/up/f'' (Some ''hi'') ''new'' (Some sample_random) (sample_world [])"
  have 1: "fst ?run = 0"
    by (simp add: tls_file_run sample_name posix_run sys_fchmod_def write_all.simps)
  have 2: "fst (zr_tls_replace_config ''/up/f'' (Some ''ho'') ''new'' (Some sample_random) (sample_world [])) = -2"
    by (simp add: tls_file_run posix_run)
  have "config_leaf ''/up/f'' \<noteq> temporary_name sample_random" "w_next (sample_world []) = 4"
    "\<forall>b \<in> set sample_random. b < 256"
    unfolding sample_name by (simp_all add: config_leaf_def components_def sample_world_def sample_random_def)
  with zr_tls_replace_config_atomic [OF sample_wf(1) [of "[]"] sample_wf(2) [of "[]"] _ _ surjective_pairing,
      where path = "''/up/f''" and expected = "Some ''hi''" and data = "''new''" and random = "sample_random"] 1 2
  show ?thesis by auto
qed

lemma chain_edit_file:
  assumes "entry v = (entry w)(d := (entry w d)(n \<mapsto> i))"
    and "\<And>j. entry w d n = Some j \<Longrightarrow> j \<noteq> d \<and> entry w j = (\<lambda>_. None)"
  shows "chain w r ps = Some d \<Longrightarrow> chain v r ps = Some d"
proof (induction ps arbitrary: r)
  case (Cons c cs)
  then obtain k where k: "entry w r c = Some k" "chain w k cs = Some d" by (auto split: option.splits)
  have "\<not> (r = d \<and> c = n)"
  proof
    assume "r = d \<and> c = n"
    then have "entry w d n = Some k" using k(1) by simp
    from assms(2) [OF this] k(2) show False by (cases cs) simp_all
  qed
  then have "entry v r c = Some k" using k(1) assms(1) by auto
  then show ?case using Cons.IH [OF k(2)] by simp
qed simp

text \<open>
  C31: After a replacement that returned 0 or 1, reading the same path gives back exactly the
  bytes that were saved, or fails with \<open>-1\<close>; it never reports the file as absent.
\<close>

theorem zr_tls_config_roundtrip:
  assumes "wf_fds w" and "fresh_inode w" and "\<forall>b \<in> set random. b < 256"
    and "config_leaf path \<noteq> temporary_name random"
    and "zr_tls_replace_config path expected data (Some random) w = (r, v)" and "0 \<le> r"
    and "zr_tls_read_config path cap v = (result, u)"
  shows "result = Inr data \<or> result = Inl (-1)"
proof -
  from zr_tls_replace_config_effect [OF assms(1-5)] assms(6) obtain d where
    d: "config_dir w path d" "entry v = (entry w)(d := (entry w d)(config_leaf path \<mapsto> w_next w))"
      "file_bytes v (w_next w) = Some data"
      "case expected of None \<Rightarrow> entry w d (config_leaf path) = None
        | Some old \<Rightarrow> private_file w d (config_leaf path) old"
      "w_root v = w_root w" and wf: "wf_fds v" by auto
  have "j \<noteq> d \<and> entry w j = (\<lambda>_. None)" if j: "entry w d (config_leaf path) = Some j" for j
  proof -
    obtain old where "private_file w d (config_leaf path) old" using d(4) j by (auto split: option.splits)
    then obtain nd where "w_inodes w j = Some nd" "i_node nd = Regular old" using j by (auto simp: private_file_def)
    then have "dir_of w j = None" by (simp add: dir_of_def)
    then show ?thesis using entry_dir [OF j] by (auto simp: entry_def fun_eq_iff)
  qed
  from chain_edit_file [OF d(2) this] d(1,5)
  have c: "chain v (w_root v) (butlast (components (tl path))) = Some d" by (simp add: config_dir_def)
  have e: "entry v d (config_leaf path) = Some (w_next w)" using d(2) by simp
  note eff = zr_tls_read_config_effect [OF wf assms(7)]
  show ?thesis
  proof (cases result)
    case (Inl code)
    have "\<not> (\<exists>d'. config_dir v path d' \<and> entry v d' (config_leaf path) = None)"
      using c e by (auto simp: config_dir_def)
    then show ?thesis using eff unfolding Inl sum.case by blast
  next
    case (Inr got)
    then obtain d' where d': "config_dir v path d'" "private_file v d' (config_leaf path) got" using eff by auto
    then have "d' = d" using c by (simp add: config_dir_def)
    then have "file_bytes v (w_next w) = Some got" using d'(2) e by (auto simp: private_file_def file_bytes_def node_of_def)
    then show ?thesis using d(3) Inr by simp
  qed
qed

text \<open>The sample world after the replacement of \<open>f\<close>.\<close>

definition saved_world :: world where
  "saved_world = (sample_world [])\<lparr>w_inodes := (w_inodes (sample_world []))
     (1 \<mapsto> sample_inode (Directory 0 [(''f'', 4), (''s'', 3)]) M0700,
      2 \<mapsto> (sample_inode (Regular ''hi'') M0600)\<lparr>i_nlink := 0\<rparr>,
      4 \<mapsto> sample_inode (Regular ''new'') M0600), w_next := 5, w_nextfd := 10\<rparr>"

lemma saved_run:
  "zr_tls_replace_config ''/up/f'' (Some ''hi'') ''new'' (Some sample_random) (sample_world []) = (0, saved_world)"
  unfolding saved_world_def
  by (simp add: tls_file_run sample_name posix_run sys_fchmod_def write_all.simps fun_eq_iff)

theorem zr_tls_config_roundtrip_witness:
  "fst (zr_tls_read_config ''/up/f'' 16 saved_world) = Inr ''new''"
proof -
  have 2: "fst (zr_tls_read_config ''/up/f'' 16 saved_world) \<noteq> Inl (-1)"
    by (simp add: saved_world_def tls_file_run posix_run)
  have "config_leaf ''/up/f'' \<noteq> temporary_name sample_random" "\<forall>b \<in> set sample_random. b < 256"
    unfolding sample_name by (simp_all add: config_leaf_def components_def sample_random_def)
  with zr_tls_config_roundtrip [OF sample_wf(1) sample_wf(2) _ _ saved_run _ surjective_pairing, where cap = 16] 2
  show ?thesis by auto
qed

end
