(* ===== verification/Calendar.thy ===== *)
theory Calendar
  imports Prelude
begin

text \<open>
  The calendar functions of the C library the sources call: \<open>gmtime_r\<close>, \<open>timegm\<close> (on a
  normalised \<open>struct tm\<close>) and the \<open>strftime\<close>/\<open>printf\<close> conversions they use, for the proleptic
  Gregorian calendar. A year is found by search from a lower estimate; \<open>gmtime\<close> never overflows
  for the times the sources compute.
\<close>

section \<open>Years and months\<close>

record tm =
  tm_year :: int
  tm_mon :: int
  tm_mday :: int
  tm_hour :: int
  tm_min :: int
  tm_sec :: int

definition leap :: "int \<Rightarrow> bool" where
  "leap y \<longleftrightarrow> y mod 4 = 0 \<and> (y mod 100 \<noteq> 0 \<or> y mod 400 = 0)"

text \<open>Leap years up to \<open>y\<close>.\<close>

definition leaps :: "int \<Rightarrow> int" where
  "leaps y = y div 4 - y div 100 + y div 400"

text \<open>Days from 1970-01-01 to the first day of the year \<open>y\<close>.\<close>

definition year_start :: "int \<Rightarrow> int" where
  "year_start y = 365 * (y - 1970) + leaps (y - 1) - 477"

lemma leap_sum:
  fixes a b c :: int
  assumes "d = a + (if p then 1 else 0)" and "e = b + (if q then 1 else 0)" and "f = c + (if r then 1 else 0)"
    and "r \<Longrightarrow> q" and "q \<Longrightarrow> p"
  shows "d - e + f = a - b + c + (if p \<and> (\<not> q \<or> r) then 1 else 0)"
  using assms by (cases p; cases q; cases r) auto

lemma year_start_step: "year_start (y + 1) = year_start y + (if leap y then 366 else 365)"
proof -
  have s: "y div k = (y - 1) div k + (if y mod k = 0 then 1 else 0)" if "k > 1" for k :: int
  proof -
    have y: "y - 1 = k * (y div k) + (y mod k - 1)" using mult_div_mod_eq [of k y] by linarith
    show ?thesis
    proof (cases "y mod k = 0")
      case True
      have "(y - 1) div k = y div k - 1"
        by (rule int_div_pos_eq [where r = "k - 1"]) (use y that True in \<open>simp_all add: algebra_simps\<close>)
      then show ?thesis using True by simp
    next
      case False
      moreover have "0 \<le> y mod k" "y mod k < k" using that by simp_all
      ultimately have "0 \<le> y mod k - 1" "y mod k - 1 < k" by linarith+
      from int_div_pos_eq [OF y this] show ?thesis using False by simp
    qed
  qed
  have "y mod 100 = 0" if "y mod 400 = 0"
    using that dvd_trans [of "100 :: int" 400 y] by (simp add: mod_eq_0_iff_dvd)
  moreover have "y mod 4 = 0" if "y mod 100 = 0"
    using that dvd_trans [of "4 :: int" 100 y] by (simp add: mod_eq_0_iff_dvd)
  ultimately have "leaps y = leaps (y - 1) + (if leap y then 1 else 0)"
    unfolding leap_def leaps_def by (intro leap_sum s) auto
  then show ?thesis by (simp add: year_start_def)
qed

lemma year_start_increases: "year_start y + 365 \<le> year_start (y + 1)"
  by (simp add: year_start_step)

lemma year_start_later: "year_start (y + 1) \<le> d \<Longrightarrow> year_start y < d" "year_start y < year_start (y + 1)"
  using year_start_increases [of y] by linarith+

function find_year :: "int \<Rightarrow> int \<Rightarrow> int" where
  "find_year y d = (if year_start (y + 1) \<le> d then find_year (y + 1) d else y)"
  by pat_completeness auto
termination
  by (relation "measure (\<lambda>(y, d). nat (d - year_start y))") (use year_start_later in auto)

declare find_year.simps [simp del]

definition year_of :: "int \<Rightarrow> int" where
  "year_of d = find_year (1969 + 400 * d div 146097) d"

definition month_lengths :: "int \<Rightarrow> int list" where
  "month_lengths y = [31, if leap y then 29 else 28, 31, 30, 31, 30, 31, 31, 30, 31, 30, 31]"

fun month_day :: "int list \<Rightarrow> int \<Rightarrow> nat \<times> int" where
  "month_day [] d = (0, d)"
| "month_day (len # lens) d = (if d < len then (0, d) else (case month_day lens (d - len) of (m, r) \<Rightarrow> (Suc m, r)))"

definition gmtime :: "int \<Rightarrow> tm" where
  "gmtime t = (let d = t div 86400; s = t mod 86400; y = year_of d;
     (m, r) = month_day (month_lengths y) (d - year_start y)
     in \<lparr>tm_year = y - 1900, tm_mon = int m, tm_mday = r + 1, tm_hour = s div 3600, tm_min = s mod 3600 div 60,
         tm_sec = s mod 60\<rparr>)"

definition timegm :: "tm \<Rightarrow> int" where
  "timegm t = (year_start (tm_year t + 1900) + sum_list (take (nat (tm_mon t)) (month_lengths (tm_year t + 1900))) +
     tm_mday t - 1) * 86400 + tm_hour t * 3600 + tm_min t * 60 + tm_sec t"

section \<open>Fixed width decimals\<close>

fun fixed :: "nat \<Rightarrow> nat \<Rightarrow> string" where
  "fixed 0 n = []"
| "fixed (Suc k) n = fixed k (n div 10) @ [char_of (48 + n mod 10)]"

definition number :: "string \<Rightarrow> nat" where
  "number ds = foldl (\<lambda>n c. n * 10 + (byte c - 48)) 0 ds"

lemma length_fixed [simp]: "length (fixed k n) = k"
  by (induction k n rule: fixed.induct) auto

lemma number_fixed: "n < 10 ^ k \<Longrightarrow> number (fixed k n) = n"
proof (induction k n rule: fixed.induct)
  case (2 k n)
  then have "number (fixed k (n div 10)) = n div 10" by (simp add: less_mult_imp_div_less mult.commute)
  then show ?case by (simp add: number_def)
qed (simp add: number_def)

text \<open>\<open>%llu\<close> and \<open>%ld\<close>.\<close>

fun digits :: "nat \<Rightarrow> string" where
  "digits n = (if n < 10 then [char_of (48 + n)] else digits (n div 10) @ [char_of (48 + n mod 10)])"

declare digits.simps [simp del]

definition decimal :: "int \<Rightarrow> string" where
  "decimal i = (if i < 0 then CHR ''-'' # digits (nat (- i)) else digits (nat i))"

text \<open>\<open>%Y-%m-%dT%H:%M:%S\<close>, for a year of four digits.\<close>

definition iso_date :: "tm \<Rightarrow> string" where
  "iso_date t = fixed 4 (nat (tm_year t + 1900)) @ ''-'' @ fixed 2 (nat (tm_mon t + 1)) @ ''-'' @ fixed 2 (nat (tm_mday t)) @
     ''T'' @ fixed 2 (nat (tm_hour t)) @ '':'' @ fixed 2 (nat (tm_min t)) @ '':'' @ fixed 2 (nat (tm_sec t))"

lemma length_iso_date [simp]: "length (iso_date t) = 19"
  by (simp add: iso_date_def)

section \<open>Correctness\<close>

lemma find_year_bounds: "year_start y \<le> d \<Longrightarrow> year_start (find_year y d) \<le> d \<and> d < year_start (find_year y d + 1)"
proof (induction y d rule: find_year.induct)
  case (1 y d)
  then show ?case by (simp add: find_year.simps [of y d])
qed

lemma year_of_bounds: "year_start (year_of d) \<le> d \<and> d < year_start (year_of d + 1)"
proof -
  define q where "q = 400 * d div 146097"
  define m where "m = 1968 + q"
  have q: "146097 * q \<le> 400 * d" "400 * d < 146097 * q + 146097" unfolding q_def by linarith+
  have "4 * (m div 4) \<le> m" "100 * (m div 100) > m - 100" "400 * (m div 400) \<le> m" by linarith+
  then have "400 * (m div 4) \<le> 100 * m" "400 * (m div 100) > 4 * m - 400" "400 * (m div 400) \<le> m" by linarith+
  moreover have "400 * year_start (1969 + q) = 146000 * (q - 1) + 400 * (m div 4) - 400 * (m div 100) + 400 * (m div 400) - 190800"
    by (simp add: year_start_def leaps_def m_def algebra_simps)
  ultimately have "400 * year_start (1969 + q) \<le> 146000 * (q - 1) + 97 * m + 400 - 190800" by linarith
  also have "\<dots> \<le> 400 * d" using q unfolding m_def by simp
  finally have "year_start (1969 + q) \<le> d" by linarith
  then show ?thesis unfolding year_of_def q_def by (rule find_year_bounds)
qed

lemma month_day_bounds:
  "0 \<le> d \<Longrightarrow> d < sum_list lens \<Longrightarrow> month_day lens d = (m, r) \<Longrightarrow>
   m < length lens \<and> 0 \<le> r \<and> r < lens ! m \<and> sum_list (take m lens) + r = d"
proof (induction lens d arbitrary: m r rule: month_day.induct)
  case (2 len lens d)
  show ?case
  proof (cases "d < len")
    case False
    obtain m1 r1 where p: "month_day lens (d - len) = (m1, r1)" by fastforce
    with 2 False have "m1 < length lens \<and> 0 \<le> r1 \<and> r1 < lens ! m1 \<and> sum_list (take m1 lens) + r1 = d - len" by simp
    then show ?thesis using "2.prems"(3) p False by auto
  qed (use 2 in simp)
qed simp

lemma month_lengths_sum: "sum_list (month_lengths y) = (if leap y then 366 else 365)" "length (month_lengths y) = 12"
  by (simp_all add: month_lengths_def)

definition valid_tm :: "tm \<Rightarrow> bool" where
  "valid_tm t \<longleftrightarrow> 0 \<le> tm_mon t \<and> tm_mon t < 12 \<and> 1 \<le> tm_mday t \<and>
     tm_mday t \<le> month_lengths (tm_year t + 1900) ! nat (tm_mon t) \<and>
     0 \<le> tm_hour t \<and> tm_hour t < 24 \<and> 0 \<le> tm_min t \<and> tm_min t < 60 \<and> 0 \<le> tm_sec t \<and> tm_sec t < 60"

lemma clock_fields:
  fixes q :: int assumes "0 \<le> q" and "q < 86400"
  shows "0 \<le> q div 3600" "q div 3600 < 24" "0 \<le> q mod 3600 div 60" "q mod 3600 div 60 < 60" "0 \<le> q mod 60" "q mod 60 < 60"
    "q div 3600 * 3600 + q mod 3600 div 60 * 60 + q mod 60 = q"
proof -
  define a where "a = q div 3600"
  define r where "r = q mod 3600"
  define b where "b = r div 60"
  define c where "c = r mod 60"
  have c: "q mod 60 = c" unfolding c_def r_def by (simp add: mod_mod_cancel)
  have q: "q = 3600 * a + r" "r = 60 * b + c" unfolding a_def r_def b_def c_def by simp_all
  have r: "0 \<le> r" "r < 3600" "0 \<le> c" "c < 60" unfolding r_def c_def by simp_all
  show "0 \<le> q div 3600" "q div 3600 < 24" "0 \<le> q mod 3600 div 60" "q mod 3600 div 60 < 60" "0 \<le> q mod 60" "q mod 60 < 60"
    "q div 3600 * 3600 + q mod 3600 div 60 * 60 + q mod 60 = q"
    using q r assms unfolding c a_def [symmetric] r_def [symmetric] b_def [symmetric] by linarith+
qed

lemma gmtime_correct: "valid_tm (gmtime s) \<and> timegm (gmtime s) = s"
proof -
  define d where "d = s div 86400"
  define y where "y = year_of d"
  obtain m r where p: "month_day (month_lengths y) (d - year_start y) = (m, r)" by fastforce
  have g: "gmtime s = \<lparr>tm_year = y - 1900, tm_mon = int m, tm_mday = r + 1, tm_hour = s mod 86400 div 3600,
      tm_min = s mod 86400 mod 3600 div 60, tm_sec = s mod 86400 mod 60\<rparr>"
    using p unfolding gmtime_def Let_def d_def y_def by simp
  have "0 \<le> d - year_start y" "d - year_start y < sum_list (month_lengths y)"
    using year_of_bounds [of d] year_start_step [of y] by (simp_all add: y_def month_lengths_sum)
  from month_day_bounds [OF this p] have
    b: "m < 12" "0 \<le> r" "r < month_lengths y ! m" "sum_list (take m (month_lengths y)) + r = d - year_start y"
    by (simp_all add: month_lengths_sum)
  have clock: "0 \<le> s mod 86400" "s mod 86400 < 86400" by simp_all
  have "0 \<le> int m" "int m < 12" "1 \<le> r + 1" "r + 1 \<le> month_lengths (y - 1900 + 1900) ! nat (int m)" using b by simp_all
  then have "valid_tm (gmtime s)" unfolding g valid_tm_def tm.select_convs using clock_fields [OF clock] by blast
  moreover have "timegm (gmtime s) = s"
  proof -
    have "timegm (gmtime s) = d * 86400 + s mod 86400 div 3600 * 3600 + s mod 86400 mod 3600 div 60 * 60 + s mod 86400 mod 60"
      unfolding g timegm_def tm.select_convs using b(4) by (simp only: nat_int diff_add_cancel) (simp only: algebra_simps)
    also have "\<dots> = d * 86400 + s mod 86400" using clock_fields(7) [OF clock] by (simp only: add.assoc)
    also have "\<dots> = s" unfolding d_def by (rule div_mult_mod_eq)
    finally show ?thesis .
  qed
  ultimately show ?thesis ..
qed

lemma int_number_fixed: "0 \<le> i \<Longrightarrow> i < 10 ^ k \<Longrightarrow> int (number (fixed k (nat i))) = i"
  by (subst number_fixed) (simp_all add: nat_less_iff)

text \<open>The fields read back from their fixed positions.\<close>

definition iso_fields :: "string \<Rightarrow> tm" where
  "iso_fields s = (let field = (\<lambda>at n. int (number (take n (drop at s)))) in
     \<lparr>tm_year = field 0 4 - 1900, tm_mon = field 5 2 - 1, tm_mday = field 8 2, tm_hour = field 11 2, tm_min = field 14 2,
      tm_sec = field 17 2\<rparr>)"

lemma iso_date_fields:
  assumes "valid_tm t" and "0 \<le> tm_year t + 1900" and "tm_year t \<le> 8099"
  shows "iso_fields (iso_date t @ rest) = t"
proof -
  have "tm_mday t \<le> 31"
  proof -
    have "\<forall>x \<in> set (month_lengths (tm_year t + 1900)). x \<le> 31" by (auto simp: month_lengths_def)
    moreover have "month_lengths (tm_year t + 1900) ! nat (tm_mon t) \<in> set (month_lengths (tm_year t + 1900))"
      using assms(1) by (intro nth_mem) (simp add: valid_tm_def month_lengths_sum nat_less_iff)
    ultimately show ?thesis using assms(1) by (auto simp: valid_tm_def)
  qed
  moreover have "tm_mday t \<ge> 1" "0 \<le> tm_mon t" "tm_mon t < 12" "0 \<le> tm_hour t" "tm_hour t < 24" "0 \<le> tm_min t" "tm_min t < 60"
    "0 \<le> tm_sec t" "tm_sec t < 60" using assms(1) by (simp_all add: valid_tm_def)
  ultimately show ?thesis using assms(2,3)
    by (simp add: iso_fields_def iso_date_def int_number_fixed Let_def)
qed

text \<open>2001-01-01T00:00:00, the epoch of the Messages database.\<close>

lemma epoch_year: "year_of 11323 = 2001" "year_start 2001 = 11323" "month_day (month_lengths 2001) 0 = (0, 0)"
  by (simp_all add: year_of_def find_year.simps year_start_def leaps_def month_lengths_def)

lemma sample_tm: "gmtime 978307200 = \<lparr>tm_year = 101, tm_mon = 0, tm_mday = 1, tm_hour = 0, tm_min = 0, tm_sec = 0\<rparr>"
  by (simp add: gmtime_def epoch_year)

lemma fixed_numeral: "fixed (numeral k) n = fixed (pred_numeral k) (n div 10) @ [char_of (48 + n mod 10)]"
  by (subst numeral_eq_Suc) (rule fixed.simps(2))

lemma byte_0: "of_char (CHR ''0'') = (48 :: nat)" by simp
lemma byte_1: "of_char (CHR ''1'') = (49 :: nat)" by simp
lemma byte_2: "of_char (CHR ''2'') = (50 :: nat)" by simp

lemma char_0: "char_of (48 :: nat) = CHR ''0''" by (metis byte_0 char_of_byte)
lemma char_1: "char_of (49 :: nat) = CHR ''1''" by (metis byte_1 char_of_byte)
lemma char_2: "char_of (50 :: nat) = CHR ''2''" by (metis byte_2 char_of_byte)

lemma epoch_iso: "iso_date (gmtime 978307200) = ''2001-01-01T00:00:00''"
  by (simp add: sample_tm iso_date_def fixed_numeral char_0 char_1 char_2)

lemma epoch_ns: "fixed 9 1 = ''000000001''"
  by (simp add: fixed_numeral char_0 char_1)

end
