(* ===== verification/Net.thy ===== *)
theory Net
  imports Tls Cache Calendar
begin

text \<open>
  The transport of \<open>src/client/bridge.c\<close>: five request slots over libcurl. libcurl is not part
  of the repository: what its calls answer are arguments (\<open>setup\<close>: the first option that
  failed, \<open>status\<close>: the response code, the messages \<open>zc_net_poll\<close> reads), its callbacks are the
  definitions \<open>progress\<close>, \<open>receive\<close>, \<open>receive_header\<close>, \<open>tls_message\<close>, \<open>require_http2\<close> and
  \<open>upload_read\<close>. What \<open>zc_net_start\<close> asks of libcurl is kept as a \<open>request\<close>. Byte counts are
  natural numbers; the subtractions of \<open>size_t\<close> wrap as in C (\<open>size_minus\<close>).
\<close>

section \<open>Slots\<close>

definition size_minus :: "nat \<Rightarrow> nat \<Rightarrow> nat" where
  "size_minus a b = (if b \<le> a then a - b else 2 ^ 64 + a - b)"

datatype zc_failure = ZC_OK | ZC_NETWORK | ZC_SERVER_TRUST | ZC_CREDENTIALS | ZC_CLIENT_REJECTED
  | ZC_TLS | ZC_HTTP | ZC_CONFIG

text \<open>The result codes of libcurl the code tells apart.\<close>

datatype curlcode = CURLE_OK | CURLE_FAILED_INIT | CURLE_PEER_FAILED_VERIFICATION | CURLE_SSL_ISSUER_ERROR
  | CURLE_SSL_CERTPROBLEM | CURLE_SSL_CACERT_BADFILE | CURLE_SSL_CONNECT_ERROR | CURLE_PARTIAL_FILE
  | CURLE_OTHER nat

record zc_error =
  e_kind :: zc_failure
  e_curl :: curlcode
  e_verify :: int
  e_message :: string

definition no_error :: zc_error where
  "no_error = \<lparr>e_kind = ZC_OK, e_curl = CURLE_OK, e_verify = 0, e_message = ''''\<rparr>"

text \<open>\<open>snprintf\<close> into the 256 bytes of a message.\<close>

definition diagnostic :: "string \<Rightarrow> string" where
  "diagnostic text_of = take 255 text_of"

definition failure :: "zc_failure \<Rightarrow> string \<Rightarrow> zc_error \<Rightarrow> zc_error" where
  "failure kind text_of e = e\<lparr>e_kind := kind, e_message := diagnostic text_of\<rparr>"

text \<open>
  What a request asks of libcurl: the options that depend on the request, and \<open>r_options\<close>, those
  that do not (callbacks and their data are the definitions below). \<open>r_added\<close>: it was handed to
  the multi handle; if an option failed it never is, and the slot only keeps the error.
\<close>

datatype curlopt = PROXY string | NOPROXY string | PROTOCOLS_STR string | REDIR_PROTOCOLS_STR string
  | FOLLOWLOCATION nat | MAXREDIRS nat | HTTP_VERSION_2_PRIOR_KNOWLEDGE | SSL_VERIFYPEER nat | SSL_VERIFYHOST nat
  | SSLVERSION_TLSv1_3_ONLY | TLS13_CIPHERS string | SSL_OPTIONS nat | SSL_SESSIONID_CACHE nat | CAINFO_NULL
  | CAPATH_NULL | CA_CACHE_TIMEOUT nat | CAINFO_BLOB "char list" | SSLCERTTYPE string | SSLKEYTYPE string
  | SSLCERT_BLOB "char list" | SSLKEY_BLOB "char list" | NOSIGNAL nat | CONNECTTIMEOUT_MS nat
  | LOW_SPEED_LIMIT nat | NOPROGRESS nat | UPLOAD_BUFFERSIZE nat

record request =
  r_added :: bool
  r_options :: "curlopt list"
  r_url :: string
  r_timeout :: nat
  r_low_speed_time :: "nat option"
  r_body :: "char list option"
  r_headers :: "string list"
  r_upload :: "nat option"

record slot =
  sl_easy :: "request option"
  sl_body :: "char list option"
  sl_len :: nat
  sl_status :: int
  sl_done :: bool
  sl_stream :: bool
  sl_alert :: nat
  sl_last_rx :: int
  sl_error :: zc_error
  sl_extensions :: string
  sl_mime :: string
  sl_media :: bool
  sl_fd :: fd
  sl_extension_seen :: bool
  sl_expected :: nat
  sl_upload :: bool
  sl_sent :: nat
  sl_read_offset :: nat
  sl_upload_length :: nat

definition zero_slot :: slot where
  "zero_slot = \<lparr>sl_easy = None, sl_body = None, sl_len = 0, sl_status = 0, sl_done = False, sl_stream = False,
     sl_alert = 0, sl_last_rx = 0, sl_error = no_error, sl_extensions = '''', sl_mime = '''', sl_media = False,
     sl_fd = 0, sl_extension_seen = False, sl_expected = 0, sl_upload = False, sl_sent = 0, sl_read_offset = 0,
     sl_upload_length = 0\<rparr>"

record net =
  net_slots :: "slot list"
  net_origin :: string
  net_ca :: "char list"
  net_cert :: "char list"
  net_key :: "char list"

definition slot_of :: "net \<Rightarrow> int \<Rightarrow> slot" where
  "slot_of n i = net_slots n ! nat i"

definition set_slot :: "int \<Rightarrow> slot \<Rightarrow> net \<Rightarrow> net" where
  "set_slot i s n = n\<lparr>net_slots := (net_slots n)[nat i := s]\<rparr>"

definition clear_slot :: "int \<Rightarrow> net \<Rightarrow> net" where
  "clear_slot i n = set_slot i zero_slot n"

section \<open>Callbacks\<close>

text \<open>\<open>now\<close> and \<open>later\<close> are readings of the monotonic clock; \<open>True\<close> aborts the transfer.\<close>

definition progress :: "int \<Rightarrow> int \<Rightarrow> int \<Rightarrow> slot \<Rightarrow> bool \<times> slot" where
  "progress now later uploaded s =
     (if sl_upload s then
        (let s = (if uploaded \<ge> 0 \<and> uploaded \<noteq> int (sl_sent s)
                  then s\<lparr>sl_sent := nat uploaded, sl_last_rx := now\<rparr> else s)
         in (later - sl_last_rx s > 30000, s))
      else (sl_stream s \<and> later - sl_last_rx s > 45000, s))"

definition media_limit :: nat where "media_limit = 8 * 1024 * 1024"
definition media_error_limit :: nat where "media_error_limit = 8192"
definition body_limit :: "int \<Rightarrow> nat" where
  "body_limit i = (if i = 4 then 512 * 1024 else 64 * 1024 * 1024)"

definition append_body :: "int \<Rightarrow> bool \<Rightarrow> char list \<Rightarrow> slot \<Rightarrow> nat \<times> slot" where
  "append_body i alloc data s =
     (if length data > size_minus (body_limit i) (sl_len s) \<or> \<not> alloc then (0, s)
      else (length data, s\<lparr>sl_body := Some ((case sl_body s of None \<Rightarrow> [] | Some b \<Rightarrow> b) @ data),
        sl_len := sl_len s + length data\<rparr>))"

text \<open>
  \<open>receive\<close>: the count handled, the slot and the world after a chunk; \<open>fn\<close> is the stream
  callback, \<open>status\<close> the response code, \<open>alloc\<close> whether \<open>realloc\<close> succeeds.
\<close>

definition receive :: "int \<Rightarrow> int \<Rightarrow> (char list \<Rightarrow> bool) \<Rightarrow> bool \<Rightarrow> int \<Rightarrow> char list \<Rightarrow> slot \<Rightarrow> world \<Rightarrow>
    nat \<times> slot \<times> world" where
  "receive now status fn alloc i data s w =
     (let s = s\<lparr>sl_last_rx := now\<rparr> in
      if sl_media s \<and> status = 200 then
        (if length data > size_minus media_limit (sl_len s) then (0, s, w)
         else case write_all (sl_fd s) data w of (ok, w) \<Rightarrow>
           if \<not> ok then (0, s, w) else (length data, s\<lparr>sl_len := sl_len s + length data\<rparr>, w))
      else if sl_media s \<and> length data > size_minus media_error_limit (sl_len s) then (0, s, w)
      else if sl_stream s then
        (if status \<noteq> 200 then (length data, s, w) else (if fn data then length data else 0, s, w))
      else case append_body i alloc data s of (n, s) \<Rightarrow> (n, s, w))"

definition lower :: "char \<Rightarrow> char" where
  "lower c = (if 65 \<le> byte c \<and> byte c \<le> 90 then char_of (byte c + 32) else c)"

definition has_header :: "string \<Rightarrow> char list \<Rightarrow> bool" where
  "has_header name data \<longleftrightarrow> length name \<le> length data \<and> map lower (take (length name) data) = map lower name"

definition strip :: "(char \<Rightarrow> bool) \<Rightarrow> (char \<Rightarrow> bool) \<Rightarrow> char list \<Rightarrow> char list" where
  "strip before after data = rev (dropWhile after (rev (dropWhile before data)))"

definition blank :: "char \<Rightarrow> bool" where "blank c \<longleftrightarrow> c = CHR '' '' \<or> c = CHR 0x09"
definition line_end :: "char \<Rightarrow> bool" where "line_end c \<longleftrightarrow> c = CHR 0x0D \<or> c = CHR 0x0A \<or> c = CHR '' ''"

text \<open>What later readers see of bytes copied into a C string.\<close>

definition c_string :: "char list \<Rightarrow> string" where
  "c_string data = takeWhile (\<lambda>c. c \<noteq> CHR 0x00) data"

definition receive_header :: "char list \<Rightarrow> slot \<Rightarrow> nat \<times> slot" where
  "receive_header data s =
     (let s = (if has_prefix ''HTTP/'' data
               then s\<lparr>sl_extensions := '''', sl_mime := '''', sl_extension_seen := False\<rparr> else s);
          mime = strip blank line_end (drop 13 data);
          is_mime = has_header ''content-type:'' data
      in if is_mime \<and> length mime \<ge> 64 then (0, s)
         else let s = (if is_mime then s\<lparr>sl_mime := c_string mime\<rparr> else s);
                  name = ''zimbr-event-extensions:'';
                  value = strip blank (\<lambda>c. line_end c \<or> c = CHR 0x09) (drop (length name) data)
              in if \<not> has_header name data then (length data, s)
                 else if length value \<ge> 128 \<or> sl_extension_seen s then (0, s)
                 else (length data, s\<lparr>sl_extension_seen := True, sl_extensions := c_string value\<rparr>))"

definition tls_message :: "bool \<Rightarrow> bool \<Rightarrow> nat list \<Rightarrow> slot \<Rightarrow> slot" where
  "tls_message write_out is_alert buf s =
     (if \<not> write_out \<and> is_alert \<and> length buf = 2 then s\<lparr>sl_alert := buf ! 1\<rparr> else s)"

definition http2_message :: string where
  "http2_message = ''The relay must negotiate HTTP/2 (h2). Upgrade the relay, then Reconnect.''"

text \<open>\<open>protocol\<close> is the protocol selected by ALPN, empty if none is known; \<open>True\<close> lets the request go.\<close>

definition require_http2 :: "string \<Rightarrow> slot \<Rightarrow> bool \<times> slot" where
  "require_http2 protocol s = (if protocol = ''h2'' then (True, s)
     else (False, s\<lparr>sl_error := failure ZC_CONFIG http2_message (sl_error s)\<rparr>))"

text \<open>A chunk of an upload: \<open>Inl ()\<close> aborts.\<close>

function pread_again :: "fd \<Rightarrow> nat \<Rightarrow> nat \<Rightarrow> world \<Rightarrow> (errno + char list) \<times> world" where
  "pread_again fd n off w = (case sys_pread fd n off w of
     (Inl e, v) \<Rightarrow> if e = EINTR then pread_again fd n off v else (Inl e, v)
   | (Inr part, v) \<Rightarrow> (Inr part, v))"
  by pat_completeness auto
termination
  by (relation "measure (\<lambda>(fd, n, off, w). length (w_script w))") (auto dest: pread_script [OF sym])

declare pread_again.simps [simp del]

definition upload_read :: "nat \<Rightarrow> slot \<Rightarrow> world \<Rightarrow> (unit + char list) \<times> slot \<times> world" where
  "upload_read room s w =
     (let remaining = size_minus (sl_upload_length s) (sl_read_offset s);
          wanted = min (min room 65536) remaining
      in if wanted = 0 then (Inr [], s, w)
         else case pread_again (sl_fd s) wanted (sl_read_offset s) w of
           (Inl e, w) \<Rightarrow> (Inl (), s, w)
         | (Inr part, w) \<Rightarrow> if part = [] then (Inl (), s, w)
             else (Inr part, s\<lparr>sl_read_offset := sl_read_offset s + length part\<rparr>, w))"

section \<open>Starting\<close>

definition http_header :: string where "http_header = ''Content-Type: application/json''"

text \<open>
  \<open>setup\<close>: the code of the first option, or of \<open>curl_multi_add_handle\<close>, that failed;
  \<open>easy_init\<close>: whether a handle could be made. The length of a body is that of the list.
\<close>

definition timeout_of :: "slot \<Rightarrow> nat" where
  "timeout_of s = (if sl_stream s then 0 else if sl_media s then 30000 else 7000)"

definition ZIMBR_TLS13_CIPHER :: string where "ZIMBR_TLS13_CIPHER = ''TLS_AES_256_GCM_SHA384''"

definition request_options :: "net \<Rightarrow> int \<Rightarrow> curlopt list" where
  "request_options n stream =
     [PROXY '''', NOPROXY ''*'', PROTOCOLS_STR ''https'', REDIR_PROTOCOLS_STR ''https'', FOLLOWLOCATION 0, MAXREDIRS 0,
      HTTP_VERSION_2_PRIOR_KNOWLEDGE, SSL_VERIFYPEER 1, SSL_VERIFYHOST 2, SSLVERSION_TLSv1_3_ONLY,
      TLS13_CIPHERS ZIMBR_TLS13_CIPHER, SSL_OPTIONS 0, SSL_SESSIONID_CACHE 0, CAINFO_NULL, CAPATH_NULL,
      CA_CACHE_TIMEOUT 0, CAINFO_BLOB (net_ca n), SSLCERTTYPE ''PEM'', SSLKEYTYPE ''PEM'', SSLCERT_BLOB (net_cert n),
      SSLKEY_BLOB (net_key n), NOSIGNAL 1, CONNECTTIMEOUT_MS 3000] @
     (if stream = 1 then [] else [LOW_SPEED_LIMIT 1]) @ [NOPROGRESS 0]"

definition setup_message :: "string \<Rightarrow> string" where
  "setup_message reason = ''libcurl TLS/request setup failed: '' @ reason @
     ''. Install a supported libcurl/OpenSSL build, then Reconnect.''"

definition zc_net_start :: "bool \<Rightarrow> curlcode option \<Rightarrow> (curlcode \<Rightarrow> string) \<Rightarrow> int \<Rightarrow> int \<Rightarrow> string \<Rightarrow>
    char list option \<Rightarrow> net \<Rightarrow> bool \<times> net" where
  "zc_net_start easy_init setup strerror now stream path body n =
     (if stream < 0 \<or> stream > 4 \<or> sl_easy (slot_of n stream) \<noteq> None \<or> \<not> has_prefix ''/'' path \<or>
         has_prefix ''//'' path \<or> (case body of None \<Rightarrow> 0 | Some b \<Rightarrow> length b) > 2 ^ 63 - 1
      then (False, n)
      else if \<not> easy_init then (False, n)
      else let url = net_origin n @ path;
               s = (slot_of n stream)\<lparr>sl_stream := (stream = 1), sl_media := (stream = 2 \<or> stream = 3), sl_last_rx := now\<rparr>;
               req = \<lparr>r_added = (setup = None), r_options = request_options n stream, r_url = url, r_timeout = timeout_of s,
                 r_low_speed_time = (if sl_stream s then None else Some 7), r_body = body,
                 r_headers = [http_header], r_upload = None\<rparr>;
               s = s\<lparr>sl_easy := Some req\<rparr>
           in if length url \<ge> 8192 then (False, clear_slot stream n)
              else case setup of
                None \<Rightarrow> (True, set_slot stream s n)
              | Some code \<Rightarrow> (True, set_slot stream (s\<lparr>sl_done := True,
                  sl_error := failure ZC_CONFIG (setup_message (strerror code)) ((sl_error s)\<lparr>e_curl := code\<rparr>)\<rparr>) n))"

definition zc_net_start_file :: "bool \<Rightarrow> curlcode option \<Rightarrow> (curlcode \<Rightarrow> string) \<Rightarrow> int \<Rightarrow> int \<Rightarrow> string \<Rightarrow>
    fd \<Rightarrow> nat \<Rightarrow> net \<Rightarrow> bool \<times> net" where
  "zc_net_start_file easy_init setup strerror now lane path fd expected n =
     (if lane < 0 \<or> lane > 1 \<or> fd < 0 \<or> expected > 8 * 1024 * 1024 then (False, n)
      else case zc_net_start easy_init setup strerror now (lane + 2) path None n of (ok, n) \<Rightarrow>
        if \<not> ok then (False, n)
        else (True, set_slot (lane + 2) ((slot_of n (lane + 2))\<lparr>sl_fd := fd, sl_expected := expected\<rparr>) n))"

definition epoch_char :: "char \<Rightarrow> bool" where
  "epoch_char c \<longleftrightarrow> c \<in> set ''ABCDEFGHIJKLMNOPQRSTUVWXYZabcdefghijklmnopqrstuvwxyz0123456789-_''"

text \<open>\<open>options\<close>: whether the three headers and the options of the upload could all be set.\<close>

definition zc_net_upload :: "bool \<Rightarrow> curlcode option \<Rightarrow> (curlcode \<Rightarrow> string) \<Rightarrow> bool \<Rightarrow> int \<Rightarrow> string \<Rightarrow> string \<Rightarrow>
    fd \<Rightarrow> nat \<Rightarrow> net \<Rightarrow> bool \<times> net" where
  "zc_net_upload easy_init setup strerror options now path epoch fd len n =
     (if fd < 0 \<or> len > 100 * 1024 * 1024 \<or> length epoch \<noteq> 22 \<or> length (takeWhile epoch_char epoch) \<noteq> 22
      then (False, n)
      else case zc_net_start easy_init setup strerror now 4 path None n of (ok, n) \<Rightarrow>
        if \<not> ok then (False, n)
        else let s = slot_of n 4 in
          if sl_done s then (True, n)
          else if \<not> options then (False, clear_slot 4 n)
          else (True, set_slot 4 (s\<lparr>sl_upload := True, sl_fd := fd, sl_upload_length := len,
            sl_easy := map_option (\<lambda>req. req\<lparr>
              r_options := r_options req @ [UPLOAD_BUFFERSIZE 65536],
              r_headers := [''Content-Type: application/octet-stream'', ''Expect:'', ''Zimbr-Server-Epoch: '' @ epoch],
              r_upload := Some len, r_timeout := 15 * 60 * 1000, r_low_speed_time := Some 30\<rparr>) (sl_easy s)\<rparr>) n))"

section \<open>Completion\<close>

text \<open>
  A completion message: its slot, the response status, the verification result, the code, the
  declared content length (-1 if none) and what libcurl left in the error buffer, if anything.
\<close>

record completion =
  c_slot :: int
  c_status :: int
  c_verify :: int
  c_code :: curlcode
  c_length :: int
  c_buffer :: "string option"

definition rejection_alert :: "nat \<Rightarrow> bool" where
  "rejection_alert a \<longleftrightarrow> (42 \<le> a \<and> a \<le> 46) \<or> a = 48 \<or> a = 116"

definition failed_kind :: "curlcode \<Rightarrow> nat \<Rightarrow> zc_failure" where
  "failed_kind code alert =
     (if code = CURLE_PEER_FAILED_VERIFICATION \<or> code = CURLE_SSL_ISSUER_ERROR then ZC_SERVER_TRUST
      else if code = CURLE_SSL_CERTPROBLEM \<or> code = CURLE_SSL_CACERT_BADFILE then ZC_CREDENTIALS
      else if rejection_alert alert then ZC_CLIENT_REJECTED
      else if code = CURLE_SSL_CONNECT_ERROR \<or> alert \<noteq> 0 then ZC_TLS
      else ZC_NETWORK)"

definition http_message :: "int \<Rightarrow> string" where
  "http_message status = ''Relay returned HTTP '' @ decimal status @
     (if status < 400 then ''; redirects are disabled. Check relay_url, then Reconnect.'' else ''.'')"

definition transfer_failed :: "(curlcode \<Rightarrow> string) \<Rightarrow> curlcode \<Rightarrow> slot \<Rightarrow> zc_error \<Rightarrow> zc_error" where
  "transfer_failed strerror code s e =
     (let e = (if e_message e = '''' then e\<lparr>e_message := diagnostic (strerror code)\<rparr> else e)
      in if e_kind e = ZC_CONFIG then e\<lparr>e_message := diagnostic http2_message\<rparr>
         else e\<lparr>e_kind := failed_kind code (sl_alert s)\<rparr>)"

definition image_complete :: "int \<Rightarrow> slot \<Rightarrow> bool" where
  "image_complete len s \<longleftrightarrow> \<not> (len < 1 \<or> len \<noteq> int (sl_len s) \<or> (sl_expected s \<noteq> 0 \<and> sl_expected s \<noteq> sl_len s) \<or>
     (sl_mime s \<noteq> ''image/png'' \<and> sl_mime s \<noteq> ''image/jpeg''))"

definition stream_closed :: string where
  "stream_closed = ''Event stream closed. Reconnecting from the saved cursor.''"

definition completed :: "(curlcode \<Rightarrow> string) \<Rightarrow> completion \<Rightarrow> slot \<Rightarrow> slot" where
  "completed strerror m s =
     (let status = c_status m; code = c_code m;
          e = (sl_error s)\<lparr>e_message := (case c_buffer m of None \<Rightarrow> e_message (sl_error s) | Some b \<Rightarrow> diagnostic b),
            e_verify := c_verify m, e_curl := code\<rparr>;
          e = (if code \<noteq> CURLE_OK then transfer_failed strerror code s e
               else if status \<ge> 300 \<or> (sl_stream s \<and> status \<noteq> 200)
               then e\<lparr>e_kind := ZC_HTTP, e_message := diagnostic (http_message status)\<rparr>
               else e);
          e = (if code = CURLE_OK \<and> sl_stream s \<and> status = 200 then failure ZC_NETWORK stream_closed e else e);
          e = (if code = CURLE_OK \<and> sl_media s \<and> status = 200 \<and> \<not> image_complete (c_length m) s
               then (failure ZC_HTTP ''Invalid image response length or content type.'' e)\<lparr>e_curl := CURLE_PARTIAL_FILE\<rparr>
               else e)
      in s\<lparr>sl_status := status, sl_error := e, sl_done := True\<rparr>)"

definition zc_net_poll :: "(curlcode \<Rightarrow> string) \<Rightarrow> bool \<Rightarrow> completion list \<Rightarrow> net \<Rightarrow> bool \<times> net" where
  "zc_net_poll strerror perform msgs n =
     (if \<not> perform then (False, n)
      else (True, foldl (\<lambda>n m. set_slot (c_slot m) (completed strerror m (slot_of n (c_slot m))) n) n msgs))"

section \<open>Reading a slot\<close>

definition zc_net_done :: "int \<Rightarrow> net \<Rightarrow> bool" where
  "zc_net_done stream n = sl_done (slot_of n stream)"

text \<open>\<open>live\<close>: the response code libcurl reports for a transfer under way.\<close>

definition zc_net_status :: "int \<Rightarrow> int \<Rightarrow> net \<Rightarrow> int" where
  "zc_net_status live stream n = (let s = slot_of n stream in
     if sl_easy s \<noteq> None \<and> \<not> sl_done s then live else sl_status s)"

definition zc_net_error :: "int \<Rightarrow> net \<Rightarrow> zc_error" where
  "zc_net_error stream n = sl_error (slot_of n stream)"

definition zc_net_extensions :: "net \<Rightarrow> string" where
  "zc_net_extensions n = sl_extensions (slot_of n 1)"

definition zc_net_upload_progress :: "net \<Rightarrow> nat" where
  "zc_net_upload_progress n = sl_sent (slot_of n 4)"

definition zc_net_media_body :: "int \<Rightarrow> net \<Rightarrow> char list option \<times> nat" where
  "zc_net_media_body lane n = (let s = slot_of n (lane + 2) in
     (sl_body s, if sl_body s \<noteq> None then sl_len s else 0))"

definition zc_net_take_slot_body :: "int \<Rightarrow> net \<Rightarrow> char list option \<times> nat \<times> net" where
  "zc_net_take_slot_body i n = (let s = slot_of n i in
     (sl_body s, sl_len s, set_slot i (s\<lparr>sl_body := None, sl_len := 0\<rparr>) n))"

definition zc_net_take_body :: "net \<Rightarrow> char list option \<times> nat \<times> net" where
  "zc_net_take_body n = zc_net_take_slot_body 0 n"

definition zc_net_ack :: "int \<Rightarrow> net \<Rightarrow> net" where
  "zc_net_ack stream n = clear_slot stream n"

definition zc_net_cancel_stream :: "net \<Rightarrow> net" where
  "zc_net_cancel_stream n = clear_slot 1 n"

definition zc_net_cancel_request :: "net \<Rightarrow> net" where
  "zc_net_cancel_request n = clear_slot 0 n"

section \<open>Runs\<close>

text \<open>
  What may happen to the transport: the client's calls, libcurl's callbacks and messages, and
  anything to the rest of the world. The third component is the response code of each transfer;
  libcurl has the final code before it delivers a body, so a code changes only while none has
  been received. Callbacks and messages come only for a request that was added and is not done.
\<close>

definition in_flight :: "net \<Rightarrow> int \<Rightarrow> bool" where
  "in_flight n i \<longleftrightarrow> 0 \<le> i \<and> i \<le> 4 \<and> \<not> sl_done (slot_of n i) \<and>
     (case sl_easy (slot_of n i) of None \<Rightarrow> False | Some req \<Rightarrow> r_added req)"

inductive net_step :: "net \<times> world \<times> (int \<Rightarrow> int) \<Rightarrow> net \<times> world \<times> (int \<Rightarrow> int) \<Rightarrow> bool" where
  step_start: "zc_net_start easy_init setup strerror now stream path body n = (ok, m) \<Longrightarrow>
    net_step (n, w, resp) (m, w, resp)"
| step_file: "zc_net_start_file easy_init setup strerror now lane path fd expected n = (ok, m) \<Longrightarrow>
    net_step (n, w, resp) (m, w, resp)"
| step_upload: "zc_net_upload easy_init setup strerror options now path epoch fd len n = (ok, m) \<Longrightarrow>
    net_step (n, w, resp) (m, w, resp)"
| step_status: "in_flight n i \<Longrightarrow> sl_len (slot_of n i) = 0 \<Longrightarrow> net_step (n, w, resp) (n, w, resp(i := status))"
| step_header: "in_flight n i \<Longrightarrow> receive_header data (slot_of n i) = (k, s) \<Longrightarrow>
    net_step (n, w, resp) (set_slot i s n, w, resp)"
| step_receive: "in_flight n i \<Longrightarrow> receive now (resp i) fn alloc i data (slot_of n i) w = (k, s, v) \<Longrightarrow>
    net_step (n, w, resp) (set_slot i s n, v, resp)"
| step_progress: "in_flight n i \<Longrightarrow> progress now later up (slot_of n i) = (stop, s) \<Longrightarrow>
    net_step (n, w, resp) (set_slot i s n, w, resp)"
| step_alert: "in_flight n i \<Longrightarrow> net_step (n, w, resp) (set_slot i (tls_message out alert buf (slot_of n i)) n, w, resp)"
| step_http2: "in_flight n i \<Longrightarrow> require_http2 protocol (slot_of n i) = (go, s) \<Longrightarrow>
    net_step (n, w, resp) (set_slot i s n, w, resp)"
| step_read: "in_flight n i \<Longrightarrow> upload_read room (slot_of n i) w = (part, s, v) \<Longrightarrow>
    net_step (n, w, resp) (set_slot i s n, v, resp)"
| step_poll: "\<forall>m \<in> set msgs. in_flight n (c_slot m) \<Longrightarrow> zc_net_poll strerror perform msgs n = (ok, m) \<Longrightarrow>
    net_step (n, w, resp) (m, w, resp)"
| step_take: "0 \<le> i \<Longrightarrow> i \<le> 4 \<Longrightarrow> zc_net_take_slot_body i n = (body, len, m) \<Longrightarrow>
    net_step (n, w, resp) (m, w, resp)"
| step_ack: "0 \<le> i \<Longrightarrow> i \<le> 4 \<Longrightarrow> net_step (n, w, resp) (zc_net_ack i n, w, resp)"
| step_world: "net_step (n, w, resp) (n, v, resp)"

definition fresh_net :: "string \<Rightarrow> char list \<Rightarrow> char list \<Rightarrow> char list \<Rightarrow> net" where
  "fresh_net origin ca cert key = \<lparr>net_slots = replicate 5 zero_slot, net_origin = origin, net_ca = ca, net_cert = cert,
     net_key = key\<rparr>"

inductive net_reach :: "string \<Rightarrow> net \<times> world \<times> (int \<Rightarrow> int) \<Rightarrow> bool" for origin where
  reach_new: "net_reach origin (fresh_net origin ca cert key, w, resp)"
| reach_step: "net_reach origin x \<Longrightarrow> net_step x y \<Longrightarrow> net_reach origin y"

section \<open>What every slot keeps\<close>

definition body_bytes :: "slot \<Rightarrow> char list" where
  "body_bytes s = (case sl_body s of None \<Rightarrow> [] | Some b \<Rightarrow> b)"

text \<open>The authority of a request is the configured one: the path starts with a single slash.\<close>

definition request_ok :: "string \<Rightarrow> request \<Rightarrow> bool" where
  "request_ok origin req \<longleftrightarrow> length (r_url req) < 8192 \<and>
     (\<exists>path. r_url req = origin @ path \<and> has_prefix ''/'' path \<and> \<not> has_prefix ''//'' path)"

definition buffers_ok :: "slot \<Rightarrow> bool" where
  "buffers_ok s \<longleftrightarrow> length (sl_mime s) < 64 \<and> length (sl_extensions s) < 128 \<and> length (e_message (sl_error s)) < 256"

definition body_ok :: "int \<Rightarrow> int \<Rightarrow> slot \<Rightarrow> bool" where
  "body_ok status i s \<longleftrightarrow>
     (if sl_media s \<and> status = 200 then body_bytes s = [] \<and> sl_len s \<le> media_limit
      else sl_len s = length (body_bytes s) \<and> sl_len s \<le> body_limit i \<and> (sl_media s \<longrightarrow> sl_len s \<le> media_error_limit))"

definition roles_ok :: "int \<Rightarrow> slot \<Rightarrow> bool" where
  "roles_ok i s \<longleftrightarrow> (sl_stream s \<longrightarrow> i = 1) \<and> (sl_media s \<longrightarrow> i = 2 \<or> i = 3) \<and> (sl_upload s \<longrightarrow> i = 4) \<and>
     (sl_stream s \<longrightarrow> sl_len s = 0) \<and>
     (sl_easy s \<noteq> None \<longrightarrow> sl_stream s = (i = 1) \<and> sl_media s = (i = 2 \<or> i = 3))"

definition upload_ok :: "slot \<Rightarrow> bool" where
  "upload_ok s \<longleftrightarrow> sl_read_offset s \<le> sl_upload_length s \<and> sl_upload_length s \<le> 100 * 1024 * 1024"

definition slot_ok :: "string \<Rightarrow> int \<Rightarrow> int \<Rightarrow> slot \<Rightarrow> bool" where
  "slot_ok origin status i s \<longleftrightarrow> buffers_ok s \<and> body_ok status i s \<and> roles_ok i s \<and> upload_ok s \<and>
     (case sl_easy s of None \<Rightarrow> s = zero_slot
      | Some req \<Rightarrow> request_ok origin req \<and> (\<not> r_added req \<longrightarrow> sl_done s \<and> e_kind (sl_error s) = ZC_CONFIG))"

lemmas slot_ok_parts = buffers_ok_def body_ok_def roles_ok_def upload_ok_def

definition net_ok :: "string \<Rightarrow> (int \<Rightarrow> int) \<Rightarrow> net \<Rightarrow> bool" where
  "net_ok origin resp n \<longleftrightarrow> net_origin n = origin \<and> length (net_slots n) = 5 \<and>
     (\<forall>i. 0 \<le> i \<and> i \<le> 4 \<longrightarrow> slot_ok origin (resp i) i (slot_of n i))"

lemma slot_of_set: "0 \<le> i \<Longrightarrow> i \<le> 4 \<Longrightarrow> 0 \<le> j \<Longrightarrow> j \<le> 4 \<Longrightarrow> length (net_slots n) = 5 \<Longrightarrow>
  slot_of (set_slot i s n) j = (if i = j then s else slot_of n j)"
  by (auto simp: slot_of_def set_slot_def nth_list_update)

lemma set_slot_fields [simp]: "net_origin (set_slot i s n) = net_origin n"
  "length (net_slots (set_slot i s n)) = length (net_slots n)"
  by (simp_all add: set_slot_def)

lemma net_ok_set: "net_ok origin resp n \<Longrightarrow> (0 \<le> i \<Longrightarrow> i \<le> 4 \<Longrightarrow> slot_ok origin (resp i) i s) \<Longrightarrow> 0 \<le> i \<Longrightarrow> i \<le> 4 \<Longrightarrow>
  net_ok origin resp (set_slot i s n)"
  by (auto simp: net_ok_def slot_of_set)

lemma zero_slot_ok: "slot_ok origin status i zero_slot"
  by (simp add: slot_ok_def slot_ok_parts zero_slot_def no_error_def body_bytes_def media_limit_def)

lemma fresh_net_ok: "net_ok origin resp (fresh_net origin ca cert key)"
  by (auto simp: net_ok_def fresh_net_def slot_of_def zero_slot_ok nth_Cons' split: if_splits)

section \<open>Every callback and call keeps it\<close>

lemma diagnostic_length [simp]: "length (diagnostic t) < 256"
  by (simp add: diagnostic_def)

lemma c_string_length: "length (c_string d) \<le> length d"
  by (simp add: c_string_def length_takeWhile_le)

lemma failure_fields [simp]: "e_kind (failure k t e) = k" "length (e_message (failure k t e)) < 256"
  "e_curl (failure k t e) = e_curl e" "e_verify (failure k t e) = e_verify e"
  by (simp_all add: failure_def)

lemma size_minus_le: "b \<le> a \<Longrightarrow> size_minus a b = a - b"
  by (simp add: size_minus_def)

lemma append_body_effect:
  assumes "append_body i alloc data s = (k, t)" and "sl_len s \<le> body_limit i"
    and "sl_len s = length (body_bytes s)"
  shows "(k = 0 \<and> t = s) \<or> (k = length data \<and> t = s\<lparr>sl_body := Some (body_bytes s @ data), sl_len := sl_len s + length data\<rparr> \<and>
    sl_len t \<le> body_limit i)"
  using assms by (auto simp: append_body_def body_bytes_def size_minus_le split: if_splits)


lemma slot_okD:
  assumes "slot_ok origin status i s"
  shows "buffers_ok s" "body_ok status i s" "roles_ok i s" "upload_ok s"
  using assms by (simp_all add: slot_ok_def)

lemma slot_ok_change:
  assumes "slot_ok origin status i s" and "sl_easy s = Some req" and "r_added req" and "sl_easy t = sl_easy s"
    and "buffers_ok t" and "body_ok status i t" and "roles_ok i t" and "upload_ok t"
  shows "slot_ok origin status i t"
  using assms by (simp add: slot_ok_def)

text \<open>The fields the callbacks other than \<open>receive\<close> and \<open>upload_read\<close> leave alone.\<close>

definition same_core :: "slot \<Rightarrow> slot \<Rightarrow> bool" where
  "same_core s t \<longleftrightarrow> sl_easy t = sl_easy s \<and> sl_body t = sl_body s \<and> sl_len t = sl_len s \<and> sl_stream t = sl_stream s \<and>
     sl_media t = sl_media s \<and> sl_upload t = sl_upload s \<and> sl_read_offset t = sl_read_offset s \<and>
     sl_upload_length t = sl_upload_length s"

lemma same_core_bytes: "same_core s t \<Longrightarrow> body_bytes t = body_bytes s"
  by (simp add: same_core_def body_bytes_def)

lemma slot_ok_core:
  assumes "slot_ok origin status i s" and "sl_easy s = Some req" and "r_added req" and "same_core s t" and "buffers_ok t"
  shows "slot_ok origin status i t"
proof (rule slot_ok_change [OF assms(1-3)])
  have "body_ok status i t = body_ok status i s" "roles_ok i t = roles_ok i s" "upload_ok t = upload_ok s"
    using assms(4) same_core_bytes [OF assms(4)]
    by (simp_all add: body_ok_def roles_ok_def upload_ok_def same_core_def)
  then show "body_ok status i t" "roles_ok i t" "upload_ok t" using slot_okD(2-4) [OF assms(1)] by simp_all
qed (use assms in \<open>simp_all add: same_core_def\<close>)

lemma receive_ok:
  assumes "receive now status fn alloc i data s w = (k, t, v)" and "slot_ok origin status i s" and "sl_easy s = Some req" and "r_added req"
  shows "slot_ok origin status i t"
proof -
  define s1 where "s1 = s\<lparr>sl_last_rx := now\<rparr>"
  have ok1: "slot_ok origin status i s1" and e1: "sl_easy s1 = Some req"
    using slot_ok_core [OF assms(2-4)] assms(3) slot_okD(1) [OF assms(2)] unfolding s1_def
    by (auto simp: same_core_def buffers_ok_def)
  note body = slot_okD(2) [OF ok1]
  have same: "t = s1 \<Longrightarrow> ?thesis" using ok1 by simp
  have put: "slot_ok origin status i (s1\<lparr>sl_body := b, sl_len := len\<rparr>)"
    if "body_ok status i (s1\<lparr>sl_body := b, sl_len := len\<rparr>)" "\<not> sl_stream s1" for b len
    by (rule slot_ok_change [OF ok1 e1 assms(4)])
      (use that slot_okD [OF ok1] in \<open>auto simp: buffers_ok_def roles_ok_def upload_ok_def\<close>)
  note def = assms(1) [unfolded receive_def Let_def, folded s1_def]
  show ?thesis
  proof (cases "sl_media s1 \<and> status = 200")
    case True
    have st: "\<not> sl_stream s1" using slot_okD(3) [OF ok1] True by (auto simp: roles_ok_def)
    show ?thesis
    proof (cases "t = s1")
      case False
      then have "t = s1\<lparr>sl_len := sl_len s1 + length data\<rparr>" "length data \<le> size_minus media_limit (sl_len s1)"
        using def True by (auto split: if_splits prod.splits)
      moreover have "sl_len s1 \<le> media_limit" using body True by (simp add: body_ok_def)
      ultimately have t: "t = s1\<lparr>sl_body := sl_body s1, sl_len := sl_len s1 + length data\<rparr>"
        and len: "sl_len s1 + length data \<le> media_limit" by (simp_all add: size_minus_le)
      have "body_ok status i t" using body True len unfolding t by (simp add: body_ok_def body_bytes_def)
      then show ?thesis using put [where b = "sl_body s1"] st unfolding t by blast
    qed (rule same)
  next
    case False
    then have bl: "sl_len s1 = length (body_bytes s1)" "sl_len s1 \<le> body_limit i"
      "sl_media s1 \<Longrightarrow> sl_len s1 \<le> media_error_limit" using body by (auto simp: body_ok_def)
    show ?thesis
    proof (cases "t = s1")
      case changed: False
      then have m: "\<not> (sl_media s1 \<and> length data > size_minus media_error_limit (sl_len s1))" "\<not> sl_stream s1"
        and a: "append_body i alloc data s1 = (k, t)"
        using def False by (auto split: if_splits prod.splits)
      from append_body_effect [OF a bl(2,1)] changed have
        t: "t = s1\<lparr>sl_body := Some (body_bytes s1 @ data), sl_len := sl_len s1 + length data\<rparr>" "sl_len t \<le> body_limit i"
        by auto
      have "body_ok status i t"
        using t bl m False by (auto simp: body_ok_def body_bytes_def size_minus_le split: option.splits)
      then show ?thesis using put m(2) t(1) by blast
    qed (rule same)
  qed
qed


lemma receive_header_fields:
  assumes "receive_header data s = (k, t)" and "buffers_ok s"
  shows "same_core s t \<and> buffers_ok t"
proof -
  have cs: "length d < n \<Longrightarrow> length (c_string d) < n" for d n using c_string_length [of d] by simp
  define s1 where "s1 = (if has_prefix ''HTTP/'' data
               then s\<lparr>sl_extensions := '''', sl_mime := '''', sl_extension_seen := False\<rparr> else s)"
  have 1: "same_core s s1 \<and> buffers_ok s1" using assms(2) by (simp add: s1_def same_core_def buffers_ok_def)
  define mime where "mime = strip blank line_end (drop 13 data)"
  define s2 where "s2 = (if has_header ''content-type:'' data then s1\<lparr>sl_mime := c_string mime\<rparr> else s1)"
  have 2: "same_core s s2 \<and> buffers_ok s2" if "\<not> (has_header ''content-type:'' data \<and> length mime \<ge> 64)"
    using 1 that cs [of mime 64] by (auto simp: s2_def same_core_def buffers_ok_def)
  note def = assms(1) [unfolded receive_header_def Let_def, folded s1_def mime_def, folded s2_def]
  show ?thesis
  proof (cases "has_header ''content-type:'' data \<and> length mime \<ge> 64")
    case True
    then show ?thesis using def 1 assms(2) by (auto simp: same_core_def)
  next
    case False
    define token where "token = strip blank (\<lambda>c. line_end c \<or> c = CHR 0x09) (drop (length ''zimbr-event-extensions:'') data)"
    have "t = s2 \<or> length token < 128 \<and> t = s2\<lparr>sl_extension_seen := True, sl_extensions := c_string token\<rparr> \<or> t = s"
      using def False unfolding token_def by (auto simp del: length_0_conv list.size split: if_splits)
    then show ?thesis using 2 [OF False] cs [of token 128] assms(2) by (auto simp: same_core_def buffers_ok_def)
  qed
qed

lemma progress_fields: "progress now later up s = (stop, t) \<Longrightarrow> buffers_ok s \<Longrightarrow> same_core s t \<and> buffers_ok t"
  by (auto simp: progress_def same_core_def buffers_ok_def Let_def split: if_splits)

lemma tls_message_fields: "buffers_ok s \<Longrightarrow> same_core s (tls_message out alert buf s) \<and> buffers_ok (tls_message out alert buf s)"
  by (simp add: tls_message_def same_core_def buffers_ok_def)

lemma require_http2_fields: "require_http2 protocol s = (go, t) \<Longrightarrow> buffers_ok s \<Longrightarrow> same_core s t \<and> buffers_ok t"
  by (auto simp: require_http2_def same_core_def buffers_ok_def split: if_splits)

lemma transfer_failed_message: "length (e_message e) < 256 \<Longrightarrow> length (e_message (transfer_failed strerror code s e)) < 256"
  by (simp add: transfer_failed_def Let_def)

lemma completed_fields:
  assumes "buffers_ok s"
  shows "same_core s (completed strerror m s) \<and> buffers_ok (completed strerror m s)"
proof -
  define e0 where "e0 = (sl_error s)\<lparr>e_message := (case c_buffer m of None \<Rightarrow> e_message (sl_error s) | Some b \<Rightarrow> diagnostic b),
            e_verify := c_verify m, e_curl := c_code m\<rparr>"
  have e0: "length (e_message e0) < 256" using assms by (auto simp: e0_def buffers_ok_def split: option.splits)
  have "length (e_message (sl_error (completed strerror m s))) < 256"
    using e0 transfer_failed_message [OF e0] unfolding completed_def Let_def e0_def [symmetric] by simp
  then show ?thesis using assms unfolding completed_def Let_def by (simp add: same_core_def buffers_ok_def)
qed

lemma pread_again_ok:
  "pread_again fd n off w = (r, v) \<Longrightarrow> (\<exists>u. quiet w u \<and> sys_pread fd n off u = (r, v)) \<and>
     (\<forall>e. r = Inl e \<longrightarrow> e \<noteq> EINTR)"
proof (induction fd n off w arbitrary: r v rule: pread_again.induct)
  case (1 fd n off w)
  obtain x u where x: "sys_pread fd n off w = (x, u)" by fastforce
  show ?case
  proof (cases "x = Inl EINTR")
    case True
    then have "pread_again fd n off u = (r, v)" using "1.prems" x by (simp add: pread_again.simps [of fd n off w])
    from "1.IH" [OF x [symmetric] True refl this] show ?thesis
      using pread_errD [of fd n off w EINTR u] x True quiet_trans by blast
  next
    case False
    then have "r = x" "v = u" using "1.prems" x
      by (auto simp: pread_again.simps [of fd n off w] split: sum.splits if_splits)
    then show ?thesis using x False quiet_refl by blast
  qed
qed

lemma pread_again_part:
  assumes "pread_again fd n off w = (Inr part, v)"
  shows "quiet w v \<and> (\<exists>i bs. fd_ino w fd = Some i \<and> file_bytes w i = Some bs \<and> part = take (length part) (drop off bs) \<and>
    length part \<le> n \<and> (part = [] \<longrightarrow> n = 0 \<or> length bs \<le> off))"
proof -
  from pread_again_ok [OF assms] obtain u where u: "quiet w u" "sys_pread fd n off u = (Inr part, v)" by blast
  from pread_okD [OF u(2)] u(1) show ?thesis
    using quiet_trans [OF u(1)] quiet_lookups(2,6) [OF u(1)] by (auto simp: file_bytes_def)
qed

lemma upload_read_ok:
  assumes "upload_read room s w = (part, t, v)" and "slot_ok origin status i s" and "sl_easy s = Some req" and "r_added req"
  shows "slot_ok origin status i t"
proof (cases "t = s")
  case False
  define wanted where "wanted = min (min room 65536) (size_minus (sl_upload_length s) (sl_read_offset s))"
  from assms(1) False obtain got where g: "pread_again (sl_fd s) wanted (sl_read_offset s) w = (Inr got, v)"
    and t: "t = s\<lparr>sl_read_offset := sl_read_offset s + length got\<rparr>"
    unfolding upload_read_def Let_def wanted_def [symmetric] by (auto split: if_splits prod.splits sum.splits)
  note up = slot_okD(4) [OF assms(2)]
  have "length got \<le> sl_upload_length s - sl_read_offset s"
    using pread_again_part [OF g] up by (auto simp: wanted_def upload_ok_def size_minus_le)
  with up have "upload_ok t" unfolding t upload_ok_def by (simp split: if_splits) linarith
  then show ?thesis
    by (intro slot_ok_change [OF assms(2-4)])
      (use slot_okD [OF assms(2)] t in \<open>auto simp: buffers_ok_def body_ok_def body_bytes_def roles_ok_def\<close>)
qed (use assms(2) in simp)

section \<open>Starting a request\<close>

text \<open>
  \<open>started opts origin now stream path body setup strerror s\<close>: the slot as \<open>zc_net_start\<close> leaves it.
\<close>

definition started :: "curlopt list \<Rightarrow> string \<Rightarrow> int \<Rightarrow> int \<Rightarrow> string \<Rightarrow> char list option \<Rightarrow> curlcode option \<Rightarrow> (curlcode \<Rightarrow> string) \<Rightarrow> slot \<Rightarrow> bool" where
  "started opts origin now stream path body setup strerror s \<longleftrightarrow>
     (\<exists>req. sl_easy s = Some req \<and> r_options req = opts \<and> r_url req = origin @ path \<and> r_body req = body \<and> r_added req = (setup = None) \<and>
        r_timeout req = (if stream = 1 then 0 else if stream = 2 \<or> stream = 3 then 30000 else 7000) \<and> request_ok origin req) \<and>
     sl_stream s = (stream = 1) \<and> sl_media s = (stream = 2 \<or> stream = 3) \<and> \<not> sl_upload s \<and> sl_last_rx s = now \<and>
     sl_len s = 0 \<and> sl_body s = None \<and> sl_mime s = '''' \<and> sl_extensions s = '''' \<and> sl_alert s = 0 \<and> sl_expected s = 0 \<and>
     sl_read_offset s = 0 \<and> sl_upload_length s = 0 \<and> sl_sent s = 0 \<and> sl_done s = (setup \<noteq> None) \<and>
     sl_error s = (case setup of None \<Rightarrow> no_error
       | Some code \<Rightarrow> failure ZC_CONFIG (setup_message (strerror code)) (no_error\<lparr>e_curl := code\<rparr>))"

lemma net_ok_slot: "net_ok origin resp n \<Longrightarrow> 0 \<le> i \<Longrightarrow> i \<le> 4 \<Longrightarrow> slot_ok origin (resp i) i (slot_of n i)"
  by (simp add: net_ok_def)

lemma slot_ok_free: "slot_ok origin status i s \<Longrightarrow> sl_easy s = None \<Longrightarrow> s = zero_slot"
  by (simp add: slot_ok_def)

lemma set_slot_same: "set_slot i (slot_of n i) n = n"
  by (simp add: set_slot_def slot_of_def)

lemma clear_free:
  assumes "net_ok origin resp n" and "0 \<le> i" and "i \<le> 4" and "sl_easy (slot_of n i) = None"
  shows "clear_slot i n = n"
proof -
  have "slot_of n i = zero_slot" using net_ok_slot [OF assms(1-3)] assms(4) slot_ok_free by blast
  then show ?thesis by (metis clear_slot_def set_slot_same)
qed

lemma set_slot_twice [simp]: "set_slot i t (set_slot i s n) = set_slot i t n"
  by (simp add: set_slot_def)

lemma zc_net_start_effect:
  assumes "zc_net_start easy_init setup strerror now stream path body n = (ok, m)" and "net_ok origin resp n"
  shows "if ok then 0 \<le> stream \<and> stream \<le> 4 \<and> sl_easy (slot_of n stream) = None \<and>
      (\<exists>s. m = set_slot stream s n \<and> started (request_options n stream) origin now stream path body setup strerror s)
    else m = n"
proof (cases "stream < 0 \<or> stream > 4 \<or> sl_easy (slot_of n stream) \<noteq> None \<or> \<not> has_prefix ''/'' path \<or>
         has_prefix ''//'' path \<or> (case body of None \<Rightarrow> 0 | Some b \<Rightarrow> length b) > 2 ^ 63 - 1")
  case True
  then have "zc_net_start easy_init setup strerror now stream path body n = (False, n)"
    unfolding zc_net_start_def by (simp only: if_True)
  with assms(1) show ?thesis by simp
next
  case False
  note run = assms(1) [unfolded zc_net_start_def Let_def, simplified if_not_P [OF False] False if_False]
  from False have bounds: "0 \<le> stream" "stream \<le> 4" and free: "sl_easy (slot_of n stream) = None"
    and p: "has_prefix ''/'' path" "\<not> has_prefix ''//'' path" by auto
  have zero: "slot_of n stream = zero_slot" using net_ok_slot [OF assms(2) bounds] free slot_ok_free by blast
  have origin: "net_origin n = origin" using assms(2) by (simp add: net_ok_def)
  note clear = clear_free [OF assms(2) bounds free]
  show ?thesis
  proof (cases "\<not> easy_init \<or> length (net_origin n @ path) \<ge> 8192")
    case True
    then show ?thesis using run clear by (auto split: if_splits)
  next
    case ready: False
    then have len: "length (origin @ path) < 8192" using origin by simp
    show ?thesis
      using run ready bounds free zero len p origin
      by (auto simp: started_def request_ok_def zero_slot_def timeout_of_def split: option.splits)
  qed
qed

lemma started_ok: "started opts origin now i path body setup strerror s \<Longrightarrow> slot_ok origin status i s"
  by (auto simp: started_def slot_ok_def slot_ok_parts body_bytes_def no_error_def media_limit_def split: option.splits)

lemma zc_net_start_ok:
  assumes "zc_net_start easy_init setup strerror now stream path body n = (ok, m)" and "net_ok origin resp n"
  shows "net_ok origin resp m"
  using zc_net_start_effect [OF assms] assms(2) by (auto split: if_splits intro!: net_ok_set started_ok)

text \<open>A download slot: what \<open>zc_net_start\<close> leaves, with the descriptor and the expected size.\<close>

lemma zc_net_start_file_effect:
  assumes "zc_net_start_file easy_init setup strerror now lane path fd expected n = (ok, m)" and "net_ok origin resp n"
  shows "if ok then (lane = 0 \<or> lane = 1) \<and> 0 \<le> fd \<and> expected \<le> 8 * 1024 * 1024 \<and>
      sl_easy (slot_of n (lane + 2)) = None \<and>
      (\<exists>s. m = set_slot (lane + 2) (s\<lparr>sl_fd := fd, sl_expected := expected\<rparr>) n \<and>
        started (request_options n (lane + 2)) origin now (lane + 2) path None setup strerror s)
    else m = n"
proof (cases "lane < 0 \<or> lane > 1 \<or> fd < 0 \<or> expected > 8 * 1024 * 1024")
  case True
  then show ?thesis using assms(1) by (auto simp: zc_net_start_file_def)
next
  case False
  obtain b n1 where st: "zc_net_start easy_init setup strerror now (lane + 2) path None n = (b, n1)" by fastforce
  note eff = zc_net_start_effect [OF st assms(2)]
  have five: "length (net_slots n) = 5" using assms(2) by (simp add: net_ok_def)
  show ?thesis
  proof (cases b)
    case True
    with eff obtain s where s: "n1 = set_slot (lane + 2) s n" "started (request_options n (lane + 2)) origin now (lane + 2) path None setup strerror s"
      "sl_easy (slot_of n (lane + 2)) = None" by auto
    then have "slot_of n1 (lane + 2) = s" using False five by (simp add: slot_of_set)
    then have "ok" "m = set_slot (lane + 2) (s\<lparr>sl_fd := fd, sl_expected := expected\<rparr>) n"
      using assms(1) False st True s(1) by (auto simp: zc_net_start_file_def)
    then show ?thesis using False s by auto
  next
    case bad: False
    then have "\<not> ok" "m = n1" using assms(1) False st by (auto simp: zc_net_start_file_def)
    then show ?thesis using eff bad by simp
  qed
qed

lemma zc_net_start_file_ok:
  assumes "zc_net_start_file easy_init setup strerror now lane path fd expected n = (ok, m)" and "net_ok origin resp n"
  shows "net_ok origin resp m"
proof (cases ok)
  case True
  with zc_net_start_file_effect [OF assms] obtain s where
    s: "lane = 0 \<or> lane = 1" "m = set_slot (lane + 2) (s\<lparr>sl_fd := fd, sl_expected := expected\<rparr>) n"
      "started (request_options n (lane + 2)) origin now (lane + 2) path None setup strerror s" by auto
  have "slot_ok origin status (lane + 2) (s\<lparr>sl_fd := fd, sl_expected := expected\<rparr>)" for status
    using s(3) by (auto simp: started_def slot_ok_def slot_ok_parts body_bytes_def no_error_def media_limit_def split: option.splits)
  then show ?thesis using s(1,2) net_ok_set [OF assms(2)] by auto
qed (use zc_net_start_file_effect [OF assms] assms(2) in simp)

lemma zc_net_upload_effect:
  assumes "zc_net_upload easy_init setup strerror options now path epoch fd len n = (ok, m)" and "net_ok origin resp n"
  shows "if ok then 0 \<le> fd \<and> len \<le> 100 * 1024 * 1024 \<and> length epoch = 22 \<and> list_all epoch_char epoch \<and>
      sl_easy (slot_of n 4) = None \<and>
      (\<exists>s. started (request_options n 4) origin now 4 path None setup strerror s \<and>
        m = set_slot 4 (if setup \<noteq> None then s else s\<lparr>sl_upload := True, sl_fd := fd, sl_upload_length := len,
            sl_easy := map_option (\<lambda>req. req\<lparr>
              r_options := r_options req @ [UPLOAD_BUFFERSIZE 65536],
              r_headers := [''Content-Type: application/octet-stream'', ''Expect:'', ''Zimbr-Server-Epoch: '' @ epoch],
              r_upload := Some len, r_timeout := 15 * 60 * 1000, r_low_speed_time := Some 30\<rparr>) (sl_easy s)\<rparr>) n)
    else m = n"
proof (cases "fd < 0 \<or> len > 100 * 1024 * 1024 \<or> length epoch \<noteq> 22 \<or> length (takeWhile epoch_char epoch) \<noteq> 22")
  case True
  then show ?thesis using assms(1) by (auto simp: zc_net_upload_def)
next
  case False
  note run = assms(1) [unfolded zc_net_upload_def, simplified if_not_P [OF False]]
  obtain b n1 where st: "zc_net_start easy_init setup strerror now 4 path None n = (b, n1)" by fastforce
  note eff = zc_net_start_effect [OF st assms(2)]
  have five: "length (net_slots n) = 5" using assms(2) by (simp add: net_ok_def)
  have chars: "list_all epoch_char epoch"
  proof -
    have "takeWhile epoch_char epoch = epoch"
      using False takeWhile_eq_take [of epoch_char epoch] by (metis order_refl take_all)
    then show ?thesis by (metis takeWhile_eq_all_conv list_all_iff)
  qed
  show ?thesis
  proof (cases b)
    case True
    with eff obtain s where s: "n1 = set_slot 4 s n" "started (request_options n 4) origin now 4 path None setup strerror s"
      "sl_easy (slot_of n 4) = None" by auto
    have sl: "slot_of n1 4 = s" using s(1) five by (simp add: slot_of_set)
    have "sl_done s = (setup \<noteq> None)" using s(2) by (simp add: started_def)
    moreover have "clear_slot 4 n1 = n"
      using clear_free [OF assms(2) _ _ s(3)] s(1) by (simp add: clear_slot_def)
    ultimately show ?thesis
      using run st True s sl chars False by (auto simp: Let_def split: if_splits)
  next
    case bad: False
    then have "\<not> ok" "m = n1" using run st by (auto split: if_splits)
    then show ?thesis using eff bad by simp
  qed
qed

lemma zc_net_upload_ok:
  assumes "zc_net_upload easy_init setup strerror options now path epoch fd len n = (ok, m)" and "net_ok origin resp n"
  shows "net_ok origin resp m"
proof (cases ok)
  case True
  with zc_net_upload_effect [OF assms] obtain s where
    s: "len \<le> 100 * 1024 * 1024" "started (request_options n 4) origin now 4 path None setup strerror s"
      and m: "m = set_slot 4 (if setup \<noteq> None then s else s\<lparr>sl_upload := True, sl_fd := fd, sl_upload_length := len,
            sl_easy := map_option (\<lambda>req. req\<lparr>
              r_options := r_options req @ [UPLOAD_BUFFERSIZE 65536],
              r_headers := [''Content-Type: application/octet-stream'', ''Expect:'', ''Zimbr-Server-Epoch: '' @ epoch],
              r_upload := Some len, r_timeout := 15 * 60 * 1000, r_low_speed_time := Some 30\<rparr>) (sl_easy s)\<rparr>) n" by auto
  show ?thesis unfolding m
  proof (rule net_ok_set [OF assms(2)])
    show "slot_ok origin (resp 4) 4 (if setup \<noteq> None then s else s\<lparr>sl_upload := True, sl_fd := fd, sl_upload_length := len,
            sl_easy := map_option (\<lambda>req. req\<lparr>
              r_options := r_options req @ [UPLOAD_BUFFERSIZE 65536],
              r_headers := [''Content-Type: application/octet-stream'', ''Expect:'', ''Zimbr-Server-Epoch: '' @ epoch],
              r_upload := Some len, r_timeout := 15 * 60 * 1000, r_low_speed_time := Some 30\<rparr>) (sl_easy s)\<rparr>)"
    proof (cases "setup")
      case None
      then show ?thesis using s
        by (auto simp: started_def slot_ok_def slot_ok_parts body_bytes_def no_error_def request_ok_def body_limit_def)
    qed (use started_ok [OF s(2)] in simp)
  qed auto
qed (use zc_net_upload_effect [OF assms] assms(2) in simp)

section \<open>The invariant of the transport\<close>

definition pending :: "net \<Rightarrow> int \<Rightarrow> bool" where
  "pending n i \<longleftrightarrow> 0 \<le> i \<and> i \<le> 4 \<and> (\<exists>req. sl_easy (slot_of n i) = Some req \<and> r_added req)"

lemma active_pending: "in_flight n i \<Longrightarrow> pending n i"
  by (auto simp: in_flight_def pending_def split: option.splits)

lemma update_ok:
  assumes "net_ok origin resp n" and "pending n i"
    and "\<And>req. slot_ok origin (resp i) i (slot_of n i) \<Longrightarrow> sl_easy (slot_of n i) = Some req \<Longrightarrow> r_added req \<Longrightarrow>
      slot_ok origin (resp i) i s"
  shows "net_ok origin resp (set_slot i s n)"
proof -
  from assms(2) obtain req where r: "0 \<le> i" "i \<le> 4" "sl_easy (slot_of n i) = Some req" "r_added req"
    by (auto simp: pending_def)
  show ?thesis
    using net_ok_set [OF assms(1)] assms(3) [OF net_ok_slot [OF assms(1) r(1,2)] r(3,4)] r(1,2) by blast
qed

lemma core_update_ok:
  assumes "net_ok origin resp n" and "pending n i" and "buffers_ok (slot_of n i) \<Longrightarrow> same_core (slot_of n i) s \<and> buffers_ok s"
  shows "net_ok origin resp (set_slot i s n)"
  using assms(3) slot_okD(1) by (intro update_ok [OF assms(1,2)]) (blast intro: slot_ok_core)

lemma poll_ok:
  "net_ok origin resp n \<Longrightarrow> \<forall>c \<in> set msgs. pending n (c_slot c) \<Longrightarrow>
   net_ok origin resp (foldl (\<lambda>n m. set_slot (c_slot m) (completed strerror m (slot_of n (c_slot m))) n) n msgs)"
proof (induction msgs arbitrary: n)
  case (Cons c cs)
  let ?n = "set_slot (c_slot c) (completed strerror c (slot_of n (c_slot c))) n"
  have pc: "pending n (c_slot c)" using Cons.prems(2) by simp
  have ok: "net_ok origin resp ?n" by (rule core_update_ok [OF Cons.prems(1) pc completed_fields])
  have five: "length (net_slots n) = 5" using Cons.prems(1) by (simp add: net_ok_def)
  have "sl_easy (completed strerror c (slot_of n (c_slot c))) = sl_easy (slot_of n (c_slot c))"
    by (simp add: completed_def Let_def)
  then have "pending ?n i" if "pending n i" for i
    using that pc five by (auto simp: pending_def slot_of_set)
  then show ?case using Cons.IH [OF ok] Cons.prems(2) by simp
qed simp

lemma net_step_ok:
  "net_step x y \<Longrightarrow> net_ok origin (snd (snd x)) (fst x) \<Longrightarrow> net_ok origin (snd (snd y)) (fst y)"
proof (induction rule: net_step.induct)
  case step_start
  then show ?case using zc_net_start_ok by auto
next
  case step_file
  then show ?case using zc_net_start_file_ok by auto
next
  case step_upload
  then show ?case using zc_net_upload_ok by auto
next
  case (step_status n i w resp status)
  then have ok: "net_ok origin resp n" by simp
  note all = net_ok_slot [OF ok]
  have "slot_ok origin status i (slot_of n i)"
    using all [of i] step_status by (auto simp: slot_ok_def body_ok_def in_flight_def split: if_splits)
  then show ?case using ok all by (auto simp: net_ok_def)
next
  case step_header
  then show ?case using core_update_ok active_pending receive_header_fields by fastforce
next
  case step_receive
  then show ?case using update_ok active_pending receive_ok by fastforce
next
  case step_progress
  then show ?case using core_update_ok active_pending progress_fields by fastforce
next
  case step_alert
  then show ?case using core_update_ok active_pending tls_message_fields by fastforce
next
  case step_http2
  then show ?case using core_update_ok active_pending require_http2_fields by fastforce
next
  case step_read
  then show ?case using update_ok active_pending upload_read_ok by fastforce
next
  case (step_poll n msgs)
  then show ?case using poll_ok active_pending by (auto simp: zc_net_poll_def split: if_splits)
next
  case (step_take i n body len m w resp)
  then have ok: "slot_ok origin (resp i) i (slot_of n i)" using net_ok_slot by simp
  have "slot_ok origin (resp i) i ((slot_of n i)\<lparr>sl_body := None, sl_len := 0\<rparr>)"
    using ok by (auto simp: slot_ok_def slot_ok_parts body_bytes_def zero_slot_def media_limit_def split: option.splits)
  moreover have "m = set_slot i ((slot_of n i)\<lparr>sl_body := None, sl_len := 0\<rparr>) n"
    using step_take by (simp add: zc_net_take_slot_body_def Let_def)
  ultimately show ?case using net_ok_set step_take by simp
next
  case step_ack
  then show ?case using net_ok_set zero_slot_ok by (simp add: zc_net_ack_def clear_slot_def)
next
  case step_world
  then show ?case by simp
qed

lemma net_reach_ok: "net_reach origin x \<Longrightarrow> net_ok origin (snd (snd x)) (fst x)"
  by (induction rule: net_reach.induct) (auto simp: fresh_net_ok intro: net_step_ok)

section \<open>Properties\<close>

text \<open>The bytes a slot may accept from a response, and those it may keep in memory.\<close>

definition response_budget :: "int \<Rightarrow> nat" where
  "response_budget i = (if i = 0 then 64 * 1024 * 1024 else if i = 1 then 0 else if i = 4 then 512 * 1024
     else 8 * 1024 * 1024)"

definition stored_budget :: "int \<Rightarrow> nat" where
  "stored_budget i = (if i = 2 \<or> i = 3 then 8192 else response_budget i)"

lemma net_ok_bounds:
  assumes "net_ok origin resp n" and "0 \<le> i" and "i \<le> 4" and "sl_easy (slot_of n i) = Some req"
  shows "sl_len (slot_of n i) \<le> response_budget i \<and> length (body_bytes (slot_of n i)) \<le> stored_budget i"
proof -
  note ok = net_ok_slot [OF assms(1-3)]
  have i: "i = 0 \<or> i = 1 \<or> i = 2 \<or> i = 3 \<or> i = 4" using assms(2,3) by linarith
  have b: "body_ok (resp i) i (slot_of n i)" and r: "roles_ok i (slot_of n i)" using ok by (simp_all add: slot_ok_def)
  show ?thesis
  proof (cases "sl_media (slot_of n i)")
    case True
    then have "i = 2 \<or> i = 3" using r by (simp add: roles_ok_def)
    then show ?thesis using b True
      by (auto simp: body_ok_def response_budget_def stored_budget_def media_limit_def media_error_limit_def split: if_splits)
  next
    case False
    then have "i = 0 \<or> i = 1 \<or> i = 4" using r assms(4) i by (auto simp: roles_ok_def)
    then show ?thesis using b r assms(4) False
      by (auto simp: body_ok_def roles_ok_def response_budget_def stored_budget_def body_limit_def)
  qed
qed

text \<open>
  C1: Whatever the relay sends and however libcurl's callbacks interleave, in every reachable state
  a slot that holds a request holds one for the configured origin, with a path that does not start
  with two slashes; its media type stays below 64 bytes, its extension token below 128, its message
  below 256; what it has accepted of the response stays within the budget of its role (64 MiB of
  JSON, nothing kept of the event stream, 8 MiB of a file, 512 KiB of upload metadata), a download
  keeps at most 8192 bytes in memory, and an upload never reads past its length of at most 100 MiB.
\<close>

theorem net_slots_bounded:
  assumes "net_reach origin (n, w, resp)" and "0 \<le> i" and "i \<le> 4"
    and "sl_easy (slot_of n i) = Some req"
  shows "request_ok origin req \<and> length (sl_mime (slot_of n i)) < 64 \<and> length (sl_extensions (slot_of n i)) < 128 \<and>
    length (e_message (sl_error (slot_of n i))) < 256 \<and>
    sl_len (slot_of n i) \<le> response_budget i \<and> length (body_bytes (slot_of n i)) \<le> stored_budget i \<and>
    sl_read_offset (slot_of n i) \<le> sl_upload_length (slot_of n i) \<and>
    sl_upload_length (slot_of n i) \<le> 100 * 1024 * 1024"
proof -
  have ok: "net_ok origin resp n" using net_reach_ok [OF assms(1)] by simp
  show ?thesis using net_ok_slot [OF ok assms(2,3)] net_ok_bounds [OF ok assms(2-4)] assms(4)
    by (auto simp: slot_ok_def buffers_ok_def upload_ok_def)
qed

definition sample_net :: net where
  "sample_net = snd (zc_net_start True None (\<lambda>_. '''') 7 0 ''/v1/state'' None (fresh_net ''https://relay'' ''A'' ''C'' ''K''))"

lemma sample_net_run: "zc_net_start True None (\<lambda>_. '''') 7 0 ''/v1/state'' None (fresh_net ''https://relay'' ''A'' ''C'' ''K'') = (True, sample_net)"
  by (simp add: sample_net_def zc_net_start_def fresh_net_def slot_of_def set_slot_def zero_slot_def has_prefix_def Let_def)

lemma sample_net_slot: "sl_easy (slot_of sample_net 0) = Some \<lparr>r_added = True, r_options = request_options (fresh_net ''https://relay'' ''A'' ''C'' ''K'') 0,
   r_url = ''https://relay/v1/state'',
   r_timeout = 7000, r_low_speed_time = Some 7, r_body = None, r_headers = [http_header], r_upload = None\<rparr>"
  by (simp add: sample_net_def zc_net_start_def fresh_net_def slot_of_def set_slot_def zero_slot_def has_prefix_def
    Let_def timeout_of_def)

lemma sample_net_reach: "net_reach ''https://relay'' (sample_net, w, resp)"
  by (rule reach_step [OF reach_new step_start [OF sample_net_run]])

theorem net_slots_bounded_witness:
  "\<exists>req. sl_easy (slot_of sample_net 0) = Some req \<and> request_ok ''https://relay'' req \<and>
     sl_len (slot_of sample_net 0) \<le> response_budget 0"
  using net_slots_bounded [OF sample_net_reach _ _ sample_net_slot] sample_net_slot by auto

text \<open>
  C12: A request is started only in one of the five slots, only when that slot is free, and only for
  a path with one leading slash; the other slots keep their transfers. The slot then holds the
  request for the configured origin followed by that path, in fewer than 8192 bytes, with the body
  given, the time limit of its role and no bytes of an earlier response, and every request asks for
  peer and host verification, TLS 1.3, HTTPS without redirects or proxies and the transport's own CA
  and client certificate. If libcurl refuses an
  option the slot is done at once with a configuration error that names the reason; a refused start
  changes nothing.
\<close>

theorem zc_net_start_guarded:
  assumes "net_reach origin (n, w, resp)"
    and "zc_net_start easy_init setup strerror now stream path body n = (ok, m)"
  shows "(if ok then 0 \<le> stream \<and> stream \<le> 4 \<and> sl_easy (slot_of n stream) = None \<and>
      started (request_options n stream) origin now stream path body setup strerror (slot_of m stream) \<and>
      (\<forall>j. 0 \<le> j \<and> j \<le> 4 \<and> j \<noteq> stream \<longrightarrow> slot_of m j = slot_of n j)
    else m = n) \<and> net_reach origin (m, w, resp)"
proof -
  have ok: "net_ok origin resp n" using net_reach_ok [OF assms(1)] by simp
  have five: "length (net_slots n) = 5" using ok by (simp add: net_ok_def)
  show ?thesis
    using zc_net_start_effect [OF assms(2) ok] reach_step [OF assms(1) step_start [OF assms(2)]] five
    by (auto simp: slot_of_set split: if_splits)
qed

theorem zc_net_start_guarded_witness:
  "zc_net_start True None (\<lambda>_. '''') 7 0 ''/v1/state'' None (fresh_net ''https://relay'' ''A'' ''C'' ''K'') = (True, sample_net) \<and>
   started (request_options (fresh_net ''https://relay'' ''A'' ''C'' ''K'') 0) ''https://relay'' 7 0 ''/v1/state'' None None (\<lambda>_. '''') (slot_of sample_net 0)"
  using zc_net_start_guarded [OF reach_new sample_net_run, of undefined undefined] sample_net_run by simp

section \<open>A download\<close>

text \<open>
  What libcurl does with one transfer: header lines, body chunks, progress calls and TLS messages in
  some order, until a callback refuses. \<open>transfer\<close> returns whether none did.
\<close>

datatype net_event = Header "char list" | Chunk "char list" | Progress int int int | Alert bool bool "nat list"

fun transfer :: "int \<Rightarrow> int \<Rightarrow> int \<Rightarrow> net_event list \<Rightarrow> slot \<Rightarrow> world \<Rightarrow> bool \<times> slot \<times> world" where
  "transfer now status i [] s w = (True, s, w)"
| "transfer now status i (Header line # es) s w = (case receive_header line s of (k, s) \<Rightarrow>
     if k \<noteq> length line then (False, s, w) else transfer now status i es s w)"
| "transfer now status i (Chunk data # es) s w = (case receive now status (\<lambda>_. True) True i data s w of (k, s, w) \<Rightarrow>
     if k \<noteq> length data then (False, s, w) else transfer now status i es s w)"
| "transfer now status i (Progress t later up # es) s w = (case progress t later up s of (stop, s) \<Rightarrow>
     if stop then (False, s, w) else transfer now status i es s w)"
| "transfer now status i (Alert out alert buf # es) s w = transfer now status i es (tls_message out alert buf s) w"

fun chunks :: "net_event list \<Rightarrow> char list list" where
  "chunks [] = []"
| "chunks (Chunk data # es) = data # chunks es"
| "chunks (_ # es) = chunks es"

text \<open>What no callback of a download changes.\<close>

definition same_request :: "slot \<Rightarrow> slot \<Rightarrow> bool" where
  "same_request s t \<longleftrightarrow> sl_easy t = sl_easy s \<and> sl_stream t = sl_stream s \<and> sl_media t = sl_media s \<and> sl_upload t = sl_upload s \<and>
     sl_fd t = sl_fd s \<and> sl_expected t = sl_expected s \<and> sl_error t = sl_error s \<and> sl_done t = sl_done s \<and>
     sl_body t = sl_body s"

lemma same_request_refl [simp]: "same_request s s"
  by (simp add: same_request_def)

lemma same_request_trans: "same_request s t \<Longrightarrow> same_request t u \<Longrightarrow> same_request s u"
  by (simp add: same_request_def)

lemma same_request_mime [simp]: "same_request s (t\<lparr>sl_mime := x\<rparr>) = same_request s t"
  "same_request s (t\<lparr>sl_extensions := x\<rparr>) = same_request s t"
  "same_request s (t\<lparr>sl_extension_seen := b\<rparr>) = same_request s t"
  by (simp_all add: same_request_def)

lemma receive_header_request:
  assumes "receive_header data s = (k, t)" shows "same_request s t \<and> sl_len t = sl_len s"
proof -
  define s1 where "s1 = (if has_prefix ''HTTP/'' data
               then s\<lparr>sl_extensions := '''', sl_mime := '''', sl_extension_seen := False\<rparr> else s)"
  define mime where "mime = strip blank line_end (drop 13 data)"
  define s2 where "s2 = (if has_header ''content-type:'' data then s1\<lparr>sl_mime := c_string mime\<rparr> else s1)"
  have 2: "same_request s s2 \<and> sl_len s2 = sl_len s" by (simp add: s2_def s1_def)
  note def = assms [unfolded receive_header_def Let_def, folded s1_def mime_def, folded s2_def]
  define token where "token = strip blank (\<lambda>c. line_end c \<or> c = CHR 0x09) (drop (length ''zimbr-event-extensions:'') data)"
  have "t = s1 \<or> t = s2 \<or> t = s \<or> t = s2\<lparr>sl_extension_seen := True, sl_extensions := c_string token\<rparr>"
  proof (cases "has_header ''content-type:'' data \<and> length mime \<ge> 64")
    case False
    then show ?thesis using def unfolding token_def by (auto simp del: length_0_conv list.size split: if_splits)
  qed (use def in simp)
  then show ?thesis using 2 by (auto simp: s1_def)
qed

lemma progress_request: "progress t later up s = (stop, u) \<Longrightarrow> same_request s u \<and> sl_len u = sl_len s"
  by (auto simp: progress_def same_request_def Let_def split: if_splits)

lemma tls_message_request: "same_request s (tls_message out alert buf s) \<and> sl_len (tls_message out alert buf s) = sl_len s"
  by (simp add: tls_message_def same_request_def)

lemma receive_media:
  assumes "receive now 200 fn alloc i data s w = (length data, t, v)" and "sl_media s" and "writable w (sl_fd s)"
    and "sl_len s \<le> media_limit"
  shows "same_request s t \<and> wrote w v (sl_fd s) data \<and> sl_len t = sl_len s + length data \<and> sl_len t \<le> media_limit"
proof -
  define s1 where "s1 = s\<lparr>sl_last_rx := now\<rparr>"
  have s1: "sl_media s1" "sl_len s1 = sl_len s" "sl_fd s1 = sl_fd s" "same_request s s1"
    using assms(2) by (simp_all add: s1_def same_request_def)
  obtain ok u where w: "write_all (sl_fd s) data w = (ok, u)" by fastforce
  note def = assms(1) [unfolded receive_def Let_def, folded s1_def]
  note eff = write_all_effect [OF assms(3) w]
  show ?thesis
  proof (cases "data = []")
    case True
    then have "t = s1 \<or> t = s1\<lparr>sl_len := sl_len s1\<rparr>" "v = u \<or> v = w"
      using def s1 w by (auto split: if_splits)
    then have "sl_len t = sl_len s" "same_request s t" using s1 by (auto simp: same_request_def)
    moreover have "wrote w v (sl_fd s) []"
      using True eff \<open>v = u \<or> v = w\<close> wrote_Nil [OF assms(3) quiet_refl] by auto
    ultimately show ?thesis using True assms(4) by simp
  next
    case False
    then have "length data \<le> size_minus media_limit (sl_len s)" "ok" "t = s1\<lparr>sl_len := sl_len s1 + length data\<rparr>" "v = u"
      using def s1 w by (auto split: if_splits)
    then show ?thesis using eff s1 assms(4) by (auto simp: size_minus_le same_request_def)
  qed
qed

lemma transfer_media:
  "transfer now 200 i es s w = (True, t, v) \<Longrightarrow> sl_media s \<Longrightarrow> writable w (sl_fd s) \<Longrightarrow> sl_len s \<le> media_limit \<Longrightarrow>
   same_request s t \<and> wrote w v (sl_fd s) (concat (chunks es)) \<and>
   sl_len t = sl_len s + length (concat (chunks es)) \<and> sl_len t \<le> media_limit"
proof (induction now "200 :: int" i es s w arbitrary: t v rule: transfer.induct)
  case (1 now i s w)
  then show ?case using wrote_Nil [OF _ quiet_refl] by simp
next
  case (2 now i line es s w)
  obtain k u where u: "receive_header line s = (k, u)" by fastforce
  then have k: "\<not> k \<noteq> length line" and rec: "transfer now 200 i es u w = (True, t, v)"
    using "2.prems"(1) by (auto split: if_splits)
  from receive_header_request [OF u] have 1: "same_request s u" "sl_len u = sl_len s" by auto
  then have "sl_media u" "writable w (sl_fd u)" "sl_len u \<le> media_limit" "sl_fd u = sl_fd s"
    using "2.prems" by (simp_all add: same_request_def)
  then show ?case using "2.hyps" [OF u [symmetric] k rec] 1 same_request_trans by auto
next
  case (3 now i data es s w)
  obtain k u w1 where u: "receive now 200 (\<lambda>_. True) True i data s w = (k, u, w1)" by (metis prod_cases3)
  then have k: "k = length data" and rec: "transfer now 200 i es u w1 = (True, t, v)"
    using "3.prems"(1) by (auto split: if_splits)
  from receive_media [OF u [unfolded k] "3.prems"(2-4)] have
    1: "same_request s u" "wrote w w1 (sl_fd s) data" "sl_len u = sl_len s + length data" "sl_len u \<le> media_limit" by auto
  have "sl_media u" "sl_fd u = sl_fd s" using 1(1) "3.prems"(2) by (simp_all add: same_request_def)
  with "3.hyps" [OF u [symmetric] refl _ rec] k wrote_writable [OF 1(2)] 1(4) have
    2: "same_request u t" "wrote w1 v (sl_fd s) (concat (chunks es))"
      "sl_len t = sl_len u + length (concat (chunks es))" "sl_len t \<le> media_limit" by auto
  show ?case using same_request_trans [OF 1(1) 2(1)] wrote_trans [OF 1(2) 2(2)] 2 1(3) by simp
next
  case (4 now i tm later up es s w)
  obtain stop u where u: "progress tm later up s = (stop, u)" by fastforce
  then have k: "\<not> stop" and rec: "transfer now 200 i es u w = (True, t, v)"
    using "4.prems"(1) by (auto split: if_splits)
  from progress_request [OF u] have 1: "same_request s u" "sl_len u = sl_len s" by auto
  then have "sl_media u" "writable w (sl_fd u)" "sl_len u \<le> media_limit" "sl_fd u = sl_fd s"
    using "4.prems" by (simp_all add: same_request_def)
  then show ?case using "4.hyps" [OF u [symmetric] k rec] 1 same_request_trans by auto
next
  case (5 now i out alert buf es s w)
  define u where "u = tls_message out alert buf s"
  have 1: "same_request s u" "sl_len u = sl_len s" using tls_message_request by (auto simp: u_def)
  then have "sl_media u" "writable w (sl_fd u)" "sl_len u \<le> media_limit" "sl_fd u = sl_fd s"
    using "5.prems" by (simp_all add: same_request_def)
  then show ?case using "5.hyps" [folded u_def, of t v] "5.prems"(1) 1 same_request_trans by (auto simp: u_def)
qed

lemma image_complete_iff: "sl_len s = k \<Longrightarrow> image_complete len s \<longleftrightarrow> 1 \<le> len \<and> len = int k \<and>
   (sl_expected s = 0 \<or> sl_expected s = k) \<and> (sl_mime s = ''image/png'' \<or> sl_mime s = ''image/jpeg'')"
  by (auto simp: image_complete_def)

lemma completed_kind:
  "e_kind (sl_error (completed strerror c s)) = ZC_OK \<longleftrightarrow> c_code c = CURLE_OK \<and> c_status c < 300 \<and> \<not> sl_stream s \<and>
     (sl_media s \<and> c_status c = 200 \<longrightarrow> image_complete (c_length c) s) \<and> e_kind (sl_error s) = ZC_OK"
  by (auto simp: completed_def transfer_failed_def failed_kind_def Let_def)

lemma completed_same: "sl_done (completed strerror c s)" "sl_body (completed strerror c s) = sl_body s"
  "sl_status (completed strerror c s) = c_status c"
  by (simp_all add: completed_def Let_def)

text \<open>
  C10: A download that libcurl finishes with status 200 has written exactly the bytes of the body, in
  order, to the file it was given, at most 8 MiB and nothing to any other file or to memory. It is
  reported as successful just when the declared length is known, positive and equal to what arrived,
  agrees with the expected size if one was given, and the type is PNG or JPEG; otherwise the slot
  carries an HTTP error, so a truncated or mislabelled image is never taken for a complete one.
\<close>

theorem zc_net_download_exact:
  assumes "net_reach origin (n, w, resp)"
    and "zc_net_start_file True None strerror now lane path fd expected n = (True, m)"
    and "w_files w fd = Some \<lparr>f_ino = f, f_pos = 0, f_wr = True\<rparr>" and "file_bytes w f = Some []"
    and "transfer later 200 (lane + 2) es (slot_of m (lane + 2)) w = (True, s, v)"
    and "c_status c = 200" and "c_code c = CURLE_OK"
  shows "file_bytes v f = Some (concat (chunks es)) \<and> length (concat (chunks es)) \<le> 8 * 1024 * 1024 \<and>
    (\<forall>j. j \<noteq> f \<longrightarrow> w_inodes v j = w_inodes w j) \<and> sl_body (completed strerror c s) = None \<and>
    e_kind (sl_error (completed strerror c s)) =
      (if 1 \<le> c_length c \<and> c_length c = int (length (concat (chunks es))) \<and>
          (expected = 0 \<or> expected = length (concat (chunks es))) \<and>
          (sl_mime s = ''image/png'' \<or> sl_mime s = ''image/jpeg'') then ZC_OK else ZC_HTTP)"
proof -
  have ok: "net_ok origin resp n" using net_reach_ok [OF assms(1)] by simp
  have five: "length (net_slots n) = 5" using ok by (simp add: net_ok_def)
  from zc_net_start_file_effect [OF assms(2) ok] obtain s0 where
    l: "lane = 0 \<or> lane = 1" and m: "m = set_slot (lane + 2) (s0\<lparr>sl_fd := fd, sl_expected := expected\<rparr>) n"
    and st: "started (request_options n (lane + 2)) origin now (lane + 2) path None None strerror s0" by auto
  have sl: "slot_of m (lane + 2) = s0\<lparr>sl_fd := fd, sl_expected := expected\<rparr>"
    using m l five by (auto simp: slot_of_set)
  have wr: "writable w fd" using assms(3,4) by (auto simp: writable_def)
  have s0: "sl_media s0" "sl_len s0 = 0" "sl_body s0 = None" "sl_error s0 = no_error" "\<not> sl_stream s0"
    using st l by (auto simp: started_def)
  have eff: "same_request (slot_of m (lane + 2)) s" "wrote w v fd (concat (chunks es))"
    "sl_len s = length (concat (chunks es))" "sl_len s \<le> media_limit"
    using transfer_media [OF assms(5)] wr s0 sl by (auto simp: media_limit_def)
  have s: "sl_media s" "\<not> sl_stream s" "sl_expected s = expected" "sl_error s = no_error" "sl_body s = None"
    using eff(1) s0 sl by (auto simp: same_request_def)
  have content: "file_bytes v f = Some (concat (chunks es))" "\<forall>j. j \<noteq> f \<longrightarrow> w_inodes v j = w_inodes w j"
    using eff(2) assms(3,4) by (auto simp: wrote_def)
  have "e_kind (sl_error (completed strerror c s)) = (if image_complete (c_length c) s then ZC_OK else ZC_HTTP)"
    using assms(6,7) s by (simp add: completed_def Let_def no_error_def failure_def)
  moreover have "image_complete (c_length c) s \<longleftrightarrow> 1 \<le> c_length c \<and> c_length c = int (length (concat (chunks es))) \<and>
          (expected = 0 \<or> expected = length (concat (chunks es))) \<and>
          (sl_mime s = ''image/png'' \<or> sl_mime s = ''image/jpeg'')"
    using image_complete_iff [of s "length (concat (chunks es))" "c_length c"] eff(3) s(3) by blast
  ultimately have "e_kind (sl_error (completed strerror c s)) =
      (if 1 \<le> c_length c \<and> c_length c = int (length (concat (chunks es))) \<and>
          (expected = 0 \<or> expected = length (concat (chunks es))) \<and>
          (sl_mime s = ''image/png'' \<or> sl_mime s = ''image/jpeg'') then ZC_OK else ZC_HTTP)" by presburger
  moreover have "length (concat (chunks es)) \<le> 8 * 1024 * 1024" using eff(3,4) by (simp add: media_limit_def)
  moreover have "sl_body (completed strerror c s) = None" using s(5) by (simp add: completed_same)
  ultimately show ?thesis using content by blast
qed

text \<open>The kind of a failed transfer, by the result of libcurl and the alert of the relay.\<close>

lemma failed_kind_cases:
  "failed_kind code alert = ZC_SERVER_TRUST \<longleftrightarrow> code \<in> {CURLE_PEER_FAILED_VERIFICATION, CURLE_SSL_ISSUER_ERROR}"
  "failed_kind code alert = ZC_CREDENTIALS \<longleftrightarrow> code \<in> {CURLE_SSL_CERTPROBLEM, CURLE_SSL_CACERT_BADFILE}"
  "failed_kind code alert = ZC_CLIENT_REJECTED \<longleftrightarrow> alert \<in> {42, 43, 44, 45, 46, 48, 116} \<and>
     code \<notin> {CURLE_PEER_FAILED_VERIFICATION, CURLE_SSL_ISSUER_ERROR, CURLE_SSL_CERTPROBLEM, CURLE_SSL_CACERT_BADFILE}"
  "failed_kind code alert = ZC_NETWORK \<longleftrightarrow> alert = 0 \<and> code \<notin> {CURLE_PEER_FAILED_VERIFICATION, CURLE_SSL_ISSUER_ERROR,
     CURLE_SSL_CERTPROBLEM, CURLE_SSL_CACERT_BADFILE, CURLE_SSL_CONNECT_ERROR}"
  "failed_kind code alert \<in> {ZC_SERVER_TRUST, ZC_CREDENTIALS, ZC_CLIENT_REJECTED, ZC_TLS, ZC_NETWORK}"
proof -
  have r: "rejection_alert alert \<longleftrightarrow> alert \<in> {42, 43, 44, 45, 46, 48, 116}" by (auto simp: rejection_alert_def)
  show "failed_kind code alert = ZC_SERVER_TRUST \<longleftrightarrow> code \<in> {CURLE_PEER_FAILED_VERIFICATION, CURLE_SSL_ISSUER_ERROR}"
    "failed_kind code alert = ZC_CREDENTIALS \<longleftrightarrow> code \<in> {CURLE_SSL_CERTPROBLEM, CURLE_SSL_CACERT_BADFILE}"
    "failed_kind code alert = ZC_CLIENT_REJECTED \<longleftrightarrow> alert \<in> {42, 43, 44, 45, 46, 48, 116} \<and>
     code \<notin> {CURLE_PEER_FAILED_VERIFICATION, CURLE_SSL_ISSUER_ERROR, CURLE_SSL_CERTPROBLEM, CURLE_SSL_CACERT_BADFILE}"
    "failed_kind code alert = ZC_NETWORK \<longleftrightarrow> alert = 0 \<and> code \<notin> {CURLE_PEER_FAILED_VERIFICATION, CURLE_SSL_ISSUER_ERROR,
     CURLE_SSL_CERTPROBLEM, CURLE_SSL_CACERT_BADFILE, CURLE_SSL_CONNECT_ERROR}"
    "failed_kind code alert \<in> {ZC_SERVER_TRUST, ZC_CREDENTIALS, ZC_CLIENT_REJECTED, ZC_TLS, ZC_NETWORK}"
    unfolding failed_kind_def r by auto
qed

text \<open>A successful transfer by its status, for the event stream, an image and the rest.\<close>

lemma completed_ok_kind:
  fixes strerror :: "curlcode \<Rightarrow> string"
  assumes "c_code c = CURLE_OK" and "sl_stream s \<longrightarrow> \<not> sl_media s"
  defines "e \<equiv> sl_error (completed strerror c s)"
  shows "sl_stream s \<and> c_status c = 200 \<Longrightarrow> e_kind e = ZC_NETWORK \<and> e_message e = stream_closed"
    and "c_status c \<ge> 300 \<or> (sl_stream s \<and> c_status c \<noteq> 200) \<Longrightarrow> e_kind e = ZC_HTTP"
    and "sl_media s \<and> c_status c = 200 \<and> \<not> image_complete (c_length c) s \<Longrightarrow>
      e_kind e = ZC_HTTP \<and> e_curl e = CURLE_PARTIAL_FILE"
  using assms(1,2) by (auto simp: e_def completed_def Let_def failure_def stream_closed_def diagnostic_def)

text \<open>
  C13: Every end of a transfer is classified. It is no error just when libcurl succeeded, the status is
  below 300, it is not the event stream and, for an image with status 200, the declared length is
  positive and what arrived, agrees with the expected one if there is one, and the type is PNG or
  JPEG; nothing was reported before. An incomplete image is an HTTP error marked as a partial file,
  the end of the event stream asks for a new connection, other statuses are HTTP errors. When libcurl
  failed, a refused HTTP/2 negotiation stays a configuration error with its own message; an untrusted
  relay, unusable credentials, a client the relay rejected (one of seven alerts), other TLS trouble
  and network trouble are told apart. The slot is done, and the other slots are untouched.
\<close>

theorem zc_net_poll_classified:
  assumes "net_reach origin (n, w, resp)" and "in_flight n (c_slot c)"
    and "zc_net_poll strerror True [c] n = (ok, m)"
  defines "s \<equiv> slot_of n (c_slot c)" and "t \<equiv> slot_of m (c_slot c)"
    and "picture \<equiv> (c_slot c = 2 \<or> c_slot c = 3) \<and> c_status c = 200"
  defines "whole \<equiv> 1 \<le> c_length c \<and> c_length c = int (sl_len s) \<and> (sl_expected s = 0 \<or> sl_expected s = sl_len s) \<and>
    (sl_mime s = ''image/png'' \<or> sl_mime s = ''image/jpeg'')"
  defines "relay \<equiv> {CURLE_PEER_FAILED_VERIFICATION, CURLE_SSL_ISSUER_ERROR}"
    and "client \<equiv> {CURLE_SSL_CERTPROBLEM, CURLE_SSL_CACERT_BADFILE}"
    and "rejections \<equiv> {42, 43, 44, 45, 46, 48, 116}"
  shows "ok \<and> sl_done t \<and> sl_status t = c_status c \<and>
    (\<forall>j. 0 \<le> j \<and> j \<le> 4 \<and> j \<noteq> c_slot c \<longrightarrow> slot_of m j = slot_of n j) \<and>
    (e_kind (sl_error t) = ZC_OK \<longleftrightarrow> c_code c = CURLE_OK \<and> c_status c < 300 \<and> c_slot c \<noteq> 1 \<and>
       (picture \<longrightarrow> whole) \<and> e_kind (sl_error s) = ZC_OK) \<and>
    (c_code c = CURLE_OK \<longrightarrow>
       (picture \<and> \<not> whole \<longrightarrow> e_kind (sl_error t) = ZC_HTTP \<and> e_curl (sl_error t) = CURLE_PARTIAL_FILE) \<and>
       (c_slot c = 1 \<and> c_status c = 200 \<longrightarrow> e_kind (sl_error t) = ZC_NETWORK \<and>
          e_message (sl_error t) = ''Event stream closed. Reconnecting from the saved cursor.'') \<and>
       (c_status c \<ge> 300 \<or> c_slot c = 1 \<and> c_status c \<noteq> 200 \<longrightarrow> e_kind (sl_error t) = ZC_HTTP)) \<and>
    (c_code c \<noteq> CURLE_OK \<and> e_kind (sl_error s) = ZC_CONFIG \<longrightarrow> e_kind (sl_error t) = ZC_CONFIG \<and>
       e_message (sl_error t) = ''The relay must negotiate HTTP/2 (h2). Upgrade the relay, then Reconnect.'') \<and>
    (c_code c \<noteq> CURLE_OK \<and> e_kind (sl_error s) \<noteq> ZC_CONFIG \<longrightarrow>
       (e_kind (sl_error t) = ZC_SERVER_TRUST \<longleftrightarrow> c_code c \<in> relay) \<and>
       (e_kind (sl_error t) = ZC_CREDENTIALS \<longleftrightarrow> c_code c \<in> client) \<and>
       (e_kind (sl_error t) = ZC_CLIENT_REJECTED \<longleftrightarrow> sl_alert s \<in> rejections \<and> c_code c \<notin> relay \<union> client) \<and>
       (e_kind (sl_error t) = ZC_NETWORK \<longleftrightarrow>
          sl_alert s = 0 \<and> c_code c \<noteq> CURLE_SSL_CONNECT_ERROR \<and> c_code c \<notin> relay \<union> client) \<and>
       e_kind (sl_error t) \<in> {ZC_SERVER_TRUST, ZC_CREDENTIALS, ZC_CLIENT_REJECTED, ZC_TLS, ZC_NETWORK})"
proof -
  have nok: "net_ok origin resp n" using net_reach_ok [OF assms(1)] by simp
  then have five: "length (net_slots n) = 5" by (simp add: net_ok_def)
  from assms(2) have c: "0 \<le> c_slot c" "c_slot c \<le> 4" and easy: "sl_easy s \<noteq> None"
    by (auto simp: in_flight_def s_def split: option.splits)
  have m: "ok" "m = set_slot (c_slot c) (completed strerror c s) n"
    using assms(3) by (simp_all add: zc_net_poll_def s_def)
  then have t: "t = completed strerror c s" using c five by (simp add: t_def slot_of_set)
  have roles: "sl_stream s = (c_slot c = 1)" "sl_media s = (c_slot c = 2 \<or> c_slot c = 3)"
    using net_ok_slot [OF nok c] easy by (simp_all add: slot_ok_def roles_ok_def s_def)
  have whole: "image_complete (c_length c) s = whole"
    unfolding whole_def by (rule image_complete_iff) simp
  have ended: "ok" "sl_done t" "sl_status t = c_status c" using m(1) by (simp_all add: t completed_same)
  have others: "\<forall>j. 0 \<le> j \<and> j \<le> 4 \<and> j \<noteq> c_slot c \<longrightarrow> slot_of m j = slot_of n j"
    using m c five by (auto simp: slot_of_set)
  have success: "e_kind (sl_error t) = ZC_OK \<longleftrightarrow> c_code c = CURLE_OK \<and> c_status c < 300 \<and> c_slot c \<noteq> 1 \<and>
       (picture \<longrightarrow> whole) \<and> e_kind (sl_error s) = ZC_OK"
    using completed_kind [of strerror c s, folded t, unfolded roles whole] unfolding picture_def .
  have ok_kind: "(picture \<and> \<not> whole \<longrightarrow> e_kind (sl_error t) = ZC_HTTP \<and> e_curl (sl_error t) = CURLE_PARTIAL_FILE) \<and>
       (c_slot c = 1 \<and> c_status c = 200 \<longrightarrow> e_kind (sl_error t) = ZC_NETWORK \<and>
          e_message (sl_error t) = ''Event stream closed. Reconnecting from the saved cursor.'') \<and>
       (c_status c \<ge> 300 \<or> c_slot c = 1 \<and> c_status c \<noteq> 200 \<longrightarrow> e_kind (sl_error t) = ZC_HTTP)" if "c_code c = CURLE_OK"
    using completed_ok_kind [OF that, of s strerror, folded t, unfolded roles whole stream_closed_def]
    unfolding picture_def by simp
  have config: "e_kind (sl_error t) = ZC_CONFIG \<and>
      e_message (sl_error t) = ''The relay must negotiate HTTP/2 (h2). Upgrade the relay, then Reconnect.''"
    if "c_code c \<noteq> CURLE_OK" "e_kind (sl_error s) = ZC_CONFIG"
    using that by (simp add: t completed_def Let_def transfer_failed_def diagnostic_def http2_message_def)
  have failed: "e_kind (sl_error t) = failed_kind (c_code c) (sl_alert s)"
    if "c_code c \<noteq> CURLE_OK" "e_kind (sl_error s) \<noteq> ZC_CONFIG"
    using that by (simp add: t completed_def Let_def transfer_failed_def)
  note kinds = failed_kind_cases [of "c_code c" "sl_alert s"]
  have told: "(e_kind (sl_error t) = ZC_SERVER_TRUST \<longleftrightarrow> c_code c \<in> relay) \<and>
       (e_kind (sl_error t) = ZC_CREDENTIALS \<longleftrightarrow> c_code c \<in> client) \<and>
       (e_kind (sl_error t) = ZC_CLIENT_REJECTED \<longleftrightarrow> sl_alert s \<in> rejections \<and> c_code c \<notin> relay \<union> client) \<and>
       (e_kind (sl_error t) = ZC_NETWORK \<longleftrightarrow>
          sl_alert s = 0 \<and> c_code c \<noteq> CURLE_SSL_CONNECT_ERROR \<and> c_code c \<notin> relay \<union> client) \<and>
       e_kind (sl_error t) \<in> {ZC_SERVER_TRUST, ZC_CREDENTIALS, ZC_CLIENT_REJECTED, ZC_TLS, ZC_NETWORK}"
    if "c_code c \<noteq> CURLE_OK" "e_kind (sl_error s) \<noteq> ZC_CONFIG"
    unfolding failed [OF that] kinds(1-4) relay_def client_def rejections_def using kinds(5) by auto
  show ?thesis using ended others success ok_kind config told by blast
qed

text \<open>A download of three bytes in two chunks.\<close>

definition spool :: world where
  "spool = \<lparr>w_inodes = [1 \<mapsto> \<lparr>i_node = Regular [], i_uid = 7, i_mode = 384, i_nlink = 1, i_mtime = (0, 0), i_ctime = (0, 0)\<rparr>],
     w_next = 2, w_root = 0, w_files = [5 \<mapsto> \<lparr>f_ino = 1, f_pos = 0, f_wr = True\<rparr>], w_nextfd = 6, w_uid = 7,
     w_now = (9, 0), w_script = []\<rparr>"

definition spool_events :: "net_event list" where
  "spool_events = [Header ''content-type: image/png'', Chunk ''ab'', Progress 3 3 0, Chunk ''c'']"

definition spool_net :: net where
  "spool_net = snd (zc_net_start_file True None (\<lambda>_. '''') 1 0 ''/v1/media'' 5 3 (fresh_net ''https://relay'' ''A'' ''C'' ''K''))"

lemma spool_start: "zc_net_start_file True None (\<lambda>_. '''') 1 0 ''/v1/media'' 5 3 (fresh_net ''https://relay'' ''A'' ''C'' ''K'') = (True, spool_net)"
  by (simp add: spool_net_def zc_net_start_file_def zc_net_start_def fresh_net_def slot_of_def set_slot_def zero_slot_def
    has_prefix_def Let_def)

lemma spool_slot: "slot_of spool_net 2 = zero_slot\<lparr>sl_easy := Some \<lparr>r_added = True, r_options = request_options (fresh_net ''https://relay'' ''A'' ''C'' ''K'') 2,
     r_url = ''https://relay/v1/media'',
     r_timeout = 30000, r_low_speed_time = Some 7, r_body = None, r_headers = [http_header], r_upload = None\<rparr>,
     sl_media := True, sl_last_rx := 1, sl_fd := 5, sl_expected := 3\<rparr>"
  by (simp add: spool_net_def zc_net_start_file_def zc_net_start_def fresh_net_def slot_of_def set_slot_def zero_slot_def
    has_prefix_def Let_def timeout_of_def)

lemma spool_header: "receive_header ''content-type: image/png'' s = (23, s\<lparr>sl_mime := ''image/png''\<rparr>)"
  by (simp add: receive_header_def has_prefix_def has_header_def lower_def strip_def blank_def line_end_def c_string_def)

lemma spool_transfer:
  "fst (transfer 2 200 2 spool_events (slot_of spool_net 2) spool) \<and>
   sl_mime (fst (snd (transfer 2 200 2 spool_events (slot_of spool_net 2) spool))) = ''image/png''"
  by (simp add: spool_events_def spool_slot spool_header receive_def size_minus_def media_limit_def write_all.simps
    spool_def zero_slot_def posix_run progress_def Let_def)

definition spool_result :: "slot \<times> world" where
  "spool_result = snd (transfer 2 200 2 spool_events (slot_of spool_net 2) spool)"

lemma spool_run: "transfer 2 200 (0 + 2) spool_events (slot_of spool_net (0 + 2)) spool = (True, fst spool_result, snd spool_result)"
  using spool_transfer by (simp add: spool_result_def prod_eq_iff)

definition spool_done :: completion where
  "spool_done = \<lparr>c_slot = 2, c_status = 200, c_verify = 0, c_code = CURLE_OK, c_length = 3, c_buffer = None\<rparr>"

theorem zc_net_download_exact_witness:
  "file_bytes (snd spool_result) 1 = Some ''abc'' \<and>
   e_kind (sl_error (completed (\<lambda>_. '''') spool_done (fst spool_result))) = ZC_OK"
proof -
  have m: "sl_mime (fst spool_result) = ''image/png''" using spool_transfer by (simp add: spool_result_def)
  have c: "concat (chunks spool_events) = ''abc''" by (simp add: spool_events_def)
  have "w_files spool 5 = Some \<lparr>f_ino = 1, f_pos = 0, f_wr = True\<rparr>" "file_bytes spool 1 = Some []"
    by (simp_all add: spool_def file_bytes_def node_of_def)
  from zc_net_download_exact [OF reach_new spool_start this spool_run, where c = spool_done] show ?thesis
    by (simp add: spool_done_def c m)
qed

theorem zc_net_poll_classified_witness:
  "in_flight sample_net 0 \<and> e_kind (sl_error (slot_of (snd (zc_net_poll (\<lambda>_. '''') True
     [\<lparr>c_slot = 0, c_status = 0, c_verify = 0, c_code = CURLE_SSL_CONNECT_ERROR, c_length = -1, c_buffer = None\<rparr>] sample_net)) 0)) = ZC_TLS"
proof -
  let ?c = "\<lparr>c_slot = 0, c_status = 0, c_verify = 0, c_code = CURLE_SSL_CONNECT_ERROR, c_length = -1, c_buffer = None\<rparr>"
  have a: "in_flight sample_net (c_slot ?c)" and e: "e_kind (sl_error (slot_of sample_net 0)) = ZC_OK"
    and al: "sl_alert (slot_of sample_net 0) = 0"
    by (simp_all add: in_flight_def sample_net_def zc_net_start_def fresh_net_def slot_of_def set_slot_def zero_slot_def
      no_error_def has_prefix_def Let_def)
  define m where "m = snd (zc_net_poll (\<lambda>_. '''') True [?c] sample_net)"
  have "zc_net_poll (\<lambda>_. '''') True [?c] sample_net = (True, m)" by (simp add: m_def zc_net_poll_def)
  from zc_net_poll_classified [OF sample_net_reach a this] e al
  have "e_kind (sl_error (slot_of m 0)) = ZC_TLS" by auto
  then show ?thesis using a by (simp add: m_def)
qed

section \<open>An upload\<close>

text \<open>\<open>feed\<close>: the chunks libcurl gets from successive calls of \<open>upload_read\<close> with these buffer sizes.\<close>

fun feed :: "nat list \<Rightarrow> slot \<Rightarrow> world \<Rightarrow> (unit + char list list) \<times> slot \<times> world" where
  "feed [] s w = (Inr [], s, w)"
| "feed (room # rooms) s w = (case upload_read room s w of
     (Inl _, s, w) \<Rightarrow> (Inl (), s, w)
   | (Inr part, s, w) \<Rightarrow> (case feed rooms s w of
       (Inl _, s, w) \<Rightarrow> (Inl (), s, w) | (Inr parts, s, w) \<Rightarrow> (Inr (part # parts), s, w)))"

lemma upload_read_part:
  assumes "upload_read room s w = (Inr part, t, v)" and "sl_read_offset s \<le> sl_upload_length s"
    and "fd_ino w (sl_fd s) = Some f" and "file_bytes w f = Some bs"
  shows "quiet w v \<and> t = s\<lparr>sl_read_offset := sl_read_offset s + length part\<rparr> \<and>
    part = take (length part) (drop (sl_read_offset s) bs) \<and> length part \<le> min room 65536 \<and>
    sl_read_offset s + length part \<le> sl_upload_length s \<and>
    (part = [] \<longrightarrow> room = 0 \<or> sl_read_offset s = sl_upload_length s)"
proof -
  define wanted where "wanted = min (min room 65536) (size_minus (sl_upload_length s) (sl_read_offset s))"
  have w: "wanted = min (min room 65536) (sl_upload_length s - sl_read_offset s)"
    using assms(2) by (simp add: wanted_def size_minus_le)
  show ?thesis
  proof (cases "wanted = 0")
    case True
    then have "part = []" "t = s" "v = w"
      using assms(1) unfolding upload_read_def Let_def wanted_def [symmetric] by auto
    then show ?thesis using True w assms(2) by (auto simp: quiet_refl min_def split: if_splits)
  next
    case False
    with assms(1) have g: "pread_again (sl_fd s) wanted (sl_read_offset s) w = (Inr part, v)" "part \<noteq> []"
      and t: "t = s\<lparr>sl_read_offset := sl_read_offset s + length part\<rparr>"
      unfolding upload_read_def Let_def wanted_def [symmetric] by (auto split: if_splits prod.splits sum.splits)
    from pread_again_part [OF g(1)] assms(3,4) have
      p: "quiet w v" "part = take (length part) (drop (sl_read_offset s) bs)" "length part \<le> wanted" by auto
    then show ?thesis using t g(2) w assms(2) by auto
  qed
qed

lemma feed_effect:
  "feed rooms s w = (Inr parts, t, v) \<Longrightarrow> sl_read_offset s \<le> sl_upload_length s \<Longrightarrow>
   fd_ino w (sl_fd s) = Some f \<Longrightarrow> file_bytes w f = Some bs \<Longrightarrow>
   quiet w v \<and> t = s\<lparr>sl_read_offset := sl_read_offset s + length (concat parts)\<rparr> \<and>
   concat parts = take (length (concat parts)) (drop (sl_read_offset s) bs) \<and>
   list_all2 (\<lambda>room part. length part \<le> min room 65536) rooms parts \<and>
   sl_read_offset t \<le> sl_upload_length t \<and>
   ([] \<in> set parts \<and> 0 \<notin> set rooms \<longrightarrow> sl_read_offset t = sl_upload_length t)"
proof (induction rooms s w arbitrary: parts rule: feed.induct)
  case (2 room rooms s w)
  obtain p s1 w1 where r: "upload_read room s w = (Inr p, s1, w1)" and
    rest: "\<exists>ps. feed rooms s1 w1 = (Inr ps, t, v) \<and> parts = p # ps"
    using "2.prems"(1) by (auto split: prod.splits sum.splits)
  then obtain ps where ps: "feed rooms s1 w1 = (Inr ps, t, v)" "parts = p # ps" by blast
  from upload_read_part [OF r "2.prems"(2-4)] have
    1: "quiet w w1" "s1 = s\<lparr>sl_read_offset := sl_read_offset s + length p\<rparr>"
      "p = take (length p) (drop (sl_read_offset s) bs)" "length p \<le> min room 65536"
      "sl_read_offset s + length p \<le> sl_upload_length s" "p = [] \<longrightarrow> room = 0 \<or> sl_read_offset s = sl_upload_length s"
    by auto
  have "sl_read_offset s1 \<le> sl_upload_length s1" "fd_ino w1 (sl_fd s1) = Some f" "file_bytes w1 f = Some bs"
    using 1(1,2,5) "2.prems"(3,4) quiet_lookups(2,6) [OF 1(1)] by (auto simp: file_bytes_def)
  from "2.IH" [OF r [symmetric] refl refl ps(1) this] have
    2: "quiet w1 v" "t = s1\<lparr>sl_read_offset := sl_read_offset s1 + length (concat ps)\<rparr>"
      "concat ps = take (length (concat ps)) (drop (sl_read_offset s1) bs)"
      "list_all2 (\<lambda>room part. length part \<le> min room 65536) rooms ps" "sl_read_offset t \<le> sl_upload_length t"
      "[] \<in> set ps \<and> 0 \<notin> set rooms \<longrightarrow> sl_read_offset t = sl_upload_length t" by auto
  define a where "a = length p"
  define b where "b = length (concat ps)"
  have "take (a + b) (drop (sl_read_offset s) bs) = take a (drop (sl_read_offset s) bs) @ take b (drop (sl_read_offset s + a) bs)"
    by (simp add: take_add add.commute)
  also have "\<dots> = p @ concat ps" using 1(2,3) 2(3) by (simp add: a_def b_def)
  finally have whole: "p @ concat ps = take (length (p @ concat ps)) (drop (sl_read_offset s) bs)" by (simp add: a_def b_def)
  have "sl_read_offset t = sl_upload_length t" if "[] \<in> set parts" "0 \<notin> set (room # rooms)"
  proof (cases "p = []")
    case True
    then have "sl_read_offset s1 = sl_upload_length s1" using 1(2,6) that(2) by auto
    then show ?thesis using 2(2,5) by auto
  next
    case False
    then show ?thesis using 2(6) that ps(2) by auto
  qed
  moreover have "t = s\<lparr>sl_read_offset := sl_read_offset s + length (concat parts)\<rparr>"
    using 1(2) 2(2) ps(2) by simp
  moreover have "list_all2 (\<lambda>room part. length part \<le> min room 65536) (room # rooms) parts"
    using 1(4) 2(4) ps(2) by simp
  moreover have "concat parts = take (length (concat parts)) (drop (sl_read_offset s) bs)"
    using whole unfolding ps(2) by (simp only: concat.simps)
  ultimately show ?case using quiet_trans [OF 1(1) 2(1)] 2(5) by blast
qed (auto simp: quiet_refl)

text \<open>
  C11: An accepted upload sends the file it was given from its first byte: whatever sizes libcurl asks
  for and however the reads are cut short or interrupted, the chunks are consecutive pieces of the
  file of at most 64 KiB each, never more than the declared length in total, and the end of the data
  is signalled only when exactly the declared length has been sent. A file that became shorter is
  therefore aborted and never passed off as complete; nothing on disk changes.
\<close>

theorem zc_net_upload_exact:
  assumes "net_reach origin (n, w0, resp)"
    and "zc_net_upload True None strerror True now path epoch fd len n = (True, m)"
    and "fd_ino w fd = Some f" and "file_bytes w f = Some bs"
    and "feed rooms (slot_of m 4) w = (Inr parts, s, v)"
  shows "concat parts = take (length (concat parts)) bs \<and> length (concat parts) \<le> len \<and> len \<le> 100 * 1024 * 1024 \<and>
    list_all2 (\<lambda>room part. length part \<le> min room 65536) rooms parts \<and>
    ([] \<in> set parts \<and> 0 \<notin> set rooms \<longrightarrow> length (concat parts) = len \<and> concat parts = take len bs \<and> len \<le> length bs) \<and>
    same_disk w v \<and> w_files v = w_files w"
proof -
  have ok: "net_ok origin resp n" using net_reach_ok [OF assms(1)] by simp
  have five: "length (net_slots n) = 5" using ok by (simp add: net_ok_def)
  from zc_net_upload_effect [OF assms(2) ok] five obtain s0 where len: "len \<le> 100 * 1024 * 1024"
    and st: "started (request_options n 4) origin now 4 path None None strerror s0"
    and sl: "sl_fd (slot_of m 4) = fd" "sl_upload_length (slot_of m 4) = len" "sl_read_offset (slot_of m 4) = sl_read_offset s0"
    by (auto simp: slot_of_set)
  have 0: "sl_read_offset (slot_of m 4) = 0" using st sl(3) by (simp add: started_def)
  have "sl_read_offset (slot_of m 4) \<le> sl_upload_length (slot_of m 4)" "fd_ino w (sl_fd (slot_of m 4)) = Some f"
    using 0 sl(1) assms(3) by simp_all
  note eff = feed_effect [OF assms(5) this assms(4)]
  then have e: "quiet w v" "concat parts = take (length (concat parts)) bs"
    "list_all2 (\<lambda>room part. length part \<le> min room 65536) rooms parts" using 0 by simp_all
  from eff have "s = (slot_of m 4)\<lparr>sl_read_offset := sl_read_offset (slot_of m 4) + length (concat parts)\<rparr>" by blast
  then have s: "sl_read_offset s = length (concat parts)" "sl_upload_length s = len" using 0 sl(2) by simp_all
  from eff have l: "length (concat parts) \<le> len" "[] \<in> set parts \<and> 0 \<notin> set rooms \<longrightarrow> length (concat parts) = len"
    unfolding s by blast+
  have "len \<le> length bs" if "length (concat parts) = len"
    using e(2) that by (metis length_take min.cobounded1)
  moreover have "same_disk w v \<and> w_files v = w_files w" using e(1) by (simp add: quiet_def)
  moreover have "concat parts = take len bs" if "length (concat parts) = len" using e(2) that by simp
  ultimately show ?thesis using e(2,3) l len by blast
qed

text \<open>An upload of five bytes in two chunks, with an interrupted read between them.\<close>

definition outbox :: world where
  "outbox = spool\<lparr>w_inodes := (w_inodes spool)(1 \<mapsto> \<lparr>i_node = Regular ''hello'', i_uid = 7, i_mode = 384, i_nlink = 1,
     i_mtime = (0, 0), i_ctime = (0, 0)\<rparr>), w_script := [Ok, Fail EINTR]\<rparr>"

definition outbox_net :: net where
  "outbox_net = snd (zc_net_upload True None (\<lambda>_. '''') True 1 ''/v1/uploads/a'' ''AAAAAAAAAAAAAAAAAAAAA_'' 5 5
     (fresh_net ''https://relay'' ''A'' ''C'' ''K''))"

lemma outbox_start: "zc_net_upload True None (\<lambda>_. '''') True 1 ''/v1/uploads/a'' ''AAAAAAAAAAAAAAAAAAAAA_'' 5 5
    (fresh_net ''https://relay'' ''A'' ''C'' ''K'') = (True, outbox_net)"
  by (simp add: outbox_net_def zc_net_upload_def epoch_char_def zc_net_start_def fresh_net_def slot_of_def set_slot_def
    zero_slot_def has_prefix_def Let_def)

lemma outbox_slot: "sl_fd (slot_of outbox_net 4) = 5" "sl_read_offset (slot_of outbox_net 4) = 0"
  "sl_upload_length (slot_of outbox_net 4) = 5"
  by (simp_all add: outbox_net_def zc_net_upload_def epoch_char_def zc_net_start_def fresh_net_def slot_of_def set_slot_def
    zero_slot_def has_prefix_def Let_def)

lemma outbox_feed: "fst (feed [3, 10, 10] (slot_of outbox_net 4) outbox) = Inr [''hel'', ''lo'', []]"
  by (simp add: outbox_slot upload_read_def size_minus_def pread_again.simps spool_def outbox_def posix_run)

theorem zc_net_upload_exact_witness:
  "fst (feed [3, 10, 10] (slot_of outbox_net 4) outbox) = Inr [''hel'', ''lo'', []] \<and>
   same_disk outbox (snd (snd (feed [3, 10, 10] (slot_of outbox_net 4) outbox)))"
proof -
  obtain s v where f: "feed [3, 10, 10] (slot_of outbox_net 4) outbox = (Inr [''hel'', ''lo'', []], s, v)"
    using outbox_feed by (metis prod.collapse)
  have "fd_ino outbox 5 = Some 1" "file_bytes outbox 1 = Some ''hello''"
    by (simp_all add: outbox_def spool_def fd_ino_def file_bytes_def node_of_def)
  from zc_net_upload_exact [OF reach_new outbox_start this f] f show ?thesis by simp
qed

end
