(* ===== verification/NetSetup.thy ===== *)
theory NetSetup
  imports Net
begin

text \<open>
  How \<open>src/client/bridge.c\<close> gets a transport: \<open>zc_private_read\<close> reads the credential files,
  \<open>zc_origin_valid\<close> and \<open>zc_url_host\<close> decide which URLs are acceptable, \<open>credentials\<close> checks
  the certificates, \<open>zc_net_new\<close> puts them together. The URL parser of libcurl and the
  certificate functions of OpenSSL are not part of the repository: they are the records
  \<open>curl_url\<close> and \<open>x509\<close> of what their calls answer.
\<close>

section \<open>Private files\<close>

definition zc_private_dir :: "nat \<Rightarrow> stat \<Rightarrow> bool" where
  "zc_private_dir uid st \<longleftrightarrow> \<not> (st_uid st \<noteq> uid \<or> st_mode st AND M0777 \<noteq> M0700)"

definition zc_private_stat :: "nat \<Rightarrow> stat \<Rightarrow> bool" where
  "zc_private_stat uid st \<longleftrightarrow> \<not> (\<not> S_ISREG st \<or> st_uid st \<noteq> uid \<or> st_mode st AND M0777 \<noteq> M0600 \<or>
     st_nlink st \<noteq> 1 \<or> st_size st < 1 \<or> st_size st > 1024 * 1024)"

text \<open>The loop up to the leaf: \<open>Inl\<close> is the result with the directory closed.\<close>

fun zc_private_walk :: "string list \<Rightarrow> fd \<Rightarrow> world \<Rightarrow> (int + fd \<times> string) \<times> world" where
  "zc_private_walk [] dir w = (Inl (-1), sys_close dir w)"
| "zc_private_walk (part # rest) dir w =
     (if part = '''' \<or> part = ''.'' \<or> part = ''..'' then (Inl (-1), sys_close dir w)
      else case sys_fstat dir w of
        (Inl e, w) \<Rightarrow> (Inl (-1), sys_close dir w)
      | (Inr st, w) \<Rightarrow>
          if rest \<noteq> [] then
            (if \<not> ancestor_ok (w_uid w) st then (Inl (-1), sys_close dir w)
             else case sys_openat dir part [O_RDONLY, O_DIRECTORY, O_NOFOLLOW, O_CLOEXEC] 0 w of
               (Inl e, w) \<Rightarrow> (Inl (if e = ENOENT then 0 else -1), sys_close dir w)
             | (Inr next_dir, w) \<Rightarrow> zc_private_walk rest next_dir (sys_close dir w))
          else if \<not> zc_private_dir (w_uid w) st then (Inl (-1), sys_close dir w)
          else (Inr (dir, part), w))"

text \<open>The bytes of a file of the size \<open>n\<close> that \<open>fstat\<close> reported, or \<open>None\<close>.\<close>

function read_whole :: "fd \<Rightarrow> nat \<Rightarrow> char list \<Rightarrow> world \<Rightarrow> char list option \<times> world" where
  "read_whole fd n got w =
     (if length got < n then
        (case sys_read fd (n - length got) w of
           (Inl e, v) \<Rightarrow> if e = EINTR then read_whole fd n got v else (None, v)
         | (Inr part, v) \<Rightarrow> if part = [] then (None, v) else read_whole fd n (got @ part) v)
      else (Some got, w))"
  by pat_completeness auto

termination
proof (relation "measure (\<lambda>(fd, n, got, w). (n - length got) + length (w_script w))", goal_cases)
  case 1
  show ?case by simp
next
  case (2 fd cap got w x v e)
  with read_script [OF 2(2) [symmetric]] have "length (w_script v) < length (w_script w)" by simp
  then show ?case by simp
next
  case (3 fd cap got w x v part)
  with read_script [OF 3(2) [symmetric]] have "length (w_script v) \<le> length (w_script w)" "0 < length part"
    by simp_all
  with 3(1) show ?case by (cases part) auto
qed

declare read_whole.simps [simp del]

definition zc_private_contents :: "bool \<Rightarrow> fd \<Rightarrow> world \<Rightarrow> (int + char list) \<times> world" where
  "zc_private_contents alloc fd w =
     (case sys_fstat fd w of
        (Inl e, w) \<Rightarrow> (Inl (-1), w)
      | (Inr st, w) \<Rightarrow>
          if \<not> zc_private_stat (w_uid w) st \<or> \<not> alloc then (Inl (-1), w)
          else case read_whole fd (nat (st_size st)) [] w of
            (None, w) \<Rightarrow> (Inl (-1), w)
          | (Some data, w) \<Rightarrow>
              (case sys_read fd 1 w of (extra, w) \<Rightarrow>
                 if extra \<noteq> Inr [] \<or> CHR 0x00 \<in> set data then (Inl (-1), w) else (Inr data, w)))"

text \<open>\<open>Inr data\<close> for 1, \<open>Inl 0\<close> for absent; a NULL path is not represented.\<close>

definition zc_private_read :: "bool \<Rightarrow> string \<Rightarrow> world \<Rightarrow> (int + char list) \<times> world" where
  "zc_private_read alloc path w =
     (if \<not> has_prefix ''/'' path \<or> length path \<ge> PATH_MAX then (Inl (-1), w)
      else case sys_open ''/'' [O_RDONLY, O_DIRECTORY, O_CLOEXEC] 0 w of
        (Inl e, w) \<Rightarrow> (Inl (-1), w)
      | (Inr dir, w) \<Rightarrow>
          (case zc_private_walk (components (tl path)) dir w of
             (Inl code, w) \<Rightarrow> (Inl code, w)
           | (Inr (dir, leaf), w) \<Rightarrow>
               (case sys_openat dir leaf [O_RDONLY, O_NONBLOCK, O_NOFOLLOW, O_CLOEXEC] 0 w of
                  (Inl e, w) \<Rightarrow> (Inl (if e = ENOENT then 0 else -1), sys_close dir w)
                | (Inr fd, w) \<Rightarrow>
                    (case zc_private_contents alloc fd w of (result, w) \<Rightarrow>
                       (result, sys_close dir (sys_close fd w))))))"

section \<open>Origins and links\<close>

text \<open>What libcurl's URL parser finds in a URL it accepts.\<close>

record url_parts =
  u_host :: "string option"
  u_port :: "string option"
  u_user :: bool
  u_password :: bool

type_synonym curl_url = "string \<Rightarrow> url_parts option"

definition origin_char :: "char \<Rightarrow> bool" where
  "origin_char c \<longleftrightarrow> \<not> (byte c \<le> 32 \<or> byte c \<ge> 127 \<or> c \<in> set ''@?#%'' \<or> byte c = 92)"

definition origin_authority :: "string \<Rightarrow> string" where
  "origin_authority origin = takeWhile (\<lambda>c. c \<noteq> CHR ''/'') (drop 8 origin)"

text \<open>The checks before the URL is parsed; a slash may only be the last character.\<close>

definition origin_text_ok :: "string \<Rightarrow> bool" where
  "origin_text_ok origin \<longleftrightarrow> has_prefix ''https://'' origin \<and> length origin \<le> 4096 \<and> list_all origin_char origin \<and>
     drop 8 origin \<noteq> [] \<and> length (drop 8 origin) \<le> Suc (length (origin_authority origin)) \<and>
     origin_authority origin \<noteq> [] \<and> last (origin_authority origin) \<noteq> CHR '':''"

definition ldh :: "char \<Rightarrow> bool" where
  "ldh c \<longleftrightarrow> (97 \<le> byte c \<and> byte c \<le> 122) \<or> (65 \<le> byte c \<and> byte c \<le> 90) \<or> (48 \<le> byte c \<and> byte c \<le> 57) \<or> c = CHR ''-''"

text \<open>The loop over a name: \<open>label\<close> characters of the current label read, \<open>prev\<close> the last character.\<close>

fun host_loop :: "nat \<Rightarrow> char \<Rightarrow> string \<Rightarrow> bool" where
  "host_loop label prev [] = True"
| "host_loop label prev (c # cs) =
     (if c = CHR ''.'' then (if label = 0 \<or> prev = CHR ''-'' then False else host_loop 0 c cs)
      else if \<not> ldh c \<or> (label = 0 \<and> c = CHR ''-'') \<or> Suc label > 63 then False
      else host_loop (Suc label) c cs)"

definition host_name_ok :: "string \<Rightarrow> bool" where
  "host_name_ok host \<longleftrightarrow> \<not> (length host > 253 \<or> hd host = CHR ''.'' \<or> hd host = CHR ''-'') \<and>
     host_loop 0 (CHR 0x00) host \<and> last host \<noteq> CHR ''-''"

text \<open>
  \<open>strtol\<close> in base 10: leading white space, an optional sign, the digits (saturated to 64 bits);
  \<open>None\<close> if something follows them or there are none.
\<close>

definition c_space :: "char \<Rightarrow> bool" where
  "c_space c \<longleftrightarrow> byte c = 32 \<or> (9 \<le> byte c \<and> byte c \<le> 13)"

definition digit_value :: "char \<Rightarrow> nat" where "digit_value c = byte c - 48"

definition decimal_digit :: "char \<Rightarrow> bool" where "decimal_digit c \<longleftrightarrow> 48 \<le> byte c \<and> byte c \<le> 57"

definition saturate :: "int \<Rightarrow> int" where
  "saturate i = max (- (2 ^ 63)) (min (2 ^ 63 - 1) i)"

definition strtol_all :: "string \<Rightarrow> int option" where
  "strtol_all text_of =
     (let body = dropWhile c_space text_of;
          sign = (if has_prefix ''-'' body then -1 else 1 :: int);
          ds = (if has_prefix ''-'' body \<or> has_prefix ''+'' body then tl body else body)
      in if ds = [] \<or> \<not> list_all decimal_digit ds then None
         else Some (saturate (sign * int (foldl (\<lambda>n c. n * 10 + digit_value c) 0 ds))))"

definition port_ok :: "string \<Rightarrow> bool" where
  "port_ok port = (case strtol_all port of None \<Rightarrow> False | Some n \<Rightarrow> n > 0 \<and> n \<le> 65535)"

text \<open>\<open>handle\<close>: whether \<open>curl_url\<close> returned one.\<close>

definition zc_origin_valid :: "bool \<Rightarrow> curl_url \<Rightarrow> string \<Rightarrow> bool" where
  "zc_origin_valid handle parse origin =
     (if \<not> origin_text_ok origin \<or> \<not> handle then False
      else case parse origin of
        None \<Rightarrow> False
      | Some parts \<Rightarrow>
          (case u_host parts of
             None \<Rightarrow> False
           | Some host \<Rightarrow>
               if host = [] \<or> (\<not> has_prefix ''['' host \<and> \<not> host_name_ok host) then False
               else (case u_port parts of None \<Rightarrow> True | Some port \<Rightarrow> port_ok port)))"

definition url_char :: "char \<Rightarrow> bool" where
  "url_char c \<longleftrightarrow> \<not> (byte c \<le> 32 \<or> byte c = 127 \<or> byte c = 92)"

text \<open>The host of a link, if it fits in \<open>room\<close> bytes with its NUL.\<close>

definition zc_url_host :: "bool \<Rightarrow> curl_url \<Rightarrow> string \<Rightarrow> nat \<Rightarrow> string option" where
  "zc_url_host handle parse link room =
     (let scheme = (if has_header ''https://'' link then Some 8 else if has_header ''http://'' link then Some 7 else None)
      in if length link > 8192 \<or> \<not> list_all url_char link then None
         else case scheme of
           None \<Rightarrow> None
         | Some k \<Rightarrow>
             (let authority = drop k link
              in if authority = [] \<or> hd authority \<in> set ''/?#'' \<or> \<not> handle then None
                 else case parse link of
                   None \<Rightarrow> None
                 | Some parts \<Rightarrow>
                     (case u_host parts of
                        None \<Rightarrow> None
                      | Some host \<Rightarrow> if host = [] \<or> length host \<ge> room \<or> u_user parts \<or> u_password parts then None
                          else Some host)))"

text \<open>\<open>zc_url_open\<close>: the link handed to the desktop, if any, and the result.\<close>

definition zc_url_open :: "bool \<Rightarrow> curl_url \<Rightarrow> string \<Rightarrow> bool \<times> string option" where
  "zc_url_open handle parse link = (case zc_url_host handle parse link 512 of
     None \<Rightarrow> (False, None) | Some host \<Rightarrow> (True, Some link))"

section \<open>What reading a private file establishes\<close>

text \<open>Each directory on the way is owned and protected, starting with the first.\<close>

fun zc_trusted :: "world \<Rightarrow> ino \<Rightarrow> string list \<Rightarrow> bool" where
  "zc_trusted w d [] = True"
| "zc_trusted w d (c # cs) = ((\<exists>nd. w_inodes w d = Some nd \<and> ancestor_ok (w_uid w) (stat_of d nd)) \<and>
     (case entry w d c of None \<Rightarrow> False | Some i \<Rightarrow> zc_trusted w i cs))"

definition zc_private_inode :: "nat \<Rightarrow> inode \<Rightarrow> bool" where
  "zc_private_inode uid nd \<longleftrightarrow> i_uid nd = uid \<and> i_mode nd AND M0777 = M0700"

lemma zc_private_walk_effect:
  assumes "zc_private_walk parts dir w = (r, v)" and "wf_fds w0" and "holds w0 w dir d" and "same_disk w0 w"
    and "\<forall>c \<in> set parts. CHR ''/'' \<notin> set c"
  shows "same_disk w0 v \<and> (case r of
      Inl code \<Rightarrow> freed w0 v \<and> (code = -1 \<or> code = 0 \<and> chain w0 d parts = None)
    | Inr (fd, leaf) \<Rightarrow> list_all media_component parts \<and> parts \<noteq> [] \<and> leaf = last parts \<and>
        (\<exists>i nd. chain w0 d (butlast parts) = Some i \<and> zc_trusted w0 d (butlast parts) \<and>
           w_inodes w0 i = Some nd \<and> zc_private_inode (w_uid w0) nd \<and> holds w0 v fd i))"
  using assms(1,3,4,5)
proof (induction parts arbitrary: dir w d)
  case Nil
  then show ?case using holds_closed [OF Nil(2) assms(2)] by auto
next
  case (Cons part rest)
  note h = Cons.prems(2) and sd = Cons.prems(3)
  have failed: ?case if "r = Inl (-1)" "freed w0 v" "same_disk w0 v" using that by simp
  show ?case
  proof (cases "part = '''' \<or> part = ''.'' \<or> part = ''..''")
    case True
    then have "r = Inl (-1)" "v = sys_close dir w" using Cons.prems(1) by auto
    then show ?thesis using holds_closed [OF h assms(2)] sd by (intro failed) auto
  next
    case False
    then have mc: "media_component part" using Cons.prems(4) by (auto simp: media_component_def)
    note pl = part_plain [OF mc]
    obtain y t where y: "sys_fstat dir w = (y, t)" by fastforce
    have q: "quiet w t" using y fstat_okD fstat_errD by (cases y) blast+
    note ht = holds_quiet [OF h q] and sdt = same_disk_quiet [OF sd q]
    have uid: "w_uid t = w_uid w0" using sdt by (simp add: same_disk_lookups)
    show ?thesis
    proof (cases "\<exists>st. y = Inr st \<and> (if rest = [] then zc_private_dir (w_uid t) st else ancestor_ok (w_uid t) st)")
      case bad: False
      then have "r = Inl (-1)" "v = sys_close dir t"
        using Cons.prems(1) False y by (auto split: sum.splits if_splits)
      then show ?thesis using holds_closed [OF ht assms(2)] sdt by (intro failed) auto
    next
      case True
      then obtain st where st: "y = Inr st"
        "if rest = [] then zc_private_dir (w_uid t) st else ancestor_ok (w_uid t) st" by blast
      obtain nd where nd: "w_inodes w0 d = Some nd" "st = stat_of d nd"
        using fstat_okD [of dir w st t] y st(1) holds_fd_ino [OF h] sd by (auto simp: same_disk_lookups)
      show ?thesis
      proof (cases "rest = []")
        case leaf: True
        then have "r = Inr (dir, part)" "v = t" using Cons.prems(1) False y st by auto
        moreover have "zc_private_inode (w_uid w0) nd"
          using st(2) leaf nd(2) uid by (simp add: zc_private_dir_def zc_private_inode_def stat_of_def)
        ultimately show ?thesis using leaf mc ht sdt nd(1) by auto
      next
        case more: False
        obtain x u where x: "sys_openat dir part [O_RDONLY, O_DIRECTORY, O_NOFOLLOW, O_CLOEXEC] 0 t = (x, u)"
          by fastforce
        show ?thesis
        proof (cases x)
          case (Inl e)
          then have q2: "quiet t u" using x openat_ro_errD [OF _ walk_flags pl] by blast
          have v: "r = Inl (if e = ENOENT then 0 else -1)" "v = sys_close dir u"
            using Cons.prems(1) False more y st x Inl by auto
          have "chain w0 d (part # rest) = None" if "e = ENOENT"
            using openat_ro_ENOENT [OF x [unfolded Inl that] walk_flags pl] holds_fd_ino [OF ht] sdt
            by (auto simp: same_disk_lookups)
          then show ?thesis
            using v holds_closed [OF holds_quiet [OF ht q2] assms(2)] same_disk_quiet [OF sdt q2] by simp
        next
          case (Inr nx)
          obtain i where i: "entry t d part = Some i" "opened t u nx i False"
            using openat_ro_okD [OF _ walk_flags pl] x Inr holds_fd_ino [OF ht] by fastforce
          have hu: "holds w0 (sys_close dir u) nx i" by (rule holds_step [OF assms(2) ht i(2)])
          have sdu: "same_disk w0 (sys_close dir u)" using same_disk_opened [OF sdt i(2)] by simp
          have rec: "zc_private_walk rest nx (sys_close dir u) = (r, v)"
            using Cons.prems(1) False more y st x Inr by auto
          have e0: "entry w0 d part = Some i" using i(1) same_disk_lookups(3) [OF sdt] by simp
          have "\<forall>c \<in> set rest. CHR ''/'' \<notin> set c" using Cons.prems(4) by simp
          from Cons.IH [OF rec hu sdu this] show ?thesis
            using more mc e0 nd st(2) uid by (auto split: sum.splits)
        qed
      qed
    qed
  qed
qed

lemma read_whole_effect:
  assumes "read_whole fd n got w = (r, v)" and "w_files w fd = Some f" and "file_bytes w (f_ino f) = Some bs"
    and "f_pos f = length got" and "got = take (length got) bs"
  shows "read_on w v fd \<and> (\<forall>data. r = Some data \<longrightarrow> data = take (length data) bs \<and>
    (length got \<le> n \<longrightarrow> length data = n) \<and> w_files v fd = Some (f\<lparr>f_pos := length data\<rparr>))"
  using assms
proof (induction fd n got w arbitrary: r v f rule: read_whole.induct)
  case (1 fd n got w)
  note unf = read_whole.simps [of fd n got w]
  show ?case
  proof (cases "length got < n")
    case False
    then have "r = Some got" "v = w" using unf "1.prems"(1) by auto
    then show ?thesis using "1.prems"(2,4,5) False by (simp add: read_on_quiet)
  next
    case True
    obtain x u where x: "sys_read fd (n - length got) w = (x, u)" by fastforce
    show ?thesis
    proof (cases x)
      case (Inl e)
      have q: "quiet w u" using x Inl sys_read_errD by blast
      show ?thesis
      proof (cases "e = EINTR")
        case False
        with unf "1.prems"(1) True x Inl read_on_quiet [OF q] show ?thesis by auto
      next
        case again: True
        then have "read_whole fd n got u = (r, v)" using unf "1.prems"(1) True x Inl by simp
        note rec = "1.IH"(1) [OF True x [symmetric] Inl again this]
        have "w_files u fd = Some f" "file_bytes u (f_ino f) = Some bs"
          using "1.prems"(2,3) q by (auto simp: quiet_def file_bytes_def same_disk_lookups)
        from rec [OF this "1.prems"(4,5)] show ?thesis using read_on_trans [OF read_on_quiet [OF q]] by blast
      qed
    next
      case (Inr part)
      from sys_read_okD [OF x [unfolded Inr]] "1.prems"(2,3) have
        rd: "read_on w u fd" "w_files u fd = Some (f\<lparr>f_pos := f_pos f + length part\<rparr>)"
          "part = take (length part) (drop (f_pos f) bs)" by auto
      show ?thesis
      proof (cases "part = []")
        case empty: True
        then have "r = None" "v = u" using unf "1.prems"(1) True x Inr by simp_all
        then show ?thesis using rd(1) by simp
      next
        case more: False
        then have rec: "read_whole fd n (got @ part) u = (r, v)" using unf "1.prems"(1) True x Inr by simp
        have "take (length got + length part) bs = take (length got) bs @ take (length part) (drop (length got) bs)"
          by (rule take_add)
        also have "\<dots> = got @ part" using rd(3) "1.prems"(4,5) by simp
        finally have pre: "got @ part = take (length (got @ part)) bs" by simp
        have fb: "file_bytes u (f_ino (f\<lparr>f_pos := f_pos f + length part\<rparr>)) = Some bs"
          using "1.prems"(3) rd(1) by (simp add: read_on_def same_disk_def file_bytes_def node_of_def)
        have pos: "f_pos (f\<lparr>f_pos := f_pos f + length part\<rparr>) = length (got @ part)" using "1.prems"(4) by simp
        have fits: "length (got @ part) \<le> n"
          using True read_script [OF x] Inr by auto
        have "read_on u v fd \<and> (\<forall>data. r = Some data \<longrightarrow> data = take (length data) bs \<and>
            (length (got @ part) \<le> n \<longrightarrow> length data = n) \<and> w_files v fd = Some (f\<lparr>f_pos := length data\<rparr>))"
          using "1.IH"(2) [OF True x [symmetric] Inr more rec rd(2) fb pos pre] by simp
        then show ?thesis using read_on_trans [OF rd(1)] fits by blast
      qed
    qed
  qed
qed

text \<open>\<open>zc_private_place w path d\<close>: the walk to the leaf of \<open>path\<close> ends in the private directory \<open>d\<close>.\<close>

definition zc_private_place :: "world \<Rightarrow> string \<Rightarrow> ino \<Rightarrow> bool" where
  "zc_private_place w path d \<longleftrightarrow> has_prefix ''/'' path \<and> length path < PATH_MAX \<and>
     list_all media_component (components (tl path)) \<and>
     chain w (w_root w) (butlast (components (tl path))) = Some d \<and>
     zc_trusted w (w_root w) (butlast (components (tl path))) \<and>
     (\<exists>nd. w_inodes w d = Some nd \<and> zc_private_inode (w_uid w) nd)"

definition zc_private_file :: "world \<Rightarrow> ino \<Rightarrow> string \<Rightarrow> char list \<Rightarrow> bool" where
  "zc_private_file w d n bs \<longleftrightarrow> (\<exists>i nd. entry w d n = Some i \<and> w_inodes w i = Some nd \<and> i_node nd = Regular bs \<and>
     i_uid nd = w_uid w \<and> i_mode nd AND M0777 = M0600 \<and> i_nlink nd = 1 \<and> bs \<noteq> [] \<and> length bs \<le> 1048576 \<and>
     CHR 0x00 \<notin> set bs)"

lemma zc_private_file_same: "same_disk w v \<Longrightarrow> zc_private_file v d n bs = zc_private_file w d n bs"
  by (simp add: zc_private_file_def same_disk_lookups)

lemma private_leaf_flags: "ro_flags [O_RDONLY, O_NONBLOCK, O_NOFOLLOW, O_CLOEXEC]"
  by (simp add: ro_flags_def)

lemma chain_snoc: "chain w d (ps @ [n]) = (case chain w d ps of None \<Rightarrow> None | Some i \<Rightarrow> entry w i n)"
  by (induction ps arbitrary: d) (auto split: option.splits)

lemma zc_private_contents_effect:
  assumes "zc_private_contents alloc fd w = (r, v)" and "w_files w fd = Some \<lparr>f_ino = i, f_pos = 0, f_wr = False\<rparr>"
    and "entry w d n = Some i"
  shows "read_on w v fd \<and> (case r of Inl code \<Rightarrow> code = -1 | Inr data \<Rightarrow> zc_private_file w d n data)"
proof -
  note def = assms(1) [unfolded zc_private_contents_def]
  obtain x u where x: "sys_fstat fd w = (x, u)" by fastforce
  have q: "quiet w u" using x fstat_okD fstat_errD by (cases x) blast+
  show ?thesis
  proof (cases "\<exists>st. x = Inr st \<and> zc_private_stat (w_uid u) st \<and> alloc")
    case False
    then have "r = Inl (-1)" "v = u" using def x by (auto split: sum.splits if_splits)
    then show ?thesis using read_on_quiet [OF q] by simp
  next
    case True
    then obtain st where st: "x = Inr st" "zc_private_stat (w_uid u) st" and al: "alloc" by blast
    obtain nd where nd: "w_inodes w i = Some nd" "st = stat_of i nd"
      using fstat_okD [of fd w st u] x st(1) assms(2) by (auto simp: fd_ino_def)
    have uid: "w_uid u = w_uid w" using q by (simp add: quiet_def same_disk_def)
    obtain bs where bs: "i_node nd = Regular bs"
      using st(2) nd(2) by (cases "i_node nd") (auto simp: zc_private_stat_def S_ISREG_def stat_of_def)
    have fb: "file_bytes u i = Some bs"
      using nd(1) bs q by (auto simp: quiet_def file_bytes_def same_disk_def node_of_def)
    have fu: "w_files u fd = Some \<lparr>f_ino = i, f_pos = 0, f_wr = False\<rparr>" using q assms(2) by (simp add: quiet_def)
    have size: "nat (st_size st) = length bs" using nd(2) bs by (simp add: stat_of_def)
    obtain y t where y: "read_whole fd (length bs) [] u = (y, t)" by fastforce
    from read_whole_effect [OF y fu] fb have
      rw: "read_on u t fd" "\<And>data. y = Some data \<Longrightarrow> data = bs" by auto
    have ro: "read_on w t fd" by (rule read_on_trans [OF read_on_quiet [OF q] rw(1)])
    note run = def [unfolded x st(1) prod.case sum.case size, simplified st(2) al, simplified, unfolded y prod.case]
    show ?thesis
    proof (cases y)
      case None
      then show ?thesis using run ro by auto
    next
      case (Some data)
      obtain z s where z: "sys_read fd 1 t = (z, s)" by fastforce
      have "read_on t s fd" using z sys_read_okD [of fd 1 t _ s] sys_read_errD [of fd 1 t _ s] read_on_quiet
        by (cases z) blast+
      then have ros: "read_on w s fd" by (rule read_on_trans [OF ro])
      have "v = s" "r = (if z \<noteq> Inr [] \<or> CHR 0x00 \<in> set data then Inl (-1) else Inr data)"
        using run Some z by (auto split: if_splits)
      moreover have "zc_private_file w d n bs" if "CHR 0x00 \<notin> set bs"
        using that assms(3) nd bs st(2) uid by (auto simp: zc_private_file_def zc_private_stat_def stat_of_def)
      ultimately show ?thesis using ros rw(2) Some by auto
    qed
  qed
qed

lemma zc_private_read_effect:
  assumes "zc_private_read alloc path w = (r, v)" and "wf_fds w"
  shows "same_disk w v \<and> w_files v = w_files w \<and> w_nextfd w \<le> w_nextfd v \<and> (case r of
      Inr data \<Rightarrow> \<exists>d. zc_private_place w path d \<and> zc_private_file w d (config_leaf path) data
    | Inl code \<Rightarrow> code = -1 \<or> code = 0 \<and> chain w (w_root w) (components (tl path)) = None)"
proof (cases "\<not> has_prefix ''/'' path \<or> length path \<ge> PATH_MAX")
  case True
  then show ?thesis using assms(1) by (auto simp: zc_private_read_def)
next
  case False
  let ?ps = "components (tl path)"
  note def = assms(1) [unfolded zc_private_read_def]
  obtain x u where x: "sys_open ''/'' [O_RDONLY, O_DIRECTORY, O_CLOEXEC] 0 w = (x, u)" by fastforce
  show ?thesis
  proof (cases x)
    case (Inl e)
    then have "quiet w u" using x by (auto dest: open_root_errD)
    then show ?thesis using Inl x False def by (auto simp: quiet_def)
  next
    case (Inr dir0)
    then have o: "opened w u dir0 (w_root w) False" using x by (auto dest: open_root_okD)
    obtain y t where y: "zc_private_walk ?ps dir0 u = (y, t)" by fastforce
    note eff = zc_private_walk_effect [OF y assms(2) opened_holds [OF o] same_disk_opened [OF same_disk_refl o]
        components_no_slash]
    show ?thesis
    proof (cases y)
      case (Inl code)
      then have "r = Inl code" "v = t" using def x Inr False y by auto
      then show ?thesis using eff Inl by (auto simp: freed_def)
    next
      case leafed: (Inr dl)
      obtain dir leaf where dl: "dl = (dir, leaf)" by fastforce
      from eff leafed dl obtain d nd where d: "list_all media_component ?ps" "?ps \<noteq> []" "leaf = last ?ps"
        "chain w (w_root w) (butlast ?ps) = Some d" "zc_trusted w (w_root w) (butlast ?ps)" "w_inodes w d = Some nd"
        "zc_private_inode (w_uid w) nd" "holds w t dir d" "same_disk w t" by auto
      have place: "zc_private_place w path d" using d False by (auto simp: zc_private_place_def)
      have leaf: "leaf = config_leaf path" using d(3) by (simp add: config_leaf_def)
      have pl: "plain_name leaf" using d(1-3) part_plain by (simp add: list_all_iff)
      have wf: "wf_fds t" by (rule holds_wf [OF d(8) assms(2)])
      have balance: "(w_files t)(dir := None) = w_files w"
        using d(8) assms(2) by (auto simp: holds_def wf_fds_def fun_eq_iff)
      have up: "w_nextfd w \<le> w_nextfd t" using d(8) by (auto simp: holds_def)
      note at = holds_fd_ino [OF d(8)]
      note run = def [unfolded x Inr prod.case sum.case y leafed dl]
      obtain z s where z: "sys_openat dir leaf [O_RDONLY, O_NONBLOCK, O_NOFOLLOW, O_CLOEXEC] 0 t = (z, s)" by fastforce
      show ?thesis
      proof (cases z)
        case (Inl e)
        then have q: "quiet t s" using z openat_ro_errD [OF _ private_leaf_flags pl] by blast
        have "r = Inl (if e = ENOENT then 0 else -1)" "v = sys_close dir s" using run z Inl False by auto
        moreover have "chain w (w_root w) ?ps = None" if "e = ENOENT"
        proof -
          have "entry w d leaf = None"
            using openat_ro_ENOENT [OF z [unfolded Inl that] private_leaf_flags pl] at d(9)
            by (auto simp: same_disk_lookups)
          then show ?thesis using chain_snoc [of w "w_root w" "butlast ?ps" leaf] d(2-4) by simp
        qed
        ultimately show ?thesis using same_disk_quiet [OF d(9) q] q balance up by (auto simp: quiet_def)
      next
        case (Inr fd)
        obtain i where i: "entry t d leaf = Some i" "opened t s fd i False"
          using openat_ro_okD [OF _ private_leaf_flags pl] z Inr at by fastforce
        obtain res s1 where c: "zc_private_contents alloc fd s = (res, s1)" by fastforce
        have sds: "same_disk w s" by (rule same_disk_opened [OF d(9) i(2)])
        have fds: "w_files s fd = Some \<lparr>f_ino = i, f_pos = 0, f_wr = False\<rparr>" using i(2) by (simp add: opened_def)
        have es: "entry s d leaf = Some i" using i same_disk_lookups(3) [of t s] by (simp add: opened_def)
        note ce = zc_private_contents_effect [OF c fds es]
        have v: "r = res" "v = sys_close dir (sys_close fd s1)" using run z Inr c False by auto
        have free: "w_files t fd = None" by (rule opened_fresh [OF i(2) wf])
        have "(w_files s1)(fd := None) = (w_files s)(fd := None)" using ce by (simp add: read_on_def)
        also have "\<dots> = w_files t" using i(2) free by (auto simp: opened_def fun_eq_iff)
        finally have "w_files v = w_files w" unfolding v(2) using balance by simp
        moreover have "same_disk w v" unfolding v(2) using ce sds by (auto simp: read_on_def intro: same_disk_trans)
        moreover have "w_nextfd w \<le> w_nextfd v" unfolding v(2) using ce i(2) up by (auto simp: read_on_def opened_def)
        ultimately show ?thesis
          using ce v(1) place leaf zc_private_file_same [OF sds] by (auto split: sum.splits)
      qed
    qed
  qed
qed

section \<open>Credentials\<close>

text \<open>
  What OpenSSL answers about PEM data, certificates \<open>'c\<close> and keys \<open>'k\<close>. \<open>k_verify root cert\<close> is the
  verification for the client purpose in a store that holds only \<open>root\<close>, with its preparation
  (\<open>Inr\<close> if it succeeds, \<open>Inl\<close> the error of the context otherwise); \<open>k_not_after\<close> is the broken-down
  end of validity, with a year of four digits.
\<close>

record ('c, 'k) x509 =
  k_alloc :: bool
  k_cert :: "char list \<Rightarrow> 'c option"
  k_key :: "char list \<Rightarrow> 'k option"
  k_check_ca :: "'c \<Rightarrow> int"
  k_has_eku :: "'c \<Rightarrow> bool"
  k_client_auth :: "'c \<Rightarrow> bool"
  k_check_key :: "'c \<Rightarrow> 'k \<Rightarrow> int"
  k_verify :: "'c \<Rightarrow> 'c \<Rightarrow> int + unit"
  k_error_string :: "int \<Rightarrow> string"
  k_digest :: "'c \<Rightarrow> nat list option"
  k_not_after :: "'c \<Rightarrow> tm option"

record identity =
  id_fingerprint :: string
  id_expires :: string
  id_expires_at :: int

definition no_identity :: identity where
  "no_identity = \<lparr>id_fingerprint = '''', id_expires = '''', id_expires_at = 0\<rparr>"

definition identity_of :: "nat list \<Rightarrow> tm \<Rightarrow> identity" where
  "identity_of digest expires =
     \<lparr>id_fingerprint = hex_bytes digest, id_expires = iso_date expires @ ''Z'', id_expires_at = timegm expires\<rparr>"

definition client_leaf :: "('c, 'k) x509 \<Rightarrow> 'c \<Rightarrow> 'c \<Rightarrow> 'k \<Rightarrow> bool" where
  "client_leaf x root cert key \<longleftrightarrow> \<not> (k_check_ca x root \<le> 0 \<or> k_check_ca x cert > 0 \<or>
     (\<not> k_has_eku x cert \<or> \<not> k_client_auth x cert) \<or> k_check_key x cert key \<noteq> 1)"

text \<open>\<open>Inr\<close> the root and the identity, \<open>Inl\<close> the error.\<close>

definition credentials :: "('c, 'k) x509 \<Rightarrow> char list \<Rightarrow> char list \<Rightarrow> char list \<Rightarrow> zc_error \<Rightarrow> zc_error + 'c \<times> identity" where
  "credentials x ca cert key e =
     (case (k_cert x ca, k_cert x cert, k_key x key) of
        (Some root, Some leaf, Some private) \<Rightarrow>
          if \<not> k_alloc x
          then Inl (failure ZC_CREDENTIALS ''Cannot read PEM CA/certificate or unencrypted private key. Repair the credential files, then Reconnect.'' e)
          else if \<not> client_leaf x root leaf private
          then Inl (failure ZC_CREDENTIALS ''Expected a CA, a non-CA clientAuth certificate and its matching private key. Repair credentials, then Reconnect.'' e)
          else (case k_verify x root leaf of
            Inl code \<Rightarrow> Inl (failure ZC_CREDENTIALS (''Client credential verification failed: '' @ k_error_string x code @
              ''. Renew or repair credentials, then Reconnect.'') (e\<lparr>e_verify := code\<rparr>))
          | Inr _ \<Rightarrow>
              (case (k_digest x leaf, k_not_after x leaf) of
                 (Some digest, Some expires) \<Rightarrow>
                   if length digest \<noteq> 32
                   then Inl (failure ZC_CREDENTIALS ''Cannot inspect client certificate identity or expiry.'' e)
                   else Inr (root, identity_of digest expires)
               | _ \<Rightarrow> Inl (failure ZC_CREDENTIALS ''Cannot inspect client certificate identity or expiry.'' e)))
      | _ \<Rightarrow> Inl (failure ZC_CREDENTIALS ''Cannot read PEM CA/certificate or unencrypted private key. Repair the credential files, then Reconnect.'' e))"

section \<open>A new transport\<close>

text \<open>What the libraries report: the results of their set-up calls, their versions, their parsers.\<close>

record ('c, 'k) libraries =
  l_init :: bool
  l_alloc :: bool
  l_version :: nat
  l_http2 :: bool
  l_ssl :: "string option"
  l_openssl :: nat
  l_handle :: bool
  l_parse :: curl_url
  l_strdup :: bool
  l_read :: bool
  l_x509 :: "('c, 'k) x509"
  l_multi :: bool

definition trim_origin :: "string \<Rightarrow> string" where
  "trim_origin origin = (if last origin = CHR ''/'' then butlast origin else origin)"

text \<open>The loop over the three files: the contents, or the error of the first that is missing or unsafe.\<close>

fun read_credentials :: "bool \<Rightarrow> (string \<times> string) list \<Rightarrow> zc_error \<Rightarrow> world \<Rightarrow> (zc_error + char list list) \<times> world" where
  "read_credentials alloc [] e w = (Inr [], w)"
| "read_credentials alloc ((label, path) # rest) e w =
     (case zc_private_read alloc path w of
        (Inl code, w) \<Rightarrow> (Inl (failure ZC_CREDENTIALS (label @ '' missing or unsafe. Use an absolute path, owned 0600 file in a 0700 directory, without symlinks; then Reconnect.'') e), w)
      | (Inr data, w) \<Rightarrow>
          (case read_credentials alloc rest e w of
             (Inl e, w) \<Rightarrow> (Inl e, w)
           | (Inr datas, w) \<Rightarrow> (Inr (data # datas), w)))"

definition zc_net_new :: "('c, 'k) libraries \<Rightarrow> string \<Rightarrow> string \<Rightarrow> string \<Rightarrow> string \<Rightarrow> world \<Rightarrow>
    (net option \<times> zc_error \<times> identity) \<times> world" where
  "zc_net_new l origin ca cert key w =
     (let refuse = (\<lambda>m. (None, failure ZC_CONFIG m no_error, no_identity)) in
      if \<not> l_init l then (refuse ''libcurl initialization failed.'', w)
      else if \<not> l_alloc l then (refuse ''Transport allocation failed.'', w)
      else if l_version l < 0x080a00 \<or> \<not> l_http2 l
      then (refuse ''Zimbr requires libcurl 8.10 or newer with HTTP/2 support. Install a supported build.'', w)
      else if (case l_ssl l of None \<Rightarrow> True | Some version \<Rightarrow> \<not> has_prefix ''OpenSSL/3.'' version) \<or> l_openssl l < 0x30000000
      then (refuse ''Zimbr requires libcurl with the OpenSSL 3 TLS backend. Install a supported build.'', w)
      else if \<not> zc_origin_valid (l_handle l) (l_parse l) origin
      then (refuse ''relay_url must be an HTTPS origin with a hostname and optional port only.'', w)
      else if \<not> l_strdup l then (refuse ''Transport allocation failed.'', w)
      else case read_credentials (l_read l) [(''CA file'', ca), (''Client certificate'', cert), (''Client key'', key)] no_error w of
        (Inl e, w) \<Rightarrow> ((None, e, no_identity), w)
      | (Inr data, w) \<Rightarrow>
          (case credentials (l_x509 l) (data ! 0) (data ! 1) (data ! 2) no_error of
             Inl e \<Rightarrow> ((None, e, no_identity), w)
           | Inr (root, identity) \<Rightarrow>
               if \<not> l_multi l then ((None, failure ZC_CONFIG ''Transport allocation failed.'' no_error, identity), w)
               else ((Some (fresh_net (trim_origin origin) (data ! 0) (data ! 1) (data ! 2)), no_error, identity), w)))"

section \<open>What the origin checks establish\<close>

text \<open>The authority of a URL: what stands between its scheme and the first slash, query or fragment.\<close>

definition url_authority :: "string \<Rightarrow> string" where
  "url_authority url = takeWhile (\<lambda>c. c \<notin> set ''/?#'') (drop 8 url)"

lemma has_prefix_split: "has_prefix p s \<Longrightarrow> s = p @ drop (length p) s"
  by (metis append_take_drop_id has_prefix_def)

lemma origin_text_parts:
  assumes "origin_text_ok origin"
  shows "trim_origin origin = ''https://'' @ origin_authority origin" and "origin_authority origin \<noteq> []"
    and "\<forall>c \<in> set (origin_authority origin). 32 < byte c \<and> byte c < 127 \<and> c \<notin> set ''/@?#%''"
proof -
  let ?a = "drop 8 origin"
  have hp: "has_prefix ''https://'' origin" and ne: "origin_authority origin \<noteq> []"
    and len: "length ?a \<le> Suc (length (origin_authority origin))" and ch: "list_all origin_char origin"
    using assms by (auto simp: origin_text_ok_def)
  have "length ''https://'' = 8" by simp
  then have o: "origin = ''https://'' @ ?a" using has_prefix_split [OF hp] by (simp only:)
  have a: "?a = origin_authority origin @ dropWhile (\<lambda>c. c \<noteq> CHR ''/'') ?a"
    by (simp add: origin_authority_def)
  show "origin_authority origin \<noteq> []" by (rule ne)
  show "trim_origin origin = ''https://'' @ origin_authority origin"
  proof (cases "dropWhile (\<lambda>c. c \<noteq> CHR ''/'') ?a")
    case Nil
    then have "?a = origin_authority origin" using a by (simp only: append_Nil2)
    note e = o [unfolded this]
    have "last origin = last (origin_authority origin)" using e ne by (metis last_appendR)
    moreover have "last (origin_authority origin) \<noteq> CHR ''/''"
      using set_takeWhileD [of "last (origin_authority origin)" "\<lambda>c. c \<noteq> CHR ''/''" ?a] ne last_in_set
      by (fastforce simp: origin_authority_def)
    ultimately show ?thesis using e by (simp add: trim_origin_def)
  next
    case (Cons c cs)
    moreover have "c = CHR ''/''" using hd_dropWhile [of "\<lambda>c. c \<noteq> CHR ''/''" ?a] Cons by auto
    moreover have "cs = []" using len a Cons by (metis length_append length_Cons add_le_cancel_left add_Suc_right Suc_le_mono le_zero_eq length_0_conv add.right_neutral nat_add_left_cancel_le)
    ultimately have "?a = origin_authority origin @ ''/''" using a Cons by (simp only:)
    then have "origin = (''https://'' @ origin_authority origin) @ ''/''" using o by (simp only: append_assoc)
    then show ?thesis by (metis trim_origin_def last_snoc butlast_snoc)
  qed
  show "\<forall>c \<in> set (origin_authority origin). 32 < byte c \<and> byte c < 127 \<and> c \<notin> set ''/@?#%''"
  proof
    fix c assume c: "c \<in> set (origin_authority origin)"
    then have "c \<noteq> CHR ''/''" "c \<in> set ?a" using set_takeWhileD by (fastforce simp: origin_authority_def)+
    moreover have "c \<in> set origin" using calculation(2) by (meson in_set_dropD)
    then have "origin_char c" using ch by (simp add: list_all_iff)
    ultimately show "32 < byte c \<and> byte c < 127 \<and> c \<notin> set ''/@?#%''" by (auto simp: origin_char_def)
  qed
qed

lemma origin_request_authority:
  assumes "origin_text_ok origin" and "has_prefix ''/'' path"
  shows "url_authority (trim_origin origin @ path) = origin_authority origin"
proof -
  note p = origin_text_parts [OF assms(1)]
  obtain rest where "path = CHR ''/'' # rest" using assms(2) has_prefix_split [of "''/''" path] by auto
  moreover have "\<forall>c \<in> set (origin_authority origin). c \<notin> set ''/?#''" using p(3) by auto
  ultimately show ?thesis by (simp add: url_authority_def p(1) takeWhile_append2)
qed

section \<open>Host names\<close>

text \<open>A label of a host name, and one that may still grow: it may end in a hyphen or be empty.\<close>

definition dns_label :: "string \<Rightarrow> bool" where
  "dns_label l \<longleftrightarrow> l \<noteq> [] \<and> length l \<le> 63 \<and> list_all ldh l \<and> hd l \<noteq> CHR ''-'' \<and> last l \<noteq> CHR ''-''"

definition label_start :: "string \<Rightarrow> bool" where
  "label_start l \<longleftrightarrow> length l \<le> 63 \<and> list_all ldh l \<and> (l \<noteq> [] \<longrightarrow> hd l \<noteq> CHR ''-'')"

lemma dns_label_start: "dns_label l \<longleftrightarrow> label_start l \<and> l \<noteq> [] \<and> last l \<noteq> CHR ''-''"
  by (auto simp: dns_label_def label_start_def)

definition host_labels :: "string \<Rightarrow> string list" where
  "host_labels host = split_on (\<lambda>c. c = CHR ''.'') host"

lemma label_start_snoc:
  "label_start (l @ [c]) \<longleftrightarrow> label_start l \<and> ldh c \<and> (l = [] \<longrightarrow> c \<noteq> CHR ''-'') \<and> length l < 63"
  by (cases l) (auto simp: label_start_def)

lemma host_labels_dot: "CHR ''.'' \<notin> set l \<Longrightarrow> host_labels (l @ CHR ''.'' # cs) = l # host_labels cs"
  unfolding host_labels_def by (rule split_on_append_sep) auto

lemma host_labels_one: "CHR ''.'' \<notin> set l \<Longrightarrow> host_labels l = [l]"
  unfolding host_labels_def by (rule split_on_none) auto

lemma host_labels_ne [simp]: "host_labels s \<noteq> []"
  by (simp add: host_labels_def)

lemma ldh_no_dot: "\<not> ldh (CHR ''.'')"
  by (simp add: ldh_def)

lemma host_labels_first:
  "CHR ''.'' \<notin> set l \<Longrightarrow> \<exists>m ms. host_labels (l @ cs) = (l @ m) # ms"
proof (induction cs arbitrary: l)
  case Nil
  then show ?case by (simp add: host_labels_one)
next
  case (Cons c cs)
  show ?case
  proof (cases "c = CHR ''.''")
    case True
    then show ?thesis using host_labels_dot [OF Cons.prems] by auto
  next
    case False
    then show ?thesis using Cons.IH [of "l @ [c]"] Cons.prems by auto
  qed
qed

lemma host_loop_labels:
  "CHR ''.'' \<notin> set l \<Longrightarrow> label_start l \<Longrightarrow> (l \<noteq> [] \<longrightarrow> prev = last l) \<Longrightarrow>
   host_loop (length l) prev cs \<longleftrightarrow>
     list_all dns_label (butlast (host_labels (l @ cs))) \<and> label_start (last (host_labels (l @ cs)))"
proof (induction cs arbitrary: l prev)
  case Nil
  then show ?case by (simp add: host_labels_one)
next
  case (Cons c cs)
  show ?case
  proof (cases "c = CHR ''.''")
    case True
    have "label_start []" by (simp add: label_start_def)
    with Cons.IH [of "[]" c] have "host_loop 0 c cs \<longleftrightarrow>
        list_all dns_label (butlast (host_labels cs)) \<and> label_start (last (host_labels cs))" by simp
    then show ?thesis
      using True Cons.prems(2,3) host_labels_dot [OF Cons.prems(1), of cs] by (auto simp: dns_label_start [of l])
  next
    case dot: False
    show ?thesis
    proof (cases "label_start (l @ [c])")
      case True
      then have "host_loop (length l) prev (c # cs) = host_loop (length (l @ [c])) c cs"
        using dot by (auto simp: label_start_snoc)
      moreover have "CHR ''.'' \<notin> set (l @ [c])" using Cons.prems(1) dot by auto
      ultimately show ?thesis using Cons.IH [OF _ True, of c] by simp
    next
      case False
      then have no: "\<not> host_loop (length l) prev (c # cs)"
        using dot Cons.prems(2) by (auto simp: label_start_snoc)
      have "CHR ''.'' \<notin> set (l @ [c])" using Cons.prems(1) dot by auto
      from host_labels_first [OF this, of cs] obtain m ms where
        h: "host_labels (l @ c # cs) = (l @ [c] @ m) # ms" by auto
      have "\<not> label_start (l @ [c] @ m)"
        using False by (cases l) (auto simp: label_start_def)
      then show ?thesis using no h by (cases ms) (auto simp: dns_label_start)
    qed
  qed
qed

lemma last_label_last:
  "host \<noteq> [] \<Longrightarrow> last (host_labels host) = [] \<longleftrightarrow> last host = CHR ''.''"
  "last (host_labels host) \<noteq> [] \<Longrightarrow> last (last (host_labels host)) = last host"
proof -
  have *: "last (host_labels (l @ cs)) = [] \<and> l @ cs \<noteq> [] \<longrightarrow> last (l @ cs) = CHR ''.''"
    "last (host_labels (l @ cs)) \<noteq> [] \<longrightarrow> last (last (host_labels (l @ cs))) = last (l @ cs) \<and> last (l @ cs) \<noteq> CHR ''.''"
    if "CHR ''.'' \<notin> set l" for l cs
  proof -
    have "(last (host_labels (l @ cs)) = [] \<and> l @ cs \<noteq> [] \<longrightarrow> last (l @ cs) = CHR ''.'') \<and>
      (last (host_labels (l @ cs)) \<noteq> [] \<longrightarrow> last (last (host_labels (l @ cs))) = last (l @ cs) \<and> last (l @ cs) \<noteq> CHR ''.'')"
      using that
    proof (induction cs arbitrary: l)
      case Nil
      then show ?case by (cases l rule: rev_cases) (auto simp: host_labels_one)
    next
      case (Cons c cs)
      show ?case
      proof (cases "c = CHR ''.''")
        case True
        have "cs = [] \<Longrightarrow> host_labels cs = [[]]" by (simp add: host_labels_def)
        then show ?thesis using True Cons.IH [of "[]"] host_labels_dot [OF Cons.prems, of cs] by (cases "cs = []") auto
      next
        case False
        then show ?thesis using Cons.IH [of "l @ [c]"] Cons.prems by auto
      qed
    qed
    then show "last (host_labels (l @ cs)) = [] \<and> l @ cs \<noteq> [] \<longrightarrow> last (l @ cs) = CHR ''.''"
      "last (host_labels (l @ cs)) \<noteq> [] \<longrightarrow> last (last (host_labels (l @ cs))) = last (l @ cs) \<and> last (l @ cs) \<noteq> CHR ''.''"
      by blast+
  qed
  show "host \<noteq> [] \<Longrightarrow> last (host_labels host) = [] \<longleftrightarrow> last host = CHR ''.''" using * [of "[]" host] by auto
  show "last (host_labels host) \<noteq> [] \<Longrightarrow> last (last (host_labels host)) = last host" using *(2) [of "[]" host] by auto
qed

lemma host_name_labels:
  assumes "host \<noteq> []"
  shows "host_name_ok host \<longleftrightarrow> length host \<le> 253 \<and> list_all dns_label (butlast (host_labels host)) \<and>
    (dns_label (last (host_labels host)) \<or> last (host_labels host) = [] \<and> butlast (host_labels host) \<noteq> [])"
proof -
  let ?b = "butlast (host_labels host)" and ?l = "last (host_labels host)"
  have loop: "host_loop 0 (CHR 0x00) host \<longleftrightarrow> list_all dns_label ?b \<and> label_start ?l"
    using host_loop_labels [of "[]" "CHR 0x00" host] by (simp add: label_start_def)
  note l = last_label_last(1) [OF assms] last_label_last(2) [of host]
  obtain c cs where c: "host = c # cs" using assms by (cases host) auto
  have first: "c \<noteq> CHR ''.'' \<and> c \<noteq> CHR ''-''" if "list_all dns_label ?b" "label_start ?l" "?b \<noteq> [] \<or> ?l \<noteq> []"
  proof -
    have dot: "host_labels host = [] # host_labels cs" if "c = CHR ''.''"
      using host_labels_dot [of "[]" cs] that c by simp
    have h: "\<exists>m ms. host_labels host = (c # m) # ms" if "c \<noteq> CHR ''.''"
      using host_labels_first [of "[c]" cs] that c by auto
    show ?thesis
    proof (cases "c = CHR ''.''")
      case True
      with dot have "[] \<in> set ?b" by simp
      then show ?thesis using that(1) by (auto simp: list_all_iff dns_label_def)
    next
      case False
      with h obtain m ms where m: "host_labels host = (c # m) # ms" by blast
      then show ?thesis using that False by (cases ms) (auto simp: dns_label_def label_start_def)
    qed
  qed
  have one: "?b \<noteq> [] \<or> ?l \<noteq> []"
  proof (rule ccontr)
    assume "\<not> ?thesis"
    then have "host_labels host = [[]]" by (metis append_butlast_last_id append_Nil host_labels_ne)
    then show False using host_labels_dot [of "[]" cs] host_labels_first [of "[c]" cs] c not_sym [OF host_labels_ne [of cs]]
      by (cases "c = CHR ''.''") auto
  qed
  have "label_start []" by (simp add: label_start_def)
  then show ?thesis
    unfolding host_name_ok_def loop using first one l c by (cases "?l = []") (auto simp: dns_label_start)
qed

text \<open>
  C21: The check of a host name, a loop over its characters, accepts exactly the names of at most 253
  characters whose labels between dots have 1 to 63 letters, digits and hyphens and neither start nor
  end with a hyphen; one final dot is allowed.
\<close>

theorem host_name_ok_labels:
  assumes "host \<noteq> []"
  shows "host_name_ok host \<longleftrightarrow> length host \<le> 253 \<and>
    (let labels = split_on (\<lambda>c. c = CHR ''.'') host in
       list_all dns_label (butlast labels) \<and>
       (dns_label (last labels) \<or> last labels = [] \<and> butlast labels \<noteq> []))"
  using host_name_labels [OF assms] by (simp add: host_labels_def Let_def)

theorem host_name_ok_labels_witness:
  "host_name_ok ''a-1.example.'' \<and> \<not> host_name_ok ''a-.example'' \<and>
   dns_label ''a-1'' \<and> dns_label ''example''"
  using host_name_ok_labels [of "''a-1.example.''"] host_name_ok_labels [of "''a-.example''"]
  by (simp add: dns_label_def ldh_def Let_def)

section \<open>Links\<close>

text \<open>
  C40: A link is handed to the desktop unchanged, only if it is an absolute \<open>http\<close> or \<open>https\<close> URL of at
  most 8192 bytes without white space, control characters or backslashes, whose authority is not
  empty, and whose host, as libcurl's parser reads it, is present, fits the buffer and comes with no
  user name or password.
\<close>

theorem zc_url_open_safe:
  assumes "zc_url_open handle parse link = (ok, opened_link)"
  shows "ok = (opened_link \<noteq> None) \<and> (\<forall>sent. opened_link = Some sent \<longrightarrow> sent = link \<and> length link \<le> 8192 \<and>
      (\<forall>c \<in> set link. 32 < byte c \<and> byte c \<noteq> 127 \<and> c \<noteq> CHR 0x5C) \<and>
      (\<exists>scheme rest. link = scheme @ rest \<and> map lower scheme \<in> {''https://'', ''http://''} \<and>
         rest \<noteq> [] \<and> hd rest \<notin> set ''/?#'') \<and>
      (\<exists>parts host. parse link = Some parts \<and> u_host parts = Some host \<and> host \<noteq> [] \<and> length host < 512 \<and>
         \<not> u_user parts \<and> \<not> u_password parts \<and> zc_url_host handle parse link 512 = Some host))"
proof (intro conjI allI impI)
  show "ok = (opened_link \<noteq> None)" using assms by (auto simp: zc_url_open_def split: option.splits)
next
  fix sent assume s: "opened_link = Some sent"
  then obtain host where h: "zc_url_host handle parse link 512 = Some host" and l: "sent = link"
    using assms by (auto simp: zc_url_open_def split: option.splits)
  have c: "length link \<le> 8192" "list_all url_char link"
    using h by (auto simp: zc_url_host_def Let_def split: if_splits option.splits)
  obtain k where k: "k = 8 \<and> has_header ''https://'' link \<or> k = 7 \<and> has_header ''http://'' link"
    "drop k link \<noteq> []" "hd (drop k link) \<notin> set ''/?#''" "zc_url_host handle parse link 512 =
       (case parse link of None \<Rightarrow> None | Some parts \<Rightarrow> (case u_host parts of None \<Rightarrow> None
          | Some host \<Rightarrow> if host = [] \<or> length host \<ge> 512 \<or> u_user parts \<or> u_password parts then None else Some host))"
    using h by (auto simp: zc_url_host_def Let_def split: if_splits)
  have low: "map lower ''https://'' = ''https://''" "map lower ''http://'' = ''http://''" by (simp_all add: lower_def)
  have len: "length ''https://'' = 8" "length ''http://'' = 7" by simp_all
  have "map lower (take k link) \<in> {''https://'', ''http://''}" using k(1) unfolding has_header_def len low by blast
  then have scheme: "\<exists>scheme rest. link = scheme @ rest \<and> map lower scheme \<in> {''https://'', ''http://''} \<and>
      rest \<noteq> [] \<and> hd rest \<notin> set ''/?#''" using k(2,3) by (intro exI [of _ "take k link"] exI [of _ "drop k link"]) auto
  have chars: "\<forall>c \<in> set link. 32 < byte c \<and> byte c \<noteq> 127 \<and> c \<noteq> CHR 0x5C"
    using c(2) by (auto simp: list_all_iff url_char_def)
  have "\<exists>parts. parse link = Some parts \<and> u_host parts = Some host \<and> host \<noteq> [] \<and> length host < 512 \<and>
      \<not> u_user parts \<and> \<not> u_password parts"
    using h unfolding k(4) by (auto split: option.splits if_splits)
  with h show "\<exists>parts host. parse link = Some parts \<and> u_host parts = Some host \<and> host \<noteq> [] \<and> length host < 512 \<and>
      \<not> u_user parts \<and> \<not> u_password parts \<and> zc_url_host handle parse link 512 = Some host" by blast
  show "sent = link" "length link \<le> 8192" by (rule l, rule c(1))
  show "\<exists>scheme rest. link = scheme @ rest \<and> map lower scheme \<in> {''https://'', ''http://''} \<and>
      rest \<noteq> [] \<and> hd rest \<notin> set ''/?#''" by (rule scheme)
  show "\<forall>c \<in> set link. 32 < byte c \<and> byte c \<noteq> 127 \<and> c \<noteq> CHR 0x5C" by (rule chars)
qed

text \<open>A parser for the examples: the authority is the host.\<close>

definition sample_parse :: curl_url where
  "sample_parse url = Some \<lparr>u_host = Some (origin_authority url), u_port = None,
     u_user = (CHR ''@'' \<in> set url), u_password = False\<rparr>"

theorem zc_url_open_safe_witness:
  "zc_url_open True sample_parse ''https://a.b/x'' = (True, Some ''https://a.b/x'') \<and>
   (\<exists>parts. sample_parse ''https://a.b/x'' = Some parts \<and> \<not> u_user parts) \<and>
   zc_url_open True sample_parse ''https://u@a.b/'' = (False, None)"
proof -
  have r: "zc_url_open True sample_parse ''https://a.b/x'' = (True, Some ''https://a.b/x'')"
    "zc_url_open True sample_parse ''https://u@a.b/'' = (False, None)"
    by (simp_all add: zc_url_open_def zc_url_host_def has_header_def lower_def url_char_def sample_parse_def
        origin_authority_def)
  from zc_url_open_safe [OF r(1)] r show ?thesis by blast
qed

section \<open>What a new transport has gone through\<close>

text \<open>What the files must hold: a root, a client certificate for it with its key, and the identity.\<close>

definition checked_credentials :: "('c, 'k) x509 \<Rightarrow> char list \<Rightarrow> char list \<Rightarrow> char list \<Rightarrow> identity \<Rightarrow> bool" where
  "checked_credentials x ca cert key identity \<longleftrightarrow> (\<exists>root leaf private digest expires.
     k_cert x ca = Some root \<and> k_cert x cert = Some leaf \<and> k_key x key = Some private \<and>
     0 < k_check_ca x root \<and> k_check_ca x leaf \<le> 0 \<and> k_has_eku x leaf \<and> k_client_auth x leaf \<and>
     k_check_key x leaf private = 1 \<and> k_verify x root leaf = Inr () \<and>
     k_digest x leaf = Some digest \<and> length digest = 32 \<and> k_not_after x leaf = Some expires \<and>
     id_fingerprint identity = hex_bytes digest \<and> id_expires_at identity = timegm expires \<and>
     id_expires identity = iso_date expires @ ''Z'')"

lemma credentials_checked:
  "credentials x ca cert key e = Inr (root, identity) \<Longrightarrow> checked_credentials x ca cert key identity"
  by (auto simp: credentials_def checked_credentials_def client_leaf_def identity_of_def split: option.splits if_splits sum.splits)

lemma credentials_error:
  "credentials x ca cert key e = Inl d \<Longrightarrow> e_kind d = ZC_CREDENTIALS \<and> e_message d \<noteq> [] \<and> length (e_message d) < 256"
  by (auto simp: credentials_def failure_def diagnostic_def split: option.splits if_splits sum.splits)

lemma read_credentials_effect:
  assumes "read_credentials alloc files e w = (r, v)" and "wf_fds w"
  shows "same_disk w v \<and> w_files v = w_files w \<and> wf_fds v \<and> (case r of
      Inl d \<Rightarrow> e_kind d = ZC_CREDENTIALS \<and> length (e_message d) < 256 \<and> ((\<forall>f \<in> set files. fst f \<noteq> []) \<longrightarrow> e_message d \<noteq> [])
    | Inr datas \<Rightarrow> list_all2 (\<lambda>f data. \<exists>d. zc_private_place w (snd f) d \<and>
        zc_private_file w d (config_leaf (snd f)) data) files datas)"
  using assms
proof (induction files arbitrary: w r v)
  case (Cons f files)
  obtain label path where f: "f = (label, path)" by fastforce
  obtain x u where x: "zc_private_read alloc path w = (x, u)" by fastforce
  note eff = zc_private_read_effect [OF x Cons.prems(2)]
  have wf: "wf_fds u" using eff Cons.prems(2) by (auto simp: wf_fds_def)
  show ?case
  proof (cases x)
    case (Inl code)
    then show ?thesis using Cons.prems(1) f x eff wf by (auto simp: failure_def diagnostic_def)
  next
    case (Inr data)
    obtain y t where y: "read_credentials alloc files e u = (y, t)" by fastforce
    have sd: "same_disk w u" using eff by simp
    have place: "zc_private_place u p d = zc_private_place w p d" "zc_private_file u d n b = zc_private_file w d n b" for p d n b
    proof -
      have "chain u i cs = chain w i cs" for i cs
        by (induction cs arbitrary: i) (auto simp: same_disk_lookups [OF sd] split: option.splits)
      moreover have "zc_trusted u i cs = zc_trusted w i cs" for i cs
        by (induction cs arbitrary: i) (auto simp: same_disk_lookups [OF sd] split: option.splits)
      ultimately show "zc_private_place u p d = zc_private_place w p d"
        by (simp add: zc_private_place_def same_disk_lookups [OF sd])
      show "zc_private_file u d n b = zc_private_file w d n b" by (rule zc_private_file_same [OF sd])
    qed
    from Cons.IH [OF y wf] eff Inr sd have "same_disk w t" "w_files t = w_files w" "wf_fds t"
      by (auto intro: same_disk_trans)
    moreover have "(case y of Inl e \<Rightarrow> (Inl e, t) | Inr datas \<Rightarrow> (Inr (data # datas), t)) = (r, v)"
      using Cons.prems(1) f x Inr y by (simp split: sum.splits)
    ultimately show ?thesis using Cons.IH [OF y wf] eff Inr f place by (auto split: sum.splits)
  qed
qed auto

lemma three_files: "list_all2 P [a, b, c] xs \<longleftrightarrow> (\<exists>x y z. xs = [x, y, z] \<and> P a x \<and> P b y \<and> P c z)"
  by (auto simp: list_all2_Cons1)

lemma zc_origin_valid_text: "zc_origin_valid handle parse origin \<Longrightarrow> origin_text_ok origin"
  by (auto simp: zc_origin_valid_def split: if_splits)

text \<open>
  C14: \<open>zc_net_new\<close> never changes the disk and closes every descriptor. It returns a transport only
  for a valid origin, with the contents of three private files of the user as credentials: a CA,
  a client certificate that verifies under it and is no CA itself, and its key; the identity it
  reports is the certificate's digest and end of validity, and no error is set. Every request the
  transport starts then goes to the authority of the configured origin over \<open>https\<close>. Otherwise it
  reports a configuration or credentials error with a message that fits its buffer.
\<close>

theorem zc_net_new_checked:
  assumes "zc_net_new l origin ca cert key w = ((net, e, identity), v)" and "wf_fds w"
  shows "same_disk w v \<and> w_files v = w_files w \<and> (case net of
     None \<Rightarrow> e_kind e \<in> {ZC_CONFIG, ZC_CREDENTIALS} \<and> e_message e \<noteq> [] \<and> length (e_message e) < 256
   | Some n \<Rightarrow> e = no_error \<and> zc_origin_valid (l_handle l) (l_parse l) origin \<and>
       (\<exists>a c k. n = fresh_net (trim_origin origin) a c k \<and> checked_credentials (l_x509 l) a c k identity \<and>
          (\<forall>(path, data) \<in> {(ca, a), (cert, c), (key, k)}.
             \<exists>d. zc_private_place w path d \<and> zc_private_file w d (config_leaf path) data)) \<and>
       (\<forall>path. has_prefix ''/'' path \<longrightarrow> url_authority (net_origin n @ path) = origin_authority origin \<and>
          has_prefix ''https://'' (net_origin n @ path)))"
proof (cases "\<exists>d. net = None \<and> e = failure ZC_CONFIG d no_error \<and> d \<noteq> [] \<and> v = w")
  case True
  then show ?thesis by (auto simp: failure_def diagnostic_def)
next
  case False
  let ?files = "[(''CA file'', ca), (''Client certificate'', cert), (''Client key'', key)]"
  obtain x u where x: "read_credentials (l_read l) ?files no_error w = (x, u)" by fastforce
  note eff = read_credentials_effect [OF x assms(2)]
  have ok: "zc_origin_valid (l_handle l) (l_parse l) origin"
  proof (rule ccontr)
    assume "\<not> ?thesis"
    then show False using False assms(1) by (auto simp: zc_net_new_def Let_def split: if_splits)
  qed
  have run: "(case x of
        Inl d \<Rightarrow> ((None, d, no_identity), u)
      | Inr data \<Rightarrow> (case credentials (l_x509 l) (data ! 0) (data ! 1) (data ! 2) no_error of
             Inl d \<Rightarrow> ((None, d, no_identity), u)
           | Inr (root, identity) \<Rightarrow>
               if \<not> l_multi l then ((None, failure ZC_CONFIG ''Transport allocation failed.'' no_error, identity), u)
               else ((Some (fresh_net (trim_origin origin) (data ! 0) (data ! 1) (data ! 2)), no_error, identity), u))) =
      ((net, e, identity), v)"
    using False assms(1) x by (auto simp: zc_net_new_def Let_def split: if_splits)
  show ?thesis
  proof (cases x)
    case (Inl d)
    then show ?thesis using run eff by auto
  next
    case (Inr data)
    with eff obtain a c k where d: "data = [a, c, k]" and files:
      "\<exists>d. zc_private_place w ca d \<and> zc_private_file w d (config_leaf ca) a"
      "\<exists>d. zc_private_place w cert d \<and> zc_private_file w d (config_leaf cert) c"
      "\<exists>d. zc_private_place w key d \<and> zc_private_file w d (config_leaf key) k"
      by (auto simp: three_files)
    note text_ok = zc_origin_valid_text [OF ok]
    have req: "url_authority (trim_origin origin @ path) = origin_authority origin \<and>
        has_prefix ''https://'' (trim_origin origin @ path)" if "has_prefix ''/'' path" for path
      using origin_request_authority [OF text_ok that] origin_text_parts(1) [OF text_ok]
      by (simp add: has_prefix_def)
    have v: "v = u" using run Inr by (auto split: sum.splits if_splits)
    show ?thesis
    proof (cases "credentials (l_x509 l) a c k no_error")
      case cred: (Inl d')
      then show ?thesis using run Inr d eff credentials_error [OF cred] v by auto
    next
      case cred: (Inr ri)
      obtain root ident where ri: "ri = (root, ident)" by fastforce
      note chk = credentials_checked [OF cred [unfolded ri]]
      show ?thesis
      proof (cases "l_multi l")
        case False
        then show ?thesis using run Inr d cred ri eff v by (auto simp: failure_def diagnostic_def)
      next
        case True
        then have "net = Some (fresh_net (trim_origin origin) a c k)" "e = no_error" "identity = ident"
          using run Inr d cred ri by auto
        then show ?thesis using eff v ok chk files req by (auto simp: fresh_net_def)
      qed
    qed
  qed
qed

text \<open>
  \<open>zc_private_read\<close> returns bytes only for an absolute path without empty or dot components:
  every directory on the way, from the root on, belongs to root or the user and only its owner may
  write it (sticky directories of root excepted), no link is followed, the last directory has exactly
  mode 0700; the bytes are the whole of a singly linked regular file of the user with exactly mode
  0600, of 1 byte to 1 MiB and without a NUL. 0 is returned only when the path does not exist. In all
  cases the disk is unchanged and every descriptor is closed.
\<close>

theorem zc_private_read_private:
  assumes "zc_private_read alloc path w = (r, v)" and "wf_fds w"
  shows "same_disk w v \<and> w_files v = w_files w \<and> (case r of
      Inr data \<Rightarrow> \<exists>d. zc_private_place w path d \<and> zc_private_file w d (config_leaf path) data
    | Inl code \<Rightarrow> code = -1 \<or> code = 0 \<and> chain w (w_root w) (components (tl path)) = None)"
  using zc_private_read_effect [OF assms] by simp

lemmas private_run = zc_private_read_def zc_private_walk.simps ancestor_ok_def zc_private_dir_def zc_private_contents_def
  zc_private_stat_def read_whole.simps PATH_MAX_def sys_open_def

theorem zc_private_read_private_witness:
  "fst (zc_private_read True ''/up/f'' (sample_world [Ok, Ok, Ok, Ok, Ok, Ok, Short 1, Fail EINTR])) = Inr ''hi'' \<and>
   (\<exists>d. zc_private_place (sample_world [Ok, Ok, Ok, Ok, Ok, Ok, Short 1, Fail EINTR]) ''/up/f'' d) \<and>
   fst (zc_private_read True ''/no/f'' (sample_world [])) = Inl 0 \<and>
   chain (sample_world []) 0 [''no'', ''f''] = None"
proof -
  let ?s = "[Ok, Ok, Ok, Ok, Ok, Ok, Short 1, Fail EINTR]"
  have 1: "fst (zc_private_read True ''/up/f'' (sample_world ?s)) = Inr ''hi''"
    by (simp add: private_run posix_run)
  have 2: "fst (zc_private_read True ''/no/f'' (sample_world [])) = Inl 0"
    by (simp add: private_run posix_run)
  have c: "components (tl ''/no/f'') = [''no'', ''f'']" "w_root (sample_world []) = 0"
    by (simp_all add: components_def sample_world_def)
  from zc_private_read_private [OF surjective_pairing sample_wf(1) [of ?s], where path = "''/up/f''" and alloc = True] 1
    zc_private_read_private [OF surjective_pairing sample_wf(1) [of "[]"], where path = "''/no/f''" and alloc = True] 2 c
  show ?thesis by fastforce
qed

definition sample_expiry :: tm where
  "sample_expiry = gmtime 978307200"

definition sample_x509 :: "(char list, char list) x509" where
  "sample_x509 = \<lparr>k_alloc = True, k_cert = Some, k_key = Some, k_check_ca = (\<lambda>c. if c = ''CA'' then 1 else 0),
     k_has_eku = (\<lambda>_. True), k_client_auth = (\<lambda>c. c = ''CERT''), k_check_key = (\<lambda>c k. if k = ''KEY'' then 1 else 0),
     k_verify = (\<lambda>r c. if r = ''CA'' then Inr () else Inl 20), k_error_string = (\<lambda>_. ''unknown''),
     k_digest = (\<lambda>_. Some (replicate 32 7)), k_not_after = (\<lambda>_. Some sample_expiry)\<rparr>"

definition sample_libraries :: "(char list, char list) libraries" where
  "sample_libraries = \<lparr>l_init = True, l_alloc = True, l_version = 0x080a01, l_http2 = True, l_ssl = Some ''OpenSSL/3.2'',
     l_openssl = 0x30200000, l_handle = True, l_parse = sample_parse, l_strdup = True, l_read = True,
     l_x509 = sample_x509, l_multi = True\<rparr>"

definition credential_world :: "outcome list \<Rightarrow> world" where
  "credential_world s = (sample_world s)\<lparr>w_inodes := (\<lambda>i.
     if i = 1 then Some (sample_inode (Directory 0 [(''a'', 5), (''c'', 6), (''k'', 7)]) M0700)
     else if i = 5 then Some (sample_inode (Regular ''CA'') M0600)
     else if i = 6 then Some (sample_inode (Regular ''CERT'') M0600)
     else if i = 7 then Some (sample_inode (Regular ''KEY'') M0600) else w_inodes (sample_world []) i)\<rparr>"

lemma credential_read:
  assumes "w_inodes w = w_inodes (credential_world [])" and "w_root w = 0" and "w_uid w = 7" and "w_script w = []"
  shows "fst (zc_private_read True ''/up/a'' w) = Inr ''CA'' \<and> w_script (snd (zc_private_read True ''/up/a'' w)) = []"
    and "fst (zc_private_read True ''/up/c'' w) = Inr ''CERT'' \<and> w_script (snd (zc_private_read True ''/up/c'' w)) = []"
    and "fst (zc_private_read True ''/up/k'' w) = Inr ''KEY''"
  using assms by (simp_all add: private_run credential_world_def posix_run)

lemma credential_reads:
  "\<exists>s. zc_private_read True ''/up/a'' (credential_world []) = (Inr ''CA'', s) \<and>
    (\<exists>t. zc_private_read True ''/up/c'' s = (Inr ''CERT'', t) \<and> fst (zc_private_read True ''/up/k'' t) = Inr ''KEY'')"
proof -
  let ?w = "credential_world []"
  have w: "w_root ?w = 0" "w_uid ?w = 7" "w_script ?w = []" "wf_fds ?w"
    using sample_wf(1) [of "[]"] by (simp_all add: credential_world_def sample_world_def wf_fds_def)
  obtain s where s: "zc_private_read True ''/up/a'' ?w = (Inr ''CA'', s)" "w_script s = []"
    using credential_read(1) [OF refl w(1-3)] by (metis prod.collapse)
  have sd: "w_inodes s = w_inodes ?w" "w_root s = 0" "w_uid s = 7" "wf_fds s"
    using zc_private_read_effect [OF s(1) w(4)] w by (auto simp: same_disk_def wf_fds_def)
  obtain t where t: "zc_private_read True ''/up/c'' s = (Inr ''CERT'', t)" "w_script t = []"
    using credential_read(2) [OF sd(1-3) s(2)] by (metis prod.collapse)
  have "w_inodes t = w_inodes ?w" "w_root t = 0" "w_uid t = 7"
    using zc_private_read_effect [OF t(1) sd(4)] sd by (auto simp: same_disk_def)
  from credential_read(3) [OF this t(2)] s(1) t(1) show ?thesis by blast
qed

theorem zc_net_new_checked_witness:
  "\<exists>e identity v. zc_net_new sample_libraries ''https://relay/'' ''/up/a'' ''/up/c'' ''/up/k'' (credential_world []) =
      ((Some (fresh_net ''https://relay'' ''CA'' ''CERT'' ''KEY''), e, identity), v) \<and> e = no_error \<and>
      w_files v = w_files (credential_world []) \<and>
      checked_credentials sample_x509 ''CA'' ''CERT'' ''KEY'' identity \<and> id_expires_at identity = 978307200 \<and>
      url_authority (''https://relay'' @ ''/v1/state'') = ''relay''"
proof -
  let ?o = "''https://relay/''"
  obtain s t u where r: "zc_private_read True ''/up/a'' (credential_world []) = (Inr ''CA'', s)"
    "zc_private_read True ''/up/c'' s = (Inr ''CERT'', t)" "zc_private_read True ''/up/k'' t = (Inr ''KEY'', u)"
    using credential_reads by (metis prod.collapse)
  have valid: "zc_origin_valid True sample_parse ?o"
    by (simp add: zc_origin_valid_def origin_text_ok_def origin_authority_def origin_char_def sample_parse_def host_name_ok_def
        ldh_def has_prefix_def)
  have trim: "trim_origin ?o = ''https://relay''" "origin_authority ?o = ''relay''"
    by (simp_all add: trim_origin_def origin_authority_def)
  have c: "credentials sample_x509 ''CA'' ''CERT'' ''KEY'' no_error = Inr (''CA'', identity_of (replicate 32 7) sample_expiry)"
    by (simp add: credentials_def sample_x509_def client_leaf_def)
  have l: "l_init sample_libraries" "l_alloc sample_libraries" "l_version sample_libraries = 0x080a01" "l_http2 sample_libraries"
    "l_ssl sample_libraries = Some ''OpenSSL/3.2''" "l_openssl sample_libraries = 0x30200000" "l_handle sample_libraries"
    "l_parse sample_libraries = sample_parse" "l_strdup sample_libraries" "l_read sample_libraries" "l_x509 sample_libraries = sample_x509"
    "l_multi sample_libraries" by (simp_all add: sample_libraries_def)
  have p: "has_prefix ''OpenSSL/3.'' ''OpenSSL/3.2''" by (simp add: has_prefix_def)
  have run: "zc_net_new sample_libraries ?o ''/up/a'' ''/up/c'' ''/up/k'' (credential_world []) =
      ((Some (fresh_net ''https://relay'' ''CA'' ''CERT'' ''KEY''), no_error, identity_of (replicate 32 7) sample_expiry), u)"
    by (simp add: zc_net_new_def l p valid r c trim)
  have wf: "wf_fds (credential_world [])" using sample_wf(1) [of "[]"] by (simp add: wf_fds_def credential_world_def)
  have path: "has_prefix ''/'' ''/v1/state''" by (simp add: has_prefix_def)
  have "timegm sample_expiry = 978307200" by (simp add: sample_expiry_def gmtime_correct)
  with zc_net_new_checked [OF run wf] run path trim l show ?thesis
    by (intro exI [of _ no_error] exI [of _ "identity_of (replicate 32 7) sample_expiry"] exI [of _ u])
      (auto simp: fresh_net_def identity_of_def l)
qed

end
