(* ===== verification/Platform.thy ===== *)
theory Platform
  imports TlsFiles Calendar "HOL-Library.Signed_Division"
begin

text \<open>
  The platform layer \<open>src/platform.c\<close>, as it is compiled on Linux: random bytes, timestamps, the
  files that hold secrets and locks, the AppleScript runner and the database watch. Devices,
  children and inotify are not part of the file system model: what \<open>read\<close> of \<open>/dev/urandom\<close>,
  \<open>waitpid\<close>, the clock and \<open>poll\<close> answer is an argument. The branches for Apple systems are
  not modelled, nor \<open>zr_thread_qos\<close> and \<open>zr_socket_timeout\<close>, which only set options.
\<close>

section \<open>Random bytes and time\<close>

text \<open>
  The loop of \<open>zr_random\<close> with the bytes read so far; each answer is one \<open>read\<close>, and a read
  past the answers returns nothing.
\<close>

fun random_loop :: "nat \<Rightarrow> (errno + nat list) list \<Rightarrow> nat list \<Rightarrow> nat list option" where
  "random_loop len [] got = (if length got < len then None else Some got)"
| "random_loop len (a # answers) got =
     (if length got < len then
        (case a of
           Inl e \<Rightarrow> if e = EINTR then random_loop len answers got else None
         | Inr part \<Rightarrow> if take (len - length got) part = [] then None
             else random_loop len answers (got @ take (len - length got) part))
      else Some got)"

definition zr_random :: "bool \<Rightarrow> (errno + nat list) list \<Rightarrow> nat \<Rightarrow> nat list option" where
  "zr_random device answers len = (if \<not> device then None else random_loop len answers [])"

text \<open>Milliseconds of a \<open>timespec\<close>.\<close>

definition millis :: "int \<times> int \<Rightarrow> int" where
  "millis t = fst t * 1000 + snd t sdiv 1000000"

definition zr_now_ms :: "int \<times> int \<Rightarrow> int" where "zr_now_ms realtime = millis realtime"

definition apple_epoch :: int where "apple_epoch = 978307200"

text \<open>The seconds rounded down and the nanoseconds left.\<close>

definition split_ns :: "int \<Rightarrow> int \<times> int" where
  "split_ns ns = (let sec = ns sdiv 1000000000; rem = ns smod 1000000000
     in if rem < 0 then (sec - 1, rem + 1000000000) else (sec, rem))"

definition zr_timestamp :: "int \<Rightarrow> nat \<Rightarrow> string option" where
  "zr_timestamp ns cap =
     (case split_ns ns of (sec, rem) \<Rightarrow>
        let t = gmtime (sec + apple_epoch) in
        if tm_year t < 0 \<or> tm_year t > 8099 then None
        else let out = iso_date t @ ''.'' @ fixed 9 (nat rem) @ ''Z'' in
          if length out < cap then Some out else None)"

text \<open>\<open>identity\<close>: device and inode of the file, if \<open>stat\<close> succeeded.\<close>

definition zr_file_identity :: "(nat \<times> nat) option \<Rightarrow> nat \<Rightarrow> string option" where
  "zr_file_identity identity cap = (case identity of
     None \<Rightarrow> None
   | Some (dev, ino) \<Rightarrow> (let out = digits dev @ '':'' @ digits ino in if length out < cap then Some out else None))"

section \<open>Private files\<close>

definition zr_secure_file :: "string \<Rightarrow> char list \<Rightarrow> bool \<Rightarrow> world \<Rightarrow> int \<times> world" where
  "zr_secure_file path data replace w =
     (case sys_open path [O_WRONLY, O_CREAT, O_NOFOLLOW, O_CLOEXEC, if replace then O_TRUNC else O_EXCL] M0600 w of
        (Inl e, w) \<Rightarrow> (-1, w)
      | (Inr fd, w) \<Rightarrow>
          (case sys_fstat fd w of
             (Inl e, w) \<Rightarrow> (-1, sys_close fd w)
           | (Inr st, w) \<Rightarrow>
               if st_uid st \<noteq> w_uid w \<or> \<not> S_ISREG st then (-1, sys_close fd w)
               else case sys_fchmod fd M0600 w of
                 (Inl e, w) \<Rightarrow> (-1, sys_close fd w)
               | (Inr _, w) \<Rightarrow>
                   (case write_all fd data w of (ok, w) \<Rightarrow>
                      if \<not> ok then (-1, sys_close fd w)
                      else case sys_fsync fd w of
                        (Inl e, w) \<Rightarrow> (-1, sys_close fd w)
                      | (Inr _, w) \<Rightarrow> (0, sys_close fd w))))"

definition secret_ok :: "nat \<Rightarrow> stat \<Rightarrow> bool" where
  "secret_ok uid st \<longleftrightarrow> \<not> (st_uid st \<noteq> uid \<or> st_mode st AND M077 \<noteq> 0 \<or> \<not> S_ISREG st)"

definition zr_read_secret :: "string \<Rightarrow> nat \<Rightarrow> world \<Rightarrow> char list option \<times> world" where
  "zr_read_secret path cap w =
     (case sys_open path [O_RDONLY, O_NOFOLLOW, O_CLOEXEC] 0 w of
        (Inl e, w) \<Rightarrow> (None, w)
      | (Inr fd, w) \<Rightarrow>
          (case sys_fstat fd w of
             (Inl e, w) \<Rightarrow> (None, sys_close fd w)
           | (Inr st, w) \<Rightarrow>
               if \<not> secret_ok (w_uid w) st then (None, sys_close fd w)
               else case sys_read fd cap w of
                 (Inl e, w) \<Rightarrow> (None, sys_close fd w)
               | (Inr data, w) \<Rightarrow> (if length data < cap then Some data else None, sys_close fd w)))"

text \<open>\<open>locked\<close>: whether \<open>flock\<close> got the lock.\<close>

definition zr_lock :: "bool \<Rightarrow> string \<Rightarrow> world \<Rightarrow> int \<times> world" where
  "zr_lock locked path w =
     (case sys_open path [O_RDWR, O_CREAT, O_NOFOLLOW, O_CLOEXEC] M0600 w of
        (Inl e, w) \<Rightarrow> (-1, w)
      | (Inr fd, w) \<Rightarrow>
          (case sys_fstat fd w of
             (Inl e, w) \<Rightarrow> (-1, sys_close fd w)
           | (Inr st, w) \<Rightarrow>
               if st_uid st \<noteq> w_uid w \<or> \<not> S_ISREG st \<or> \<not> locked then (-1, sys_close fd w) else (fd, w)))"

section \<open>Running the script\<close>

datatype wait_answer = Running | Exited int | Signalled | WaitFailed errno

text \<open>
  What one round of the loop sees: the bytes of the first \<open>read\<close> (none if it failed), what
  \<open>waitpid\<close> says, the bytes of the second \<open>read\<close> and the clock.
\<close>

record round =
  so_read :: "char list"
  so_wait :: wait_answer
  so_last :: "char list"
  so_now :: "int \<times> int"

text \<open>What became of the child: reaped, killed and reaped, or unknown to \<open>waitpid\<close>.\<close>

datatype fate = Reaped | Killed | Unknown

definition append_result :: "char list \<Rightarrow> char list \<Rightarrow> char list" where
  "append_result used part = used @ take (128 - length used) part"

definition strip_lines :: "char list \<Rightarrow> char list" where
  "strip_lines r = rev (dropWhile (\<lambda>c. c = CHR 0x0A \<or> c = CHR 0x0D) (rev r))"

text \<open>The text before the first NUL, as \<open>strcmp\<close> sees it.\<close>

definition marker_code :: "char list \<Rightarrow> int" where
  "marker_code result = (let s = takeWhile (\<lambda>c. c \<noteq> CHR 0x00) result in
     if s = ''ready'' \<or> s = ''invoked'' then 0
     else if s = ''permission_required'' then 1
     else if s = ''unsupported_account'' then 2
     else if s = ''unsupported_target'' then 3
     else if s = ''adapter_unavailable'' then 4
     else -1)"

definition exit_code :: "wait_answer \<Rightarrow> char list \<Rightarrow> int" where
  "exit_code status used =
     (if status \<noteq> Exited 0 \<or> length used \<ge> 128 then -1 else marker_code (strip_lines used))"

definition elapsed_ms :: "int \<times> int \<Rightarrow> int \<times> int \<Rightarrow> int" where
  "elapsed_ms start now = (fst now - fst start) * 1000 + (snd now - snd start) sdiv 1000000"

text \<open>
  The loop from round \<open>k\<close> on: the result and the child's fate, or \<open>None\<close> if \<open>fuel\<close> rounds
  were not enough.
\<close>

fun spawn_loop :: "(nat \<Rightarrow> round) \<Rightarrow> int \<times> int \<Rightarrow> int \<Rightarrow> nat \<Rightarrow> nat \<Rightarrow> char list \<Rightarrow> (int \<times> fate) option" where
  "spawn_loop rounds start timeout 0 k used = None"
| "spawn_loop rounds start timeout (Suc fuel) k used =
     (let r = rounds k; used = append_result used (so_read r) in
      case so_wait r of
        Exited code \<Rightarrow> Some (exit_code (Exited code) (append_result used (so_last r)), Reaped)
      | Signalled \<Rightarrow> Some (exit_code Signalled (append_result used (so_last r)), Reaped)
      | WaitFailed e \<Rightarrow>
          if e \<noteq> EINTR then Some (-1, Unknown)
          else if elapsed_ms start (so_now r) \<ge> timeout \<or> length used \<ge> 128 then Some (-1, Killed)
          else spawn_loop rounds start timeout fuel (Suc k) used
      | Running \<Rightarrow>
          if elapsed_ms start (so_now r) \<ge> timeout \<or> length used \<ge> 128 then Some (-1, Killed)
          else spawn_loop rounds start timeout fuel (Suc k) used)"

text \<open>The child gets the data as separate arguments after \<open>--\<close>, never as part of the script.\<close>

definition spawn_argv :: "string \<Rightarrow> string \<Rightarrow> string \<Rightarrow> string \<Rightarrow> string list" where
  "spawn_argv script mode route text_of = [''/usr/bin/osascript'', ''-e'', script, ''--'', mode, route, text_of]"

text \<open>\<open>prepared\<close>: whether the pipe, the file actions and \<open>posix_spawn\<close> succeeded.\<close>

definition zr_spawn :: "bool \<Rightarrow> (nat \<Rightarrow> round) \<Rightarrow> int \<times> int \<Rightarrow> int \<Rightarrow> nat \<Rightarrow> (int \<times> fate option) option" where
  "zr_spawn prepared rounds start timeout fuel =
     (if \<not> prepared then Some (-2, None)
      else case spawn_loop rounds start timeout fuel 0 [] of
        None \<Rightarrow> None | Some (code, fate) \<Rightarrow> Some (code, Some fate))"

section \<open>Watching the database\<close>

text \<open>\<open>wt_directory\<close> is the watch descriptor of the directory, -1 if there is none.\<close>

record watch =
  wt_paths :: "string list"
  wt_directory :: int
  wt_names :: "string list"

definition dir_name :: "string \<Rightarrow> string" where
  "dir_name path = (if CHR ''/'' \<notin> set path then ''.''
     else let d = rev (tl (dropWhile (\<lambda>c. c \<noteq> CHR ''/'') (rev path))) in if d = [] then ''/'' else d)"

definition base_name :: "string \<Rightarrow> string" where
  "base_name path = rev (takeWhile (\<lambda>c. c \<noteq> CHR ''/'') (rev path))"

text \<open>\<open>ready\<close>: whether memory and an inotify descriptor could be had.\<close>

definition zr_watch_open :: "bool \<Rightarrow> string \<Rightarrow> watch option" where
  "zr_watch_open ready path =
     (let files = [path, path @ ''-wal'', path @ ''-journal''] in
      if \<not> ready \<or> \<not> list_all (\<lambda>f. length f < PATH_MAX) files then None
      else Some \<lparr>wt_paths = dir_name path # files, wt_directory = -1, wt_names = map base_name files\<rparr>)"

record inotify_event =
  ie_wd :: int
  ie_ignored :: bool
  ie_moved :: bool
  ie_overflow :: bool
  ie_name :: string

text \<open>\<open>ie_moved\<close> is \<open>IN_DELETE_SELF | IN_MOVE_SELF\<close>; an event without a name has \<open>len\<close> 0.\<close>

definition watch_event :: "inotify_event \<Rightarrow> bool \<times> watch \<Rightarrow> bool \<times> watch" where
  "watch_event ev = (\<lambda>(changed, w).
     let lost = (ie_wd ev = wt_directory w \<and> (ie_ignored ev \<or> ie_moved ev))
     in (changed \<or> lost \<or> ie_overflow ev \<or> (ie_name ev \<noteq> '''' \<and> ie_name ev \<in> set (wt_names w)),
         if lost then w\<lparr>wt_directory := -1\<rparr> else w))"

text \<open>
  One round of \<open>zr_watch_wait\<close>: the clock at its start, the result of \<open>inotify_add_watch\<close> where it
  is called, whether \<open>poll\<close> found the descriptor readable, the events read, the clock at its end.
\<close>

record watch_round =
  wr_start :: int
  wr_added :: int
  wr_ready :: bool
  wr_events :: "inotify_event list"
  wr_end :: int

fun watch_loop :: "int \<Rightarrow> watch_round list \<Rightarrow> watch \<Rightarrow> (bool \<times> watch) option" where
  "watch_loop deadline [] w = None"
| "watch_loop deadline (r # rs) w =
     (let w = (if wt_directory w < 0 then w\<lparr>wt_directory := wr_added r\<rparr> else w) in
      if \<not> wr_ready r then Some (False, w)
      else case foldl (\<lambda>x ev. watch_event ev x) (False, w) (wr_events r) of (changed, w) \<Rightarrow>
        if changed then Some (True, w)
        else if wr_end r \<ge> deadline then Some (False, w)
        else watch_loop deadline rs w)"

definition zr_watch_wait :: "int \<Rightarrow> int \<Rightarrow> watch_round list \<Rightarrow> watch option \<Rightarrow> (bool \<times> watch option) option" where
  "zr_watch_wait now timeout rounds w = (case w of
     None \<Rightarrow> Some (False, None)
   | Some w \<Rightarrow> (case watch_loop (now + timeout) rounds w of
       None \<Rightarrow> None | Some (changed, w) \<Rightarrow> Some (changed, Some w)))"

section \<open>Random bytes\<close>

lemma fill_length [simp]: "a < n \<Longrightarrow> a + min k (n - a) \<le> n" for a n k :: nat
  by simp

lemma random_loop_length: "random_loop len answers got = Some bs \<Longrightarrow> length got \<le> len \<Longrightarrow> length bs = len"
  by (induction len answers got rule: random_loop.induct) (auto split: if_splits sum.splits)

section \<open>Timestamps\<close>

lemma split_ns: "split_ns ns = (ns div 1000000000, ns mod 1000000000)"
proof -
  define s where "s = ns sdiv 1000000000"
  define r where "r = ns smod 1000000000"
  have "ns = s * 1000000000 + r" 
  proof -
    have "\<bar>ns\<bar> = \<bar>ns\<bar> div 1000000000 * 1000000000 + \<bar>ns\<bar> mod 1000000000" by simp
    then have "sgn ns * \<bar>ns\<bar> = sgn ns * (\<bar>ns\<bar> div 1000000000) * 1000000000 + sgn ns * (\<bar>ns\<bar> mod 1000000000)"
      by (metis distrib_left mult.assoc)
    then show ?thesis unfolding s_def r_def signed_modulo_int_def signed_divide_int_def by (simp add: sgn_mult_abs)
  qed
  moreover have "\<bar>r\<bar> < 1000000000"
  proof -
    have "0 \<le> \<bar>ns\<bar> mod 1000000000" "\<bar>ns\<bar> mod 1000000000 < 1000000000" by simp_all
    then show ?thesis unfolding r_def signed_modulo_int_def by (simp add: abs_mult sgn_if)
  qed
  ultimately have sr: "ns = s * 1000000000 + r" "- 1000000000 < r" "r < 1000000000" by linarith+
  have "split_ns ns = (if r < 0 then (s - 1, r + 1000000000) else (s, r))"
    by (simp add: split_ns_def Let_def s_def r_def)
  moreover have "ns div 1000000000 = (if r < 0 then s - 1 else s)"
    by (rule int_div_pos_eq [where r = "if r < 0 then r + 1000000000 else r"]) (use sr in auto)
  moreover have "ns mod 1000000000 = (if r < 0 then r + 1000000000 else r)"
    by (rule int_mod_pos_eq [where q = "if r < 0 then s - 1 else s"]) (use sr in auto)
  ultimately show ?thesis by simp
qed

text \<open>What a reader of the wire format computes.\<close>

definition stamp_ns :: "string \<Rightarrow> int" where
  "stamp_ns s = (timegm (iso_fields s) - 978307200) * 1000000000 + int (number (take 9 (drop 20 s)))"

lemma zr_timestamp_form:
  "zr_timestamp ns cap = (if 0 \<le> tm_year (gmtime (ns div 1000000000 + apple_epoch)) \<and>
     tm_year (gmtime (ns div 1000000000 + apple_epoch)) \<le> 8099 \<and> 30 < cap
   then Some (iso_date (gmtime (ns div 1000000000 + apple_epoch)) @ ''.'' @ fixed 9 (nat (ns mod 1000000000)) @ ''Z'')
   else None)"
  by (simp add: zr_timestamp_def split_ns Let_def)

lemma gmtime_year: "0 \<le> tm_year (gmtime t) \<longleftrightarrow> - 2208988800 \<le> t" "tm_year (gmtime t) \<le> 8099 \<longleftrightarrow> t < 253402300800"
proof -
  define d where "d = t div 86400"
  have y: "tm_year (gmtime t) = year_of d - 1900" by (simp add: gmtime_def Let_def d_def split: prod.splits)
  have mono: "year_start a \<le> year_start b" if "a \<le> b" for a b
    using that
  proof (induction b rule: int_ge_induct)
    case (step i)
    then show ?case using year_start_increases [of i] by linarith
  qed simp
  note b = year_of_bounds [of d]
  have *: "year_of d < c \<longleftrightarrow> d < year_start c" for c
  proof
    assume "year_of d < c"
    then show "d < year_start c" using b mono [of "year_of d + 1" c] by linarith
  next
    assume "d < year_start c"
    then show "year_of d < c" using b mono [of c "year_of d"] by linarith
  qed
  have "year_start 1900 = - 25567" "year_start 10000 = 2932897" by (simp_all add: year_start_def leaps_def)
  with * [of 1900] * [of 10000] have "0 \<le> year_of d - 1900 \<longleftrightarrow> - 25567 \<le> d" "year_of d - 1900 \<le> 8099 \<longleftrightarrow> d < 2932897"
    by linarith+
  then show "0 \<le> tm_year (gmtime t) \<longleftrightarrow> - 2208988800 \<le> t" "tm_year (gmtime t) \<le> 8099 \<longleftrightarrow> t < 253402300800"
    unfolding y d_def by linarith+
qed

text \<open>
  C23: A timestamp of the Messages database is written as 29 characters and a final \<open>Z\<close> whose
  fields denote exactly the given number of nanoseconds since 2001, so nothing of the precision is
  lost and different times never share a text. It is written just when the buffer has room for
  the text and its NUL and the time lies in the years 1900 to 9999; a longer text is never returned.
\<close>

theorem zr_timestamp_roundtrip:
  shows "(if 30 < cap \<and> (- 2208988800 - 978307200) * 1000000000 \<le> ns \<and> ns < (253402300800 - 978307200) * 1000000000
    then \<exists>s. zr_timestamp ns cap = Some s \<and> stamp_ns s = ns \<and> length s = 30 \<and>
      (\<exists>date fraction. s = date @ ''.'' @ fraction @ ''Z'' \<and> length date = 19 \<and> length fraction = 9)
    else zr_timestamp ns cap = None)"
proof -
  define q where "q = ns div 1000000000"
  define r where "r = ns mod 1000000000"
  define t where "t = gmtime (q + apple_epoch)"
  have qr: "ns = q * 1000000000 + r" "0 \<le> r" "r < 1000000000" unfolding q_def r_def by simp_all
  have bound: "a \<le> q \<longleftrightarrow> a * 1000000000 \<le> ns" "q < a \<longleftrightarrow> ns < a * 1000000000" for a using qr by linarith+
  have "0 \<le> tm_year t \<longleftrightarrow> - 2208988800 - apple_epoch \<le> q" unfolding t_def gmtime_year(1) by linarith
  then have lo: "0 \<le> tm_year t \<longleftrightarrow> (- 2208988800 - apple_epoch) * 1000000000 \<le> ns" using bound(1) by blast
  have "tm_year t \<le> 8099 \<longleftrightarrow> q < 253402300800 - apple_epoch" unfolding t_def gmtime_year(2) by linarith
  then have up: "tm_year t \<le> 8099 \<longleftrightarrow> ns < (253402300800 - apple_epoch) * 1000000000" using bound(2) by blast
  note form = zr_timestamp_form [of ns cap, folded q_def r_def, folded t_def]
  show ?thesis
  proof (cases "0 \<le> tm_year t \<and> tm_year t \<le> 8099 \<and> 30 < cap")
    case True
    have "iso_fields (iso_date t @ ''.'' @ fixed 9 (nat r) @ ''Z'') = t"
      using gmtime_correct True unfolding t_def by (intro iso_date_fields) auto
    moreover have "int (number (fixed 9 (nat r))) = r"
      by (rule int_number_fixed) (use qr in simp_all)
    moreover have "timegm t = q + apple_epoch" using gmtime_correct unfolding t_def by blast
    moreover have "\<exists>date fraction. iso_date t @ CHR ''.'' # fixed 9 (nat r) = date @ CHR ''.'' # fraction \<and>
        length date = 19 \<and> length fraction = 9"
      by (intro exI conjI) (rule refl, simp_all)
    ultimately show ?thesis using True lo up qr(1) unfolding form apple_epoch_def by (simp add: stamp_ns_def)
  next
    case False
    then show ?thesis using lo up unfolding form apple_epoch_def by auto
  qed
qed

lemma stamp_sample: "zr_timestamp 1 64 = Some ''2001-01-01T00:00:00.000000001Z''"
  using epoch_iso epoch_ns by (simp add: zr_timestamp_form apple_epoch_def sample_tm)

theorem zr_timestamp_roundtrip_witness:
  "zr_timestamp 1 64 = Some ''2001-01-01T00:00:00.000000001Z'' \<and> stamp_ns ''2001-01-01T00:00:00.000000001Z'' = 1"
  using zr_timestamp_roundtrip [where ns = 1 and cap = 64] stamp_sample by simp

section \<open>Running the script\<close>

text \<open>The bytes kept after round \<open>k\<close> and, if the child has ended in it, after the last read.\<close>

definition output_before :: "(nat \<Rightarrow> round) \<Rightarrow> nat \<Rightarrow> char list" where
  "output_before rounds k = take 128 (concat (map (\<lambda>i. so_read (rounds i)) [0..<k]))"

definition final_output :: "(nat \<Rightarrow> round) \<Rightarrow> nat \<Rightarrow> char list" where
  "final_output rounds k = take 128 (concat (map (\<lambda>i. so_read (rounds i)) [0..<Suc k]) @ so_last (rounds k))"

lemma append_result_take: "append_result (take 128 a) b = take 128 (a @ b)"
  by (simp add: append_result_def take_add min_def)

lemma output_step: "append_result (output_before rounds k) (so_read (rounds k)) = output_before rounds (Suc k)"
  by (simp add: output_before_def append_result_take)

lemma output_final: "append_result (output_before rounds (Suc k)) (so_last (rounds k)) = final_output rounds k"
  by (simp only: output_before_def final_output_def append_result_take)

text \<open>Whether the loop goes on after round \<open>k\<close>, and what it returns if not.\<close>

definition goes_on :: "(nat \<Rightarrow> round) \<Rightarrow> int \<times> int \<Rightarrow> int \<Rightarrow> nat \<Rightarrow> bool" where
  "goes_on rounds start timeout k \<longleftrightarrow> so_wait (rounds k) \<in> {Running, WaitFailed EINTR} \<and>
     elapsed_ms start (so_now (rounds k)) < timeout \<and> length (output_before rounds (Suc k)) < 128"

definition ends_with :: "(nat \<Rightarrow> round) \<Rightarrow> nat \<Rightarrow> int \<times> fate" where
  "ends_with rounds k = (case so_wait (rounds k) of
     Exited code \<Rightarrow> (exit_code (Exited code) (final_output rounds k), Reaped)
   | Signalled \<Rightarrow> (-1, Reaped)
   | WaitFailed e \<Rightarrow> (-1, if e = EINTR then Killed else Unknown)
   | Running \<Rightarrow> (-1, Killed))"

lemma spawn_loop_step:
  "spawn_loop rounds start timeout (Suc fuel) k (output_before rounds k) =
   (if goes_on rounds start timeout k then spawn_loop rounds start timeout fuel (Suc k) (output_before rounds (Suc k))
    else Some (ends_with rounds k))"
  by (auto simp: Let_def output_step output_final goes_on_def ends_with_def exit_code_def not_less split: wait_answer.split)

lemma spawn_loop_ends:
  "\<forall>i. k \<le> i \<and> i < j \<longrightarrow> goes_on rounds start timeout i \<Longrightarrow> \<not> goes_on rounds start timeout j \<Longrightarrow> k \<le> j \<Longrightarrow> j - k < fuel \<Longrightarrow>
   spawn_loop rounds start timeout fuel k (output_before rounds k) = Some (ends_with rounds j)"
proof (induction fuel arbitrary: k)
  case (Suc fuel)
  show ?case
  proof (cases "k = j")
    case True
    then show ?thesis using Suc.prems(2) spawn_loop_step [of rounds start timeout fuel k] by auto
  next
    case False
    then have "goes_on rounds start timeout k" "Suc k \<le> j" "j - Suc k < fuel" using Suc.prems by auto
    then show ?thesis using Suc.IH [of "Suc k"] Suc.prems(1,2) spawn_loop_step [of rounds start timeout fuel k] by auto
  qed
qed simp

lemma marker_codes: "- 1 \<le> marker_code s \<and> marker_code s \<le> 4"
  by (simp add: marker_code_def Let_def)

lemma ends_with_code: "- 1 \<le> fst (ends_with rounds k) \<and> fst (ends_with rounds k) \<le> 4"
  using marker_codes by (auto simp: ends_with_def exit_code_def split: wait_answer.split)

text \<open>
  C15: Running the script always ends: whatever the child, the pipe and the signals do, once the
  monotonic clock has passed the timeout in some round \<open>k\<close> the loop has returned within \<open>k + 1\<close>
  rounds, with at most 128 bytes retained. It returns at the first round in which the child has
  ended, \<open>waitpid\<close> failed, the time was over or 128 bytes had come; a child that had not ended is
  then killed and reaped. A code of 0 or more is only returned for a child that exited with status
  0 after fewer than 128 bytes, and is the one the last line of its whole output stands for.
\<close>

theorem zr_spawn_terminates:
  assumes "elapsed_ms start (so_now (rounds k)) \<ge> timeout" and "k < fuel"
  shows "\<exists>j code fate. j \<le> k \<and> zr_spawn True rounds start timeout fuel = Some (code, Some fate) \<and>
    (\<forall>i < j. goes_on rounds start timeout i) \<and> \<not> goes_on rounds start timeout j \<and>
    - 1 \<le> code \<and> code \<le> 4 \<and> (so_wait (rounds j) = Running \<longrightarrow> fate = Killed) \<and>
    (0 \<le> code \<longrightarrow> fate = Reaped \<and> so_wait (rounds j) = Exited 0 \<and> length (final_output rounds j) < 128 \<and>
       code = marker_code (strip_lines (concat (map (\<lambda>i. so_read (rounds i)) [0..<Suc j]) @ so_last (rounds j))))"
proof -
  define j where "j = (LEAST i. \<not> goes_on rounds start timeout i)"
  have "\<not> goes_on rounds start timeout k" using assms(1) by (simp add: goes_on_def)
  then have j: "\<not> goes_on rounds start timeout j" "j \<le> k" unfolding j_def by (rule LeastI, rule Least_le)
  have before: "\<forall>i < j. goes_on rounds start timeout i" unfolding j_def using not_less_Least by blast
  then have "spawn_loop rounds start timeout fuel 0 (output_before rounds 0) = Some (ends_with rounds j)"
    using j assms(2) by (intro spawn_loop_ends) auto
  then have run: "zr_spawn True rounds start timeout fuel =
      Some (fst (ends_with rounds j), Some (snd (ends_with rounds j)))"
    by (simp add: zr_spawn_def output_before_def split: prod.split)
  have good: "snd (ends_with rounds j) = Reaped \<and> so_wait (rounds j) = Exited 0 \<and> length (final_output rounds j) < 128 \<and>
      fst (ends_with rounds j) = marker_code (strip_lines (final_output rounds j))"
    if "0 \<le> fst (ends_with rounds j)"
    using that by (auto simp: ends_with_def exit_code_def split: wait_answer.splits if_splits)
  have whole: "final_output rounds j = concat (map (\<lambda>i. so_read (rounds i)) [0..<Suc j]) @ so_last (rounds j)"
    if "length (final_output rounds j) < 128"
    using that unfolding final_output_def by (simp only: length_take min_less_iff_conj) simp
  have "so_wait (rounds j) = Running \<longrightarrow> snd (ends_with rounds j) = Killed" by (simp add: ends_with_def)
  with run j(1,2) before ends_with_code [of rounds j] good whole show ?thesis
    by (intro exI [of _ j] exI [of _ "fst (ends_with rounds j)"] exI [of _ "snd (ends_with rounds j)"]) auto
qed

text \<open>A script that answers in two pieces and exits in the second round.\<close>

definition invoked_rounds :: "nat \<Rightarrow> round" where
  "invoked_rounds i = (if i = 0 then \<lparr>so_read = ''inv'', so_wait = Running, so_last = [], so_now = (1, 20000000)\<rparr>
     else if i = 1 then \<lparr>so_read = ''ok'', so_wait = Exited 0, so_last = ''ed'' @ [CHR 0x0A], so_now = (1, 40000000)\<rparr>
     else \<lparr>so_read = [], so_wait = Running, so_last = [], so_now = (7, 0)\<rparr>)"

theorem zr_spawn_terminates_witness:
  "5000 \<le> elapsed_ms (1, 0) (so_now (invoked_rounds 2)) \<and>
   zr_spawn True invoked_rounds (1, 0) 5000 3 = Some (0, Some Reaped) \<and>
   (\<exists>j code fate. j \<le> (2 :: nat) \<and> zr_spawn True invoked_rounds (1, 0) 5000 3 = Some (code, Some fate) \<and> code \<le> 4)"
proof -
  have t: "5000 \<le> elapsed_ms (1, 0) (so_now (invoked_rounds 2))" by (simp add: elapsed_ms_def invoked_rounds_def)
  have r: "zr_spawn True invoked_rounds (1, 0) 5000 3 = Some (0, Some Reaped)"
    by (simp add: zr_spawn_def numeral_3_eq_3 invoked_rounds_def append_result_def exit_code_def marker_code_def
      strip_lines_def elapsed_ms_def Let_def)
  from zr_spawn_terminates [where rounds = invoked_rounds and k = 2 and fuel = 3, OF t] r show ?thesis using t by auto
qed

section \<open>Private files\<close>

definition secret_flags :: "oflag list \<Rightarrow> bool" where
  "secret_flags fl \<longleftrightarrow> O_CREAT \<in> set fl \<and> O_NOFOLLOW \<in> set fl \<and> O_WRONLY \<in> set fl \<and> O_DIRECTORY \<notin> set fl \<and>
     (O_TRUNC \<in> set fl \<or> O_EXCL \<in> set fl)"

text \<open>
  \<open>opens_empty w v fd d n i\<close>: \<open>fd\<close> is open for writing at the start of the inode \<open>i\<close> that the
  entry \<open>n\<close> of \<open>d\<close> names in \<open>v\<close>; a regular file is empty, everything else is as in \<open>w\<close>.
\<close>

definition opens_empty :: "world \<Rightarrow> world \<Rightarrow> fd \<Rightarrow> ino \<Rightarrow> string \<Rightarrow> ino \<Rightarrow> bool" where
  "opens_empty w v fd d n i \<longleftrightarrow> entry v d n = Some i \<and> fd = w_nextfd w \<and> w_nextfd v = w_nextfd w + 1 \<and>
     w_files v = (w_files w)(fd \<mapsto> \<lparr>f_ino = i, f_pos = 0, f_wr = True\<rparr>) \<and> w_uid v = w_uid w \<and> w_root v = w_root w \<and>
     (\<forall>bs. file_bytes v i = Some bs \<longrightarrow> bs = []) \<and> (\<forall>j. j \<noteq> i \<longrightarrow> file_bytes v j = file_bytes w j) \<and>
     (\<forall>e m. \<not> (e = d \<and> m = n) \<and> e \<noteq> w_next w \<longrightarrow> entry v e m = entry w e m)"

lemma new_fd_effect:
  assumes "new_fd i wr w = (Inr fd, v)"
  shows "fd = w_nextfd w \<and> w_nextfd v = w_nextfd w + 1 \<and> w_uid v = w_uid w \<and> w_root v = w_root w \<and> entry v = entry w \<and>
    w_files v = (w_files w)(fd \<mapsto> \<lparr>f_ino = i, f_pos = 0, f_wr = wr\<rparr>) \<and> file_bytes v = file_bytes w"
  using assms by (auto simp: new_fd_def file_bytes_def node_of_def entry_def dir_of_def fun_eq_iff)

lemma open_inode_write:
  assumes "open_inode i fl w = (Inr fd, v)" and "O_WRONLY \<in> set fl"
  shows "fd = w_nextfd w \<and> w_nextfd v = w_nextfd w + 1 \<and> w_uid v = w_uid w \<and> w_root v = w_root w \<and> entry v = entry w \<and>
    w_files v = (w_files w)(fd \<mapsto> \<lparr>f_ino = i, f_pos = 0, f_wr = True\<rparr>) \<and>
    (\<forall>j. j \<noteq> i \<longrightarrow> file_bytes v j = file_bytes w j) \<and>
    (O_TRUNC \<in> set fl \<longrightarrow> (\<forall>bs. file_bytes v i = Some bs \<longrightarrow> bs = [])) \<and>
    (O_TRUNC \<notin> set fl \<longrightarrow> file_bytes v i = file_bytes w i)"
proof (cases "\<exists>bs. node_of w i = Some (Regular bs) \<and> O_TRUNC \<in> set fl")
  case True
  then obtain bs nd where nd: "w_inodes w i = Some nd" "i_node nd = Regular bs" and t: "O_TRUNC \<in> set fl"
    by (auto simp: node_of_def)
  define x where "x = w\<lparr>w_inodes := (w_inodes w)(i \<mapsto> nd\<lparr>i_node := Regular [], i_mtime := w_now w, i_ctime := w_now w\<rparr>)\<rparr>"
  have "touch i (set_node i (Regular []) w) = x" using nd by (simp add: touch_def set_node_def x_def)
  then have "new_fd i True x = (Inr fd, v)"
    using assms nd t by (simp add: open_inode_def node_of_def Let_def split: if_splits)
  moreover have "entry x = entry w"
    using nd by (auto simp: x_def entry_def dir_of_def fun_eq_iff)
  moreover have "file_bytes x i = Some []" "\<And>j. j \<noteq> i \<Longrightarrow> file_bytes x j = file_bytes w j"
    by (simp_all add: x_def file_bytes_def node_of_def)
  moreover have "w_files x = w_files w" "w_nextfd x = w_nextfd w" "w_uid x = w_uid w" "w_root x = w_root w"
    by (simp_all add: x_def)
  ultimately show ?thesis using t new_fd_effect [of i True x fd v] by auto
next
  case False
  then have n: "new_fd i True w = (Inr fd, v)"
    using assms by (auto simp: open_inode_def Let_def split: option.splits node.splits if_splits)
  have "file_bytes w i = None" if "O_TRUNC \<in> set fl"
    using False that by (auto simp: file_bytes_def split: option.splits node.splits)
  then show ?thesis using new_fd_effect [OF n] by auto
qed

lemma sys_open_secret:
  assumes "sys_open path fl m w = (Inr fd, v)" and "secret_flags fl" and "fresh_inode w"
  shows "\<exists>d n i. parent_of w (-100) path = Inr (d, n) \<and> n \<notin> {'''', ''.'', ''..''} \<and> opens_empty w v fd d n i \<and>
    (O_EXCL \<in> set fl \<longrightarrow> entry w d n = None)"
  using assms(1) unfolding sys_open_def sys_openat_def
proof (cases rule: syscall_cases)
  case (run lim)
  let ?w = "w\<lparr>w_script := tl (w_script w)\<rparr>"
  have fl: "O_CREAT \<in> set fl" "O_NOFOLLOW \<in> set fl" "O_WRONLY \<in> set fl" "O_DIRECTORY \<notin> set fl"
    using assms(2) by (auto simp: secret_flags_def)
  from run fl obtain d n where p: "parent_of ?w (-100) path = Inr (d, n)" and n: "n \<notin> {'''', ''.'', ''..''}"
    by (auto split: sum.splits if_splits prod.splits)
  have dir: "dir_of ?w d \<noteq> None" using p by (auto simp: parent_of_def split: if_splits option.splits sum.splits)
  have pw: "parent_of w (-100) path = Inr (d, n)" using p by simp
  show ?thesis
  proof (cases "entry ?w d n")
    case None
    obtain i u where c: "create_inode d n (Regular []) m ?w = (i, u)" by fastforce
    have fresh: "fresh_inode ?w" using assms(3) by (simp add: fresh_inode_def)
    note cr = create_inode_created [OF fresh dir c]
    have o: "open_inode i fl u = (Inr fd, v)" using run p n None fl c by (auto split: prod.splits)
    from cr have u: "i = w_next w" "entry u d = (entry ?w d)(n \<mapsto> w_next w)"
      "\<forall>e. e \<noteq> d \<and> e \<noteq> w_next w \<longrightarrow> entry u e = entry ?w e" "file_bytes u i = Some []"
      "\<forall>j. j \<noteq> i \<longrightarrow> file_bytes u j = file_bytes ?w j" "w_files u = w_files w" "w_nextfd u = w_nextfd w"
      "w_uid u = w_uid w" "w_root u = w_root w"
      by (auto simp: created_def same_env_def file_bytes_def node_of_def)
    have "entry u e m = entry w e m" if "\<not> (e = d \<and> m = n)" "e \<noteq> w_next w" for e m
      using that u(2,3) by (cases "e = d") auto
    then have "opens_empty w v fd d n i"
      using open_inode_write [OF o fl(3)] u by (auto simp: opens_empty_def)
    then show ?thesis using pw n None by auto
  next
    case (Some i)
    then have ex: "O_EXCL \<notin> set fl" using run p n fl by (auto split: if_splits)
    then have tr: "O_TRUNC \<in> set fl" using assms(2) by (simp add: secret_flags_def)
    have o: "open_inode i fl ?w = (Inr fd, v)"
      using run p n fl Some ex by (auto split: option.splits node.splits)
    have "opens_empty w v fd d n i"
      using open_inode_write [OF o fl(3)] Some tr by (auto simp: opens_empty_def)
    then show ?thesis using pw n ex by auto
  qed
qed auto

lemma open_err_files:
  assumes "sys_open path fl m w = (Inl e, v)"
  shows "w_files v = w_files w"
  using assms unfolding sys_open_def sys_openat_def
proof (cases rule: syscall_cases)
  case (run lim)
  let ?w = "w\<lparr>w_script := tl (w_script w)\<rparr>"
  have o: "open_inode i fl u = (Inl x, t) \<Longrightarrow> w_files t = w_files u" for i u x t
    by (auto simp: open_inode_def new_fd_def Let_def split: option.splits node.splits if_splits)
  have c: "create_inode d n k m ?w = (i, u) \<Longrightarrow> w_files u = w_files w" for d n k i u
    by (auto simp: create_inode_def Let_def set_entry_def set_node_def split: option.splits)
  show ?thesis using run
    by (auto simp del: walk.simps split: sum.splits prod.splits if_splits option.splits node.splits dest!: o c)
qed (auto dest: pops_quiet simp: quiet_def)

lemma quiet_contents: "quiet w v \<Longrightarrow> file_bytes v = file_bytes w \<and> attrs v = attrs w"
  by (auto simp: quiet_def file_bytes_def attrs_def same_disk_lookups fun_eq_iff)

text \<open>What a successful call leaves: the entry's file, its bytes and attributes; all else is kept.\<close>

definition secret_written :: "world \<Rightarrow> world \<Rightarrow> string \<Rightarrow> char list \<Rightarrow> bool \<Rightarrow> bool" where
  "secret_written w v path data replace \<longleftrightarrow> (\<exists>d n i. parent_of w (-100) path = Inr (d, n) \<and> n \<notin> {'''', ''.'', ''..''} \<and>
     entry v d n = Some i \<and> file_bytes v i = Some data \<and> attrs v i = Some (w_uid w, M0600, S_REG) \<and>
     w_uid v = w_uid w \<and> (\<not> replace \<longrightarrow> entry w d n = None) \<and> (\<forall>j. j \<noteq> i \<longrightarrow> file_bytes v j = file_bytes w j) \<and>
     (\<forall>e m. \<not> (e = d \<and> m = n) \<and> e \<noteq> w_next w \<longrightarrow> entry v e m = entry w e m))"

lemma regular_empty:
  assumes "opens_empty w u fd d n i" and "w_inodes u i = Some nd" and "S_ISREG (stat_of i nd)"
  shows "file_bytes u i = Some [] \<and> attrs u i = Some (i_uid nd, i_mode nd, S_REG)"
  using assms by (cases "i_node nd") (auto simp: opens_empty_def S_ISREG_def stat_of_def file_bytes_def node_of_def attrs_def)

lemma zr_secure_file_effect:
  assumes "zr_secure_file path data replace w = (r, v)" and "wf_fds w" and "fresh_inode w"
  shows "(r = 0 \<or> r = -1) \<and> w_files v = w_files w \<and> (r = 0 \<longrightarrow> secret_written w v path data replace)"
proof -
  let ?fl = "[O_WRONLY, O_CREAT, O_NOFOLLOW, O_CLOEXEC, if replace then O_TRUNC else O_EXCL]"
  note def = assms(1) [unfolded zr_secure_file_def]
  obtain x w1 where x: "sys_open path ?fl M0600 w = (x, w1)" by fastforce
  show ?thesis
  proof (cases x)
    case (Inl e)
    then have "r = -1" "v = w1" using def x by (simp_all split: if_splits)
    then show ?thesis using open_err_files x Inl by auto
  next
    case (Inr fd)
    have fl: "secret_flags ?fl" by (simp add: secret_flags_def)
    from sys_open_secret [OF x [unfolded Inr] fl assms(3)] obtain d n i where
      p: "parent_of w (-100) path = Inr (d, n)" "n \<notin> {'''', ''.'', ''..''}" and o: "opens_empty w w1 fd d n i"
      and excl: "\<not> replace \<longrightarrow> entry w d n = None" by (auto split: if_splits)
    have closed: "w_files (sys_close fd u) = w_files w" if "(w_files u)(fd := None) = (w_files w1)(fd := None)" for u
    proof -
      have "w_files w fd = None" using o assms(2) by (auto simp: opens_empty_def wf_fds_def)
      then show ?thesis using that o by (simp add: sys_close_def opens_empty_def fun_upd_idem)
    qed
    have fdi: "w_files w1 fd = Some \<lparr>f_ino = i, f_pos = 0, f_wr = True\<rparr>" using o by (simp add: opens_empty_def)
    obtain y w2 where y: "sys_fstat fd w1 = (y, w2)" by fastforce
    have q: "quiet w1 w2" using y fstat_okD fstat_errD by (cases y) blast+
    have fail: ?thesis if "r = -1" "v = sys_close fd u" "(w_files u)(fd := None) = (w_files w1)(fd := None)" for u
      using closed [OF that(3)] that(1,2) by simp
    note run = def [unfolded x Inr prod.case sum.case y]
    show ?thesis
    proof (cases "\<exists>st. y = Inr st \<and> st_uid st = w_uid w2 \<and> S_ISREG st")
      case False
      then have "r = -1" "v = sys_close fd w2" using run by (auto split: sum.splits if_splits)
      then show ?thesis using q by (intro fail [of w2]) (auto simp: quiet_def)
    next
      case True
      then obtain st where st: "y = Inr st" "st_uid st = w_uid w2" "S_ISREG st" by blast
      obtain nd where nd: "w_inodes w1 i = Some nd" "st = stat_of i nd"
        using fstat_okD [of fd w1 st w2] y st(1) fdi by (auto simp: fd_ino_def)
      have e: "file_bytes w1 i = Some []" "attrs w1 i = Some (i_uid nd, i_mode nd, S_REG)"
        using regular_empty [OF o nd(1)] st(3) nd(2) by auto
      have uid: "i_uid nd = w_uid w"
        using st(2) nd(2) q o by (simp add: stat_of_def quiet_def same_disk_def opens_empty_def)
      obtain z w3 where z: "sys_fchmod fd M0600 w2 = (z, w3)" by fastforce
      have s12: "staging i fd w1 w2" by (rule staging_quiet [OF q])
      have fd2: "fd_ino w2 fd = Some i" "w_files w2 fd = Some \<lparr>f_ino = i, f_pos = 0, f_wr = True\<rparr>"
        using q fdi by (simp_all add: quiet_def fd_ino_def)
      note ch = fchmod_staging [OF z fd2(1)]
      note run2 = run [unfolded st(1) sum.case, simplified st(2,3), simplified, unfolded z prod.case]
      show ?thesis
      proof (cases z)
        case (Inl e)
        then have "r = -1" "v = sys_close fd w3" using run2 by auto
        then show ?thesis using staging_trans [OF s12 conjunct1 [OF ch]] by (intro fail [of w3]) (auto simp: staging_def)
      next
        case (Inr u)
        then have c3: "file_bytes w3 = file_bytes w2" "w_files w3 = w_files w2" "staging i fd w2 w3"
          "attrs w3 i = map_option (\<lambda>(u, _, k). (u, M0600, k)) (attrs w2 i)" using ch by auto
        have e3: "file_bytes w3 i = Some []" "attrs w3 i = Some (w_uid w, M0600, S_REG)"
          using c3 e uid quiet_contents [OF q] by simp_all
        obtain ok w4 where wr: "write_all fd data w3 = (ok, w4)" by fastforce
        have fd3: "w_files w3 fd = Some \<lparr>f_ino = i, f_pos = 0, f_wr = True\<rparr>" using c3(2) fd2(2) by simp
        note wrs = write_all_staging [OF wr fd3 e3(1)]
        have s14: "staging i fd w1 w4" using staging_trans [OF s12 staging_trans [OF c3(3)]] wrs by blast
        show ?thesis
        proof (cases ok)
          case False
          then have "r = -1" "v = sys_close fd w4" using run2 Inr wr by auto
          then show ?thesis using s14 by (intro fail [of w4]) (auto simp: staging_def)
        next
          case True
          obtain f w5 where f: "sys_fsync fd w4 = (f, w5)" by fastforce
          have q5: "quiet w4 w5" by (rule fsync_quiet [OF f])
          have s15: "staging i fd w1 w5" using staging_trans [OF s14 staging_quiet [OF q5]] .
          have v: "v = sys_close fd w5" "r = (case f of Inl _ \<Rightarrow> -1 | Inr _ \<Rightarrow> 0)"
            using run2 Inr wr True f by (auto split: sum.splits)
          have "file_bytes w5 i = Some data" "attrs w5 i = Some (w_uid w, M0600, S_REG)"
            using wrs True e3(2) quiet_contents [OF q5] by auto
          then have "secret_written w v path data replace"
            unfolding secret_written_def v(1) using p excl o s15
            by (intro exI [of _ d] exI [of _ n] exI [of _ i]) (auto simp: opens_empty_def staging_def)
          moreover have "w_files v = w_files w" unfolding v(1) by (rule closed) (use s15 in \<open>simp add: staging_def\<close>)
          ultimately show ?thesis using v(2) by (simp split: sum.splits)
        qed
      qed
    qed
  qed
qed

text \<open>
  \<open>zr_secure_file\<close> returns 0 or -1 and leaves the descriptor table as it was, whatever call
  fails. When it returns 0 the entry that the path names holds exactly the data, in a regular file of
  the user with mode 0600 that no symbolic link led to; without \<open>replace\<close> the name was free before.
  No other file's bytes and no other name change.
\<close>

theorem zr_secure_file_private:
  assumes "zr_secure_file path data replace w = (r, v)" and "wf_fds w" and "fresh_inode w"
  shows "(r = 0 \<or> r = -1) \<and> w_files v = w_files w \<and> (r = 0 \<longrightarrow> secret_written w v path data replace)"
  using assms by (rule zr_secure_file_effect)

theorem zr_secure_file_private_witness:
  "\<exists>v. zr_secure_file ''/up/k'' ''key'' False (sample_world [Ok, Ok, Ok, Short 2, Fail EINTR]) = (0, v) \<and>
     w_files v = w_files (sample_world []) \<and>
     secret_written (sample_world [Ok, Ok, Ok, Short 2, Fail EINTR]) v ''/up/k'' ''key'' False"
proof -
  let ?w = "sample_world [Ok, Ok, Ok, Short 2, Fail EINTR]"
  have "fst (zr_secure_file ''/up/k'' ''key'' False ?w) = 0"
    by (simp add: zr_secure_file_def sys_open_def sys_fchmod_def write_all.simps posix_run)
  then obtain v where v: "zr_secure_file ''/up/k'' ''key'' False ?w = (0, v)" by (metis prod.collapse)
  have "w_files ?w = w_files (sample_world [])" by (simp add: sample_world_def)
  with zr_secure_file_private [OF v sample_wf] v show ?thesis by auto
qed

lemma zr_read_secret_run:
  assumes "w_script v = []" and "parent_of v (-100) path = Inr (d, n)" and "n \<notin> {'''', ''.'', ''..''}"
    and "entry v d n = Some i" and "w_inodes v i = Some nd" and "i_node nd = Regular bs" and "secret_ok (w_uid v) (stat_of i nd)"
    and "length bs < cap"
  shows "fst (zr_read_secret path cap v) = Some bs"
  using assms
  by (simp add: zr_read_secret_def sys_open_def sys_openat_def sys_fstat_def sys_read_def syscall_def tick_def node_of_def
      open_inode_def new_fd_def fd_ino_def file_bytes_def limited_def Let_def)

text \<open>
  C22: A secret that was stored is the secret that is read back: after a successful
  \<open>zr_secure_file\<close>, as long as the path still leads to the same directory and no call fails,
  \<open>zr_read_secret\<close> with room for the data and one byte more returns exactly the data.
\<close>

theorem zr_secret_roundtrip:
  assumes "zr_secure_file path data replace w = (0, v)" and "wf_fds w" and "fresh_inode w"
    and "parent_of v (-100) path = parent_of w (-100) path" and "w_script v = []" and "length data < cap"
  shows "fst (zr_read_secret path cap v) = Some data"
proof -
  from zr_secure_file_effect [OF assms(1-3)] obtain d n i where
    s: "parent_of w (-100) path = Inr (d, n)" "n \<notin> {'''', ''.'', ''..''}" "entry v d n = Some i"
      "file_bytes v i = Some data" "attrs v i = Some (w_uid w, M0600, S_REG)" "w_uid v = w_uid w" by (auto simp: secret_written_def)
  then obtain nd where nd: "w_inodes v i = Some nd" "i_node nd = Regular data" "i_uid nd = w_uid w" "i_mode nd = M0600"
    by (auto simp: attrs_def file_bytes_def node_of_def split: option.splits node.splits)
  have "secret_ok (w_uid v) (stat_of i nd)"
    using nd s(6) by (simp add: secret_ok_def stat_of_def S_ISREG_def mode_defs)
  from zr_read_secret_run [OF assms(5) _ s(2,3) nd(1,2) this assms(6)] assms(4) s(1) show ?thesis by simp
qed

theorem zr_secret_roundtrip_witness:
  "\<exists>v. zr_secure_file ''/up/k'' ''key'' False (sample_world []) = (0, v) \<and> fst (zr_read_secret ''/up/k'' 16 v) = Some ''key''"
proof -
  let ?r = "zr_secure_file ''/up/k'' ''key'' False (sample_world [])"
  have f: "fst ?r = 0" "w_script (snd ?r) = []" "parent_of (snd ?r) (-100) ''/up/k'' = Inr (1, ''k'')"
    "parent_of (sample_world []) (-100) ''/up/k'' = Inr (1, ''k'')"
    by (simp_all add: zr_secure_file_def sys_open_def sys_fchmod_def write_all.simps posix_run max_links_def)
  then obtain v where v: "?r = (0, v)" by (metis prod.collapse)
  from zr_secret_roundtrip [OF v sample_wf, of 16] v f show ?thesis by auto
qed

section \<open>The watch\<close>

text \<open>An event that makes the caller look at the database again.\<close>

definition relevant :: "string list \<Rightarrow> inotify_event \<Rightarrow> bool" where
  "relevant names ev \<longleftrightarrow> ie_overflow ev \<or> ie_ignored ev \<or> ie_moved ev \<or> (ie_name ev \<noteq> '''' \<and> ie_name ev \<in> set names)"

lemma watch_events:
  "foldl (\<lambda>x ev. watch_event ev x) (c, w) evs = (d, v) \<Longrightarrow>
   wt_names v = wt_names w \<and> (c \<longrightarrow> d) \<and> (d \<longrightarrow> c \<or> (\<exists>ev \<in> set evs. relevant (wt_names w) ev)) \<and>
   ((\<exists>ev \<in> set evs. ie_overflow ev \<or> ie_name ev \<noteq> '''' \<and> ie_name ev \<in> set (wt_names w)) \<longrightarrow> d) \<and>
   (\<not> d \<longrightarrow> wt_directory v = wt_directory w)"
proof (induction evs arbitrary: c w)
  case (Cons ev evs)
  obtain c1 w1 where s: "watch_event ev (c, w) = (c1, w1)" by fastforce
  have 1: "wt_names w1 = wt_names w" "c \<longrightarrow> c1" "c1 \<longrightarrow> c \<or> relevant (wt_names w) ev"
    "ie_overflow ev \<or> ie_name ev \<noteq> '''' \<and> ie_name ev \<in> set (wt_names w) \<longrightarrow> c1"
    "\<not> c1 \<longrightarrow> wt_directory w1 = wt_directory w"
    using s by (auto simp: watch_event_def relevant_def Let_def split: if_splits)
  from Cons.IH [of c1 w1] Cons.prems s have "wt_names v = wt_names w1 \<and> (c1 \<longrightarrow> d) \<and>
     (d \<longrightarrow> c1 \<or> (\<exists>ev \<in> set evs. relevant (wt_names w1) ev)) \<and>
     ((\<exists>ev \<in> set evs. ie_overflow ev \<or> ie_name ev \<noteq> '''' \<and> ie_name ev \<in> set (wt_names w1)) \<longrightarrow> d) \<and>
     (\<not> d \<longrightarrow> wt_directory v = wt_directory w1)" by simp
  with 1 show ?case by auto
qed simp

lemma watch_loop_result:
  "watch_loop deadline rounds w = Some (c, v) \<Longrightarrow> wt_names v = wt_names w \<and>
   (c \<longrightarrow> (\<exists>r \<in> set rounds. \<exists>ev \<in> set (wr_events r). relevant (wt_names w) ev)) \<and>
   (\<not> c \<longrightarrow> (\<exists>r \<in> set rounds. \<not> wr_ready r \<or> wr_end r \<ge> deadline))"
proof (induction deadline rounds w rule: watch_loop.induct)
  case (2 deadline r rs w)
  define w1 where "w1 = (if wt_directory w < 0 then w\<lparr>wt_directory := wr_added r\<rparr> else w)"
  have n: "wt_names w1 = wt_names w" by (simp add: w1_def)
  show ?case
  proof (cases "wr_ready r")
    case True
    obtain d w2 where f: "foldl (\<lambda>x ev. watch_event ev x) (False, w1) (wr_events r) = (d, w2)" by fastforce
    note e = watch_events [OF f]
    note run = "2.prems" [unfolded watch_loop.simps Let_def, folded w1_def, unfolded f prod.case]
    show ?thesis
    proof (cases "d \<or> wr_end r \<ge> deadline")
      case stop: True
      then show ?thesis using run e n True by (auto split: if_splits)
    next
      case False
      then have "watch_loop deadline rs w2 = Some (c, v)" using run True by simp
      with "2.IH" [OF w1_def _ f [symmetric]] True False have
        "wt_names v = wt_names w2 \<and> (c \<longrightarrow> (\<exists>r \<in> set rs. \<exists>ev \<in> set (wr_events r). relevant (wt_names w2) ev)) \<and>
         (\<not> c \<longrightarrow> (\<exists>r \<in> set rs. \<not> wr_ready r \<or> wr_end r \<ge> deadline))" by auto
      then show ?thesis using e n by auto
    qed
  next
    case False
    then show ?thesis using "2.prems" n by (auto simp: Let_def)
  qed
qed simp

lemma base_name_suffix: "CHR ''/'' \<notin> set s \<Longrightarrow> base_name (p @ s) = base_name p @ s"
  by (simp add: base_name_def takeWhile_append2 takeWhile_append)

text \<open>
  C39: The wait wakes its caller only for the database, its write-ahead log or its journal, for the
  loss of the watched directory or for a queue overflow; the traffic of readers on the shared memory
  file, or on any other file of the directory, never does. A wait that reports nothing ended because
  nothing came in time. The names watched are those of the path and never change.
\<close>

theorem zr_watch_wait_relevant:
  assumes "zr_watch_open ready path = Some w0" and "wt_names w = wt_names w0"
    and "zr_watch_wait now timeout rounds (Some w) = Some (changed, v)"
  shows "(\<exists>u. v = Some u \<and> wt_names u = wt_names w0) \<and>
    (changed \<longrightarrow> (\<exists>r \<in> set rounds. \<exists>ev \<in> set (wr_events r). ie_overflow ev \<or> ie_ignored ev \<or> ie_moved ev \<or>
       ie_name ev \<in> {base_name path, base_name path @ ''-wal'', base_name path @ ''-journal''})) \<and>
    (\<not> changed \<longrightarrow> (\<exists>r \<in> set rounds. \<not> wr_ready r \<or> wr_end r \<ge> now + timeout)) \<and>
    base_name path @ ''-shm'' \<notin> set (wt_names w)"
proof -
  have n: "wt_names w0 = [base_name path, base_name path @ ''-wal'', base_name path @ ''-journal'']"
    using assms(1) by (auto simp: zr_watch_open_def Let_def base_name_suffix split: if_splits)
  from assms(3) obtain u where u: "watch_loop (now + timeout) rounds w = Some (changed, u)" "v = Some u"
    by (auto simp: zr_watch_wait_def split: option.splits)
  show ?thesis using watch_loop_result [OF u(1)] u(2) n assms(2) by (auto simp: relevant_def)
qed

definition wal_event :: inotify_event where
  "wal_event = \<lparr>ie_wd = 1, ie_ignored = False, ie_moved = False, ie_overflow = False, ie_name = ''chat.db-wal''\<rparr>"

definition shm_event :: inotify_event where
  "shm_event = wal_event\<lparr>ie_name := ''chat.db-shm''\<rparr>"

definition wal_rounds :: "watch_round list" where
  "wal_rounds = [\<lparr>wr_start = 0, wr_added = 1, wr_ready = True, wr_events = [shm_event], wr_end = 5\<rparr>,
     \<lparr>wr_start = 5, wr_added = 0, wr_ready = True, wr_events = [shm_event, wal_event], wr_end = 6\<rparr>]"

definition wal_watch :: watch where
  "wal_watch = \<lparr>wt_paths = [''/m'', ''/m/chat.db'', ''/m/chat.db-wal'', ''/m/chat.db-journal''], wt_directory = -1,
     wt_names = [''chat.db'', ''chat.db-wal'', ''chat.db-journal'']\<rparr>"

theorem zr_watch_wait_relevant_witness:
  "zr_watch_wait 0 100 wal_rounds (Some wal_watch) = Some (True, Some (wal_watch\<lparr>wt_directory := 1\<rparr>)) \<and>
   (\<exists>r \<in> set wal_rounds. \<exists>ev \<in> set (wr_events r). ie_name ev \<in> {''chat.db'', ''chat.db-wal'', ''chat.db-journal''} \<or>
      ie_overflow ev \<or> ie_ignored ev \<or> ie_moved ev)"
proof -
  have o: "zr_watch_open True ''/m/chat.db'' = Some wal_watch"
    by (simp add: zr_watch_open_def wal_watch_def PATH_MAX_def dir_name_def base_name_def Let_def)
  have r: "zr_watch_wait 0 100 wal_rounds (Some wal_watch) = Some (True, Some (wal_watch\<lparr>wt_directory := 1\<rparr>))"
    by (simp add: zr_watch_wait_def wal_rounds_def wal_watch_def wal_event_def shm_event_def watch_event_def Let_def)
  from zr_watch_wait_relevant [OF o refl r] r show ?thesis by (auto simp: base_name_def)
qed

end
