(* ===== verification/Wayland.thy ===== *)
theory Wayland
  imports Drop Posix
begin

text \<open>
  Drag and drop over Wayland, \<open>src/client/desktop/wayland.c\<close>: the data device of the seat, the list of
  data offers, the offer of the current drag and the one transfer that reads a dropped URI list from
  a pipe. The component drives \<open>drop.c\<close> (\<open>zc_drop_set_hovered\<close>, \<open>zc_drop_offer\<close>,
  \<open>zc_drop_reject\<close>). Its file-scope variables are the record \<open>wayland\<close>; a pointer to an \<open>Offer\<close> is
  the name of its proxy. libwayland and SDL are not part of the repository: the requests sent to them
  are recorded, newest first, with the descriptors opened and closed; versions of proxies, clocks,
  pipes and allocations answer from arguments.
\<close>

section \<open>State\<close>

record offer =
  of_proxy :: nat
  of_uris :: bool
  of_action :: nat

record drop_transfer =
  tr_offer :: nat
  tr_fd :: fd
  tr_data :: "char list"
  tr_deadline :: nat

datatype wl_request =
    OfferAccept nat "string option"
  | OfferActions nat nat
  | OfferReceive nat fd
  | OfferFinish nat
  | OfferDestroy nat
  | FdOpen fd
  | FdClose fd
  | RegistryBind string nat nat
  | DeviceGet
  | DeviceFree
  | SeatDestroy
  | ManagerDestroy
  | ActivationDestroy
  | Activate string

text \<open>A bound global is its name; \<open>wl_manager\<close> has the bound version too, \<open>wl_device\<close> is whether there is a device.\<close>

record wayland =
  wl_offers :: "offer list"
  wl_drag :: "nat option"
  wl_transfer :: "drop_transfer option"
  wl_drop :: drop_state
  wl_activation :: "nat option"
  wl_manager :: "(nat \<times> nat) option"
  wl_seat :: "nat option"
  wl_device :: bool
  wl_requests :: "wl_request list"

definition wayland_init :: wayland where
  "wayland_init = \<lparr>wl_offers = [], wl_drag = None, wl_transfer = None, wl_drop = drop_init, wl_activation = None,
     wl_manager = None, wl_seat = None, wl_device = False, wl_requests = []\<rparr>"

definition send :: "wl_request \<Rightarrow> wayland \<Rightarrow> wayland" where
  "send r w = w\<lparr>wl_requests := r # wl_requests w\<rparr>"

definition hover :: "bool \<Rightarrow> wayland \<Rightarrow> wayland" where
  "hover active w = w\<lparr>wl_drop := zc_drop_set_hovered active (wl_drop w)\<rparr>"

definition reject :: "wayland \<Rightarrow> wayland" where
  "reject w = w\<lparr>wl_drop := zc_drop_reject (wl_drop w)\<rparr>"

definition find_offer :: "nat \<Rightarrow> wayland \<Rightarrow> offer option" where
  "find_offer p w = find (\<lambda>x. of_proxy x = p) (wl_offers w)"

section \<open>Offers\<close>

definition destroy_offer :: "nat option \<Rightarrow> wayland \<Rightarrow> wayland" where
  "destroy_offer offer w = (case offer of
     None \<Rightarrow> w
   | Some p \<Rightarrow> send (OfferDestroy p)
       (w\<lparr>wl_offers := filter (\<lambda>x. of_proxy x \<noteq> p) (wl_offers w),
          wl_drag := (if wl_drag w = Some p then None else wl_drag w)\<rparr>))"

definition mime :: "nat \<Rightarrow> string \<Rightarrow> wayland \<Rightarrow> wayland" where
  "mime p type w =
     (if type = ''text/uri-list''
      then w\<lparr>wl_offers := map (\<lambda>x. if of_proxy x = p then x\<lparr>of_uris := True\<rparr> else x) (wl_offers w)\<rparr> else w)"

definition action :: "nat \<Rightarrow> nat \<Rightarrow> wayland \<Rightarrow> wayland" where
  "action p selected w =
     w\<lparr>wl_offers := map (\<lambda>x. if of_proxy x = p then x\<lparr>of_action := selected\<rparr> else x) (wl_offers w)\<rparr>"

text \<open>\<open>alloc\<close>: whether \<open>calloc\<close> succeeds.\<close>

definition offered :: "bool \<Rightarrow> nat \<Rightarrow> wayland \<Rightarrow> wayland" where
  "offered alloc p w =
     (if \<not> (length (wl_offers w) < 32 \<and> alloc) then reject (send (OfferDestroy p) w)
      else w\<lparr>wl_offers := \<lparr>of_proxy = p, of_uris = False, of_action = 0\<rparr> # wl_offers w\<rparr>)"

definition COPY :: nat where "COPY = 1"

text \<open>\<open>own\<close>: whether the surface is that of the window; \<open>version\<close>: \<open>wl_data_offer_get_version\<close>.\<close>

definition enter :: "(nat \<Rightarrow> nat) \<Rightarrow> bool \<Rightarrow> nat option \<Rightarrow> wayland \<Rightarrow> wayland" where
  "enter version own proxy w =
     (let w = hover False (destroy_offer (wl_drag w) w) in
      case proxy of None \<Rightarrow> w
      | Some p \<Rightarrow>
          (let offer = find_offer p w;
               accept = (case offer of None \<Rightarrow> False | Some x \<Rightarrow> of_uris x \<and> own);
               w = send (OfferAccept p (if accept then Some ''text/uri-list'' else None)) w;
               w = (if version p \<ge> 3 then send (OfferActions p (if accept then COPY else 0)) w else w)
           in hover accept (w\<lparr>wl_drag := map_option of_proxy offer\<rparr>)))"

definition leave :: "wayland \<Rightarrow> wayland" where
  "leave w = (let w = hover False w in destroy_offer (wl_drag w) w)"

section \<open>The transfer\<close>

definition finish_transfer :: "(nat \<Rightarrow> nat) \<Rightarrow> bool \<Rightarrow> wayland \<Rightarrow> wayland" where
  "finish_transfer version complete w = (case wl_transfer w of
     None \<Rightarrow> w
   | Some t \<Rightarrow>
       (let w = (if complete then w\<lparr>wl_drop := zc_drop_offer (tr_data t) (wl_drop w)\<rparr> else reject w);
            copied = (case find_offer (tr_offer t) w of None \<Rightarrow> False | Some x \<Rightarrow> of_action x = COPY);
            w = (if version (tr_offer t) \<ge> 3 \<and> copied then send (OfferFinish (tr_offer t)) w else w);
            w = send (FdClose (tr_fd t)) w
        in (destroy_offer (Some (tr_offer t)) w)\<lparr>wl_transfer := None\<rparr>))"

text \<open>
  The loop of \<open>zc_wayland_poll\<close>; each answer is one \<open>read\<close> of the pipe, \<open>Inr []\<close> its end; a read past
  the answers fails with \<open>EAGAIN\<close>.
\<close>

fun poll_loop :: "(nat \<Rightarrow> nat) \<Rightarrow> (errno + char list) list \<Rightarrow> wayland \<Rightarrow> wayland" where
  "poll_loop version answers w = (case wl_transfer w of
     None \<Rightarrow> w
   | Some t \<Rightarrow>
       if length (tr_data t) \<le> ZC_DROP_BYTES then
         (case answers of
            [] \<Rightarrow> w
          | Inr bs # rest \<Rightarrow>
              (let part = take (ZC_DROP_BYTES + 1 - length (tr_data t)) bs in
               if part = [] then finish_transfer version True w
               else if CHR 0x00 \<in> set part then finish_transfer version False w
               else poll_loop version rest (w\<lparr>wl_transfer := Some (t\<lparr>tr_data := tr_data t @ part\<rparr>)\<rparr>))
          | Inl e # rest \<Rightarrow>
              if e = EINTR then poll_loop version rest w
              else if e = EAGAIN then w
              else finish_transfer version False w)
       else finish_transfer version False w)"

declare poll_loop.simps [simp del]

definition zc_wayland_poll :: "(nat \<Rightarrow> nat) \<Rightarrow> nat \<Rightarrow> (errno + char list) list \<Rightarrow> wayland \<Rightarrow> wayland" where
  "zc_wayland_poll version now answers w = (case wl_transfer w of
     None \<Rightarrow> w
   | Some t \<Rightarrow> if now \<ge> tr_deadline t then finish_transfer version False w else poll_loop version answers w)"

definition zc_wayland_wait_limit :: "int \<Rightarrow> wayland \<Rightarrow> int" where
  "zc_wayland_wait_limit timeout_ms w =
     (if wl_transfer w \<noteq> None \<and> (timeout_ms < 0 \<or> timeout_ms > 10) then 10 else timeout_ms)"

text \<open>\<open>pipe\<close>: the two descriptors of \<open>pipe2\<close>, if it succeeds; \<open>alloc\<close>: whether \<open>malloc\<close> does.\<close>

definition dropped :: "(fd \<times> fd) option \<Rightarrow> bool \<Rightarrow> nat \<Rightarrow> wayland \<Rightarrow> wayland" where
  "dropped pipe alloc now w =
     (let w = (case wl_drag w of
          None \<Rightarrow> w
        | Some p \<Rightarrow>
            if \<not> zc_drop_hovered (wl_drop w) then w
            else if wl_transfer w \<noteq> None then reject w
            else case pipe of
              None \<Rightarrow> reject w
            | Some (r, s) \<Rightarrow>
                (let w = send (FdOpen s) (send (FdOpen r) w) in
                 if \<not> alloc then reject (send (FdClose s) (send (FdClose r) w))
                 else (send (FdClose s) (send (OfferReceive p s) w))
                   \<lparr>wl_transfer := Some \<lparr>tr_offer = p, tr_fd = r, tr_data = [], tr_deadline = now + 2000\<rparr>,
                    wl_drag := None\<rparr>));
          w = hover False w
      in destroy_offer (wl_drag w) w)"

definition selection :: "nat option \<Rightarrow> wayland \<Rightarrow> wayland" where
  "selection proxy w = (case proxy of None \<Rightarrow> w
     | Some p \<Rightarrow> destroy_offer (map_option of_proxy (find_offer p w)) w)"

section \<open>Globals\<close>

definition bind_device :: "wayland \<Rightarrow> wayland" where
  "bind_device w =
     (if wl_manager w \<noteq> None \<and> wl_seat w \<noteq> None \<and> \<not> wl_device w then send DeviceGet (w\<lparr>wl_device := True\<rparr>) else w)"

definition global :: "nat \<Rightarrow> string \<Rightarrow> nat \<Rightarrow> wayland \<Rightarrow> wayland" where
  "global name interface version w =
     bind_device
      (if interface = ''xdg_activation_v1'' \<and> wl_activation w = None
       then send (RegistryBind interface name 1) (w\<lparr>wl_activation := Some name\<rparr>)
       else if interface = ''wl_data_device_manager'' \<and> wl_manager w = None
       then (let bound = (if version < 3 then version else 3)
             in send (RegistryBind interface name bound) (w\<lparr>wl_manager := Some (name, bound)\<rparr>))
       else if interface = ''wl_seat'' \<and> wl_seat w = None
       then send (RegistryBind interface name 1) (w\<lparr>wl_seat := Some name\<rparr>)
       else w)"

definition free_device :: "(nat \<Rightarrow> nat) \<Rightarrow> wayland \<Rightarrow> wayland" where
  "free_device version w =
     (let w = finish_transfer version False w;
          w = foldl (\<lambda>w p. destroy_offer (Some p) w) w (map of_proxy (wl_offers w));
          w = (if wl_device w then send DeviceFree (w\<lparr>wl_device := False\<rparr>) else w)
      in hover False w)"

definition removed :: "(nat \<Rightarrow> nat) \<Rightarrow> nat \<Rightarrow> wayland \<Rightarrow> wayland" where
  "removed version name w =
     (let w = (if wl_activation w = Some name then send ActivationDestroy (w\<lparr>wl_activation := None\<rparr>) else w);
          w = (if wl_seat w = Some name then send SeatDestroy ((free_device version w)\<lparr>wl_seat := None\<rparr>) else w)
      in if map_option fst (wl_manager w) = Some name
         then send ManagerDestroy ((free_device version w)\<lparr>wl_manager := None\<rparr>) else w)"

text \<open>\<open>surface\<close>: whether the window has a Wayland surface.\<close>

definition zc_desktop_activate :: "bool \<Rightarrow> string option \<Rightarrow> wayland \<Rightarrow> bool \<times> wayland" where
  "zc_desktop_activate surface token w = (case token of
     None \<Rightarrow> (False, w)
   | Some t \<Rightarrow> if wl_activation w = None \<or> t = '''' \<or> \<not> surface then (False, w) else (True, send (Activate t) w))"

definition zc_wayland_free :: "(nat \<Rightarrow> nat) \<Rightarrow> wayland \<Rightarrow> wayland" where
  "zc_wayland_free version w =
     (let w = free_device version w;
          w = (if wl_seat w \<noteq> None then send SeatDestroy w else w);
          w = (if wl_manager w \<noteq> None then send ManagerDestroy w else w);
          w = (if wl_activation w \<noteq> None then send ActivationDestroy w else w)
      in w\<lparr>wl_seat := None, wl_manager := None, wl_activation := None\<rparr>)"

section \<open>The requests sent so far\<close>

definition destroyed :: "wl_request list \<Rightarrow> nat set" where
  "destroyed rs = {p. OfferDestroy p \<in> set rs}"

fun open_fds :: "wl_request list \<Rightarrow> fd set" where
  "open_fds [] = {}"
| "open_fds (FdOpen f # rs) = insert f (open_fds rs)"
| "open_fds (FdClose f # rs) = open_fds rs - {f}"
| "open_fds (r # rs) = open_fds rs"

text \<open>A request is in order if it names no destroyed offer, opens no open and closes no closed descriptor.\<close>

fun in_order :: "wl_request \<Rightarrow> wl_request list \<Rightarrow> bool" where
  "in_order (OfferAccept p m) rs = (p \<notin> destroyed rs)"
| "in_order (OfferActions p a) rs = (p \<notin> destroyed rs)"
| "in_order (OfferReceive p f) rs = (p \<notin> destroyed rs \<and> f \<in> open_fds rs)"
| "in_order (OfferFinish p) rs = (p \<notin> destroyed rs)"
| "in_order (OfferDestroy p) rs = (p \<notin> destroyed rs)"
| "in_order (FdOpen f) rs = (f \<notin> open_fds rs)"
| "in_order (FdClose f) rs = (f \<in> open_fds rs)"
| "in_order r rs = True"

fun all_in_order :: "wl_request list \<Rightarrow> bool" where
  "all_in_order [] = True"
| "all_in_order (r # rs) = (in_order r rs \<and> all_in_order rs)"

lemma destroyed_simps [simp]:
  "destroyed [] = {}" "destroyed (OfferDestroy p # rs) = insert p (destroyed rs)"
  "(\<forall>p. r \<noteq> OfferDestroy p) \<Longrightarrow> destroyed (r # rs) = destroyed rs"
  by (auto simp: destroyed_def)

section \<open>Reachable states\<close>

abbreviation live :: "wayland \<Rightarrow> nat set" where
  "live w \<equiv> of_proxy ` set (wl_offers w)"

definition idle_offer :: "wayland \<Rightarrow> nat \<Rightarrow> bool" where
  "idle_offer w p \<longleftrightarrow> p \<in> live w \<and> wl_drag w \<noteq> Some p \<and> (\<forall>t. wl_transfer w = Some t \<longrightarrow> tr_offer t \<noteq> p)"

text \<open>
  What the compositor, the kernel and the user interface can do. The protocol introduces an offer
  with a new proxy and then names it in at most one of \<open>enter\<close> and \<open>selection\<close>; an offer that was
  destroyed arrives as NULL; \<open>pipe2\<close> returns two unused descriptors.
\<close>

inductive wayland_step :: "(nat \<Rightarrow> nat) \<Rightarrow> wayland \<Rightarrow> wayland \<Rightarrow> bool" for version where
  step_offered: "wl_device w \<Longrightarrow> p \<notin> live w \<Longrightarrow> p \<notin> destroyed (wl_requests w) \<Longrightarrow>
    wayland_step version w (offered alloc p w)"
| step_mime: "p \<in> live w \<Longrightarrow> wayland_step version w (mime p type w)"
| step_action: "p \<in> live w \<Longrightarrow> wayland_step version w (action p selected w)"
| step_enter: "wl_device w \<Longrightarrow> (\<forall>p. proxy = Some p \<longrightarrow> idle_offer w p) \<Longrightarrow>
    wayland_step version w (enter version own proxy w)"
| step_leave: "wayland_step version w (leave w)"
| step_dropped: "(\<forall>r s. pipe = Some (r, s) \<longrightarrow> r \<noteq> s \<and> r \<notin> open_fds (wl_requests w) \<and> s \<notin> open_fds (wl_requests w)) \<Longrightarrow>
    wayland_step version w (dropped pipe alloc now w)"
| step_selection: "(\<forall>p. proxy = Some p \<longrightarrow> idle_offer w p) \<Longrightarrow> wayland_step version w (selection proxy w)"
| step_global: "wayland_step version w (global name interface v w)"
| step_removed: "wayland_step version w (removed version name w)"
| step_poll: "wayland_step version w (zc_wayland_poll version now answers w)"
| step_activate: "wayland_step version w (snd (zc_desktop_activate surface token w))"
| step_take: "wayland_step version w (w\<lparr>wl_drop := snd (zc_drop_take (wl_drop w))\<rparr>)"
| step_take_error: "wayland_step version w (w\<lparr>wl_drop := snd (zc_drop_take_error (wl_drop w))\<rparr>)"

inductive wayland_reach :: "(nat \<Rightarrow> nat) \<Rightarrow> wayland \<Rightarrow> bool" for version where
  reach_init: "wayland_reach version wayland_init"
| reach_step: "wayland_reach version w \<Longrightarrow> wayland_step version w v \<Longrightarrow> wayland_reach version v"

section \<open>The invariant\<close>

definition offers_ok :: "wayland \<Rightarrow> bool" where
  "offers_ok w \<longleftrightarrow> distinct (map of_proxy (wl_offers w)) \<and> length (wl_offers w) \<le> 32 \<and>
     live w \<inter> destroyed (wl_requests w) = {} \<and> all_in_order (wl_requests w) \<and> (\<forall>p. wl_drag w = Some p \<longrightarrow> p \<in> live w)"

definition transfer_ok :: "wayland \<Rightarrow> bool" where
  "transfer_ok w \<longleftrightarrow> (case wl_transfer w of
     None \<Rightarrow> open_fds (wl_requests w) = {}
   | Some t \<Rightarrow> open_fds (wl_requests w) = {tr_fd t} \<and> tr_offer t \<in> live w \<and> wl_drag w \<noteq> Some (tr_offer t))"

definition data_ok :: "nat \<Rightarrow> wayland \<Rightarrow> bool" where
  "data_ok n w \<longleftrightarrow> (\<forall>t. wl_transfer w = Some t \<longrightarrow> length (tr_data t) \<le> n \<and> CHR 0x00 \<notin> set (tr_data t))"

definition hover_ok :: "wayland \<Rightarrow> bool" where
  "hover_ok w \<longleftrightarrow> (zc_drop_hovered (wl_drop w) \<longrightarrow>
     (\<exists>x \<in> set (wl_offers w). wl_drag w = Some (of_proxy x) \<and> of_uris x))"

definition wayland_core :: "wayland \<Rightarrow> bool" where
  "wayland_core w \<longleftrightarrow> offers_ok w \<and> transfer_ok w \<and> hover_ok w \<and> valid_batch (pending (wl_drop w)) \<and>
     (\<not> wl_device w \<longrightarrow> wl_offers w = []) \<and> (wl_device w \<longrightarrow> wl_manager w \<noteq> None \<and> wl_seat w \<noteq> None)"

definition wayland_ok :: "wayland \<Rightarrow> bool" where
  "wayland_ok w \<longleftrightarrow> wayland_core w \<and> data_ok ZC_DROP_BYTES w"

lemmas wayland_ok_defs = wayland_core_def offers_ok_def transfer_ok_def hover_ok_def

lemma drop_fields [simp]:
  "hovered (zc_drop_set_hovered a d) = a" "pending (zc_drop_set_hovered a d) = pending d"
  "rejected (zc_drop_set_hovered a d) = rejected d"
  "hovered (zc_drop_reject d) = hovered d" "pending (zc_drop_reject d) = pending d"
  by (simp_all add: zc_drop_set_hovered_def zc_drop_reject_def)

lemma drop_offer_fields [simp]: "\<not> hovered (zc_drop_offer bs d)" "valid_batch (pending (zc_drop_offer bs d))"
proof -
  show "\<not> hovered (zc_drop_offer bs d)"
    by (auto simp: zc_drop_offer_def zc_drop_parse_def zc_drop_reject_def split: option.splits prod.splits if_splits)
  show "valid_batch (pending (zc_drop_offer bs d))"
    by (cases "zc_drop_parse bs (d\<lparr>hovered := False\<rparr>)") (auto simp: zc_drop_offer_def dest: zc_drop_parse_valid)
qed

lemma send_fields [simp]:
  "wl_offers (send r w) = wl_offers w" "wl_drag (send r w) = wl_drag w" "wl_transfer (send r w) = wl_transfer w"
  "wl_drop (send r w) = wl_drop w" "wl_activation (send r w) = wl_activation w" "wl_manager (send r w) = wl_manager w"
  "wl_seat (send r w) = wl_seat w" "wl_device (send r w) = wl_device w" "wl_requests (send r w) = r # wl_requests w"
  by (simp_all add: send_def)

lemma hover_fields [simp]:
  "wl_offers (hover a w) = wl_offers w" "wl_drag (hover a w) = wl_drag w" "wl_transfer (hover a w) = wl_transfer w"
  "wl_drop (hover a w) = zc_drop_set_hovered a (wl_drop w)" "wl_activation (hover a w) = wl_activation w"
  "wl_manager (hover a w) = wl_manager w" "wl_seat (hover a w) = wl_seat w" "wl_device (hover a w) = wl_device w"
  "wl_requests (hover a w) = wl_requests w"
  by (simp_all add: hover_def)

lemma reject_fields [simp]:
  "wl_offers (reject w) = wl_offers w" "wl_drag (reject w) = wl_drag w" "wl_transfer (reject w) = wl_transfer w"
  "wl_drop (reject w) = zc_drop_reject (wl_drop w)" "wl_activation (reject w) = wl_activation w"
  "wl_manager (reject w) = wl_manager w" "wl_seat (reject w) = wl_seat w" "wl_device (reject w) = wl_device w"
  "wl_requests (reject w) = wl_requests w"
  by (simp_all add: reject_def)

lemma destroy_fields [simp]:
  "destroy_offer None w = w"
  "wl_offers (destroy_offer (Some p) w) = filter (\<lambda>x. of_proxy x \<noteq> p) (wl_offers w)"
  "wl_drag (destroy_offer (Some p) w) = (if wl_drag w = Some p then None else wl_drag w)"
  "wl_transfer (destroy_offer d w) = wl_transfer w"
  "wl_drop (destroy_offer d w) = wl_drop w" "wl_activation (destroy_offer d w) = wl_activation w"
  "wl_manager (destroy_offer d w) = wl_manager w" "wl_seat (destroy_offer d w) = wl_seat w"
  "wl_device (destroy_offer d w) = wl_device w"
  "wl_requests (destroy_offer (Some p) w) = OfferDestroy p # wl_requests w"
  by (simp_all add: destroy_offer_def split: option.splits)

lemma find_offer_Some: "find_offer p w = Some x \<Longrightarrow> x \<in> set (wl_offers w) \<and> of_proxy x = p"
  by (auto simp: find_offer_def find_Some_iff)

lemma find_offer_live: "p \<in> live w \<Longrightarrow> \<exists>x. find_offer p w = Some x"
  by (cases "find_offer p w") (auto simp: find_offer_def find_None_iff)

lemma find_offer_distinct:
  assumes "offers_ok w" and "x \<in> set (wl_offers w)"
  shows "find_offer (of_proxy x) w = Some x"
proof -
  obtain y where y: "find_offer (of_proxy x) w = Some y" using find_offer_live assms(2) by blast
  then have "y \<in> set (wl_offers w)" "of_proxy y = of_proxy x" using find_offer_Some by auto
  moreover have "inj_on of_proxy (set (wl_offers w))" using assms(1) by (simp add: offers_ok_def distinct_map)
  ultimately show ?thesis using y assms(2) by (simp add: inj_onD)
qed

lemma distinct_filter_map: "distinct (map f xs) \<Longrightarrow> distinct (map f (filter P xs))"
  by (induction xs) auto

text \<open>Destroying an offer that no transfer uses.\<close>

lemma destroy_offers_ok:
  assumes "offers_ok w" and "p \<in> live w"
  shows "offers_ok (destroy_offer (Some p) w)"
  using assms distinct_filter_map [of of_proxy "wl_offers w"] le_trans [OF length_filter_le]
  by (auto simp: offers_ok_def)

lemma destroy_transfer_ok:
  assumes "transfer_ok w" and "\<forall>t. wl_transfer w = Some t \<longrightarrow> tr_offer t \<noteq> p"
  shows "transfer_ok (destroy_offer (Some p) w)"
  using assms by (auto simp: transfer_ok_def split: option.splits)

lemma drag_destroy:
  assumes "offers_ok w" and "transfer_ok w"
  shows "offers_ok (destroy_offer (wl_drag w) w)" "transfer_ok (destroy_offer (wl_drag w) w)"
    "wl_drag (destroy_offer (wl_drag w) w) = None" "set (wl_offers (destroy_offer (wl_drag w) w)) \<subseteq> set (wl_offers w)"
    "idle_offer w p \<Longrightarrow> idle_offer (destroy_offer (wl_drag w) w) p"
  using assms destroy_offers_ok [of w] destroy_transfer_ok [of w]
  by (cases "wl_drag w"; auto simp: offers_ok_def transfer_ok_def idle_offer_def split: option.splits; fail)+

section \<open>Every operation keeps the invariant\<close>

lemma data_ok_same: "wl_transfer v = wl_transfer w \<Longrightarrow> data_ok n v = data_ok n w"
  by (simp add: data_ok_def)

lemma update_core:
  assumes "wayland_core w" and "\<And>x. of_proxy (f x) = of_proxy x" and "\<And>x. of_uris x \<Longrightarrow> of_uris (f x)"
  shows "wayland_core (w\<lparr>wl_offers := map f (wl_offers w)\<rparr>)"
proof -
  let ?v = "w\<lparr>wl_offers := map f (wl_offers w)\<rparr>"
  have c: "of_proxy \<circ> f = of_proxy" using assms(2) by auto
  have l: "live ?v = live w" using assms(2) by (simp add: image_image)
  have "offers_ok ?v" using assms(1) l c by (simp add: wayland_core_def offers_ok_def)
  moreover have "transfer_ok ?v" using assms(1) l by (simp add: wayland_core_def transfer_ok_def split: option.splits)
  moreover have "hover_ok ?v" using assms by (auto simp: wayland_core_def hover_ok_def)
  ultimately show ?thesis using assms(1) by (simp add: wayland_core_def)
qed

lemma mime_core: "wayland_core w \<Longrightarrow> wayland_core (mime p type w)"
  unfolding mime_def by (auto intro: update_core)

lemma action_core: "wayland_core w \<Longrightarrow> wayland_core (action p selected w)"
  unfolding action_def by (rule update_core) auto

lemma offered_core:
  "wayland_core w \<Longrightarrow> wl_device w \<Longrightarrow> p \<notin> live w \<Longrightarrow> p \<notin> destroyed (wl_requests w) \<Longrightarrow> wayland_core (offered alloc p w)"
  unfolding offered_def by (auto simp: wayland_ok_defs zc_drop_hovered_def split: option.splits)

lemma enter_core:
  assumes "wayland_core w" and "wl_device w" and "\<forall>p. proxy = Some p \<longrightarrow> idle_offer w p"
  shows "wayland_core (enter version own proxy w)"
proof -
  define v where "v = hover False (destroy_offer (wl_drag w) w)"
  have w: "offers_ok w" "transfer_ok w" using assms(1) by (simp_all add: wayland_core_def)
  note d = drag_destroy [OF w]
  have v: "offers_ok v" "transfer_ok v" "wl_drag v = None" "\<not> zc_drop_hovered (wl_drop v)"
    "valid_batch (pending (wl_drop v))" "wl_device v" "wl_manager v \<noteq> None" "wl_seat v \<noteq> None"
    using d(1-3) assms(1,2)
    by (auto simp: v_def offers_ok_def transfer_ok_def wayland_core_def zc_drop_hovered_def split: option.splits)
  show ?thesis
  proof (cases proxy)
    case None
    then show ?thesis using v unfolding enter_def Let_def v_def [symmetric] by (simp add: wayland_core_def hover_ok_def)
  next
    case (Some p)
    then have i: "idle_offer v p" using d(5) assms(3) by (simp add: v_def idle_offer_def)
    then have l: "p \<in> live v" "\<forall>t. wl_transfer v = Some t \<longrightarrow> tr_offer t \<noteq> p" by (auto simp: idle_offer_def)
    from find_offer_live [OF l(1)] obtain x where x: "find_offer p v = Some x" by blast
    have p: "x \<in> set (wl_offers v)" "of_proxy x = p" using find_offer_Some [OF x] by auto
    have "p \<notin> destroyed (wl_requests v)" using v(1) l(1) by (auto simp: offers_ok_def)
    then show ?thesis
      using v x l p Some unfolding enter_def Let_def v_def [symmetric]
      by (auto simp: wayland_ok_defs zc_drop_hovered_def COPY_def split: option.splits)
  qed
qed

lemma leave_core:
  assumes "wayland_core w"
  shows "wayland_core (leave w)"
proof -
  have h: "offers_ok (hover False w)" "transfer_ok (hover False w)"
    using assms by (auto simp: wayland_ok_defs split: option.splits)
  note d = drag_destroy [OF h]
  show ?thesis
    unfolding leave_def Let_def wayland_core_def
    using d(1-4) assms by (auto simp: wayland_core_def hover_ok_def zc_drop_hovered_def)
qed

lemma finish_none [simp]: "wl_transfer w = None \<Longrightarrow> finish_transfer version complete w = w"
  by (simp add: finish_transfer_def)

text \<open>What \<open>finish_transfer\<close> does to a transfer.\<close>

definition finished :: "(nat \<Rightarrow> nat) \<Rightarrow> bool \<Rightarrow> drop_transfer \<Rightarrow> wayland \<Rightarrow> wayland \<Rightarrow> bool" where
  "finished version complete t w v \<longleftrightarrow> wl_transfer v = None \<and>
     wl_offers v = filter (\<lambda>x. of_proxy x \<noteq> tr_offer t) (wl_offers w) \<and>
     wl_drag v = (if wl_drag w = Some (tr_offer t) then None else wl_drag w) \<and>
     wl_drop v = (if complete then zc_drop_offer (tr_data t) (wl_drop w) else zc_drop_reject (wl_drop w)) \<and>
     wl_activation v = wl_activation w \<and> wl_manager v = wl_manager w \<and> wl_seat v = wl_seat w \<and> wl_device v = wl_device w \<and>
     wl_requests v = [OfferDestroy (tr_offer t), FdClose (tr_fd t)] @
       (if version (tr_offer t) \<ge> 3 \<and> (\<exists>x. find_offer (tr_offer t) w = Some x \<and> of_action x = COPY)
        then [OfferFinish (tr_offer t)] else []) @ wl_requests w"

lemma finish_finished: "wl_transfer w = Some t \<Longrightarrow> finished version complete t w (finish_transfer version complete w)"
  by (auto simp: finish_transfer_def finished_def Let_def find_offer_def split: option.splits)

lemma finish_core:
  assumes "wayland_core w"
  shows "wayland_core (finish_transfer version complete w)" and "wl_transfer (finish_transfer version complete w) = None"
proof -
  let ?v = "finish_transfer version complete w"
  have "wayland_core ?v \<and> wl_transfer ?v = None"
  proof (cases "wl_transfer w")
    case None
    then show ?thesis using assms by simp
  next
    case (Some t)
    note f = finish_finished [OF Some, of version complete, unfolded finished_def]
    have t: "open_fds (wl_requests w) = {tr_fd t}" "tr_offer t \<in> live w" "wl_drag w \<noteq> Some (tr_offer t)"
      using assms Some by (auto simp: wayland_core_def transfer_ok_def)
    have o: "distinct (map of_proxy (wl_offers w))" "length (wl_offers w) \<le> 32"
      "live w \<inter> destroyed (wl_requests w) = {}" "all_in_order (wl_requests w)" "\<forall>p. wl_drag w = Some p \<longrightarrow> p \<in> live w"
      using assms by (auto simp: wayland_core_def offers_ok_def)
    have "tr_offer t \<notin> destroyed (wl_requests w)" using o(3) t(2) by blast
    then have "offers_ok ?v"
      using f t o distinct_filter_map [of of_proxy "wl_offers w"] le_trans [OF length_filter_le o(2)]
      by (auto simp: offers_ok_def)
    moreover have "transfer_ok ?v" using f t(1) by (simp add: transfer_ok_def)
    moreover have "hover_ok ?v"
    proof (cases complete)
      case True
      then show ?thesis using f by (simp add: hover_ok_def zc_drop_hovered_def)
    next
      case False
      then show ?thesis using f t(3) assms by (auto simp: wayland_core_def hover_ok_def zc_drop_hovered_def)
    qed
    ultimately show ?thesis using f assms by (simp add: wayland_core_def)
  qed
  then show "wayland_core ?v" "wl_transfer ?v = None" by blast+
qed

lemma data_ok_none: "wl_transfer w = None \<Longrightarrow> data_ok n w"
  by (simp add: data_ok_def)

lemma finish_ok: "wayland_core w \<Longrightarrow> wayland_ok (finish_transfer version complete w)"
  using finish_core data_ok_none by (auto simp: wayland_ok_def)

lemma poll_loop_ok:
  "wayland_core w \<Longrightarrow> data_ok (Suc ZC_DROP_BYTES) w \<Longrightarrow> wayland_ok (poll_loop version answers w)"
proof (induction version answers w rule: poll_loop.induct)
  case (1 version answers w)
  note unf = poll_loop.simps [of version answers w] and fin = finish_ok [OF "1.prems"(1), of version]
  show ?case
  proof (cases "wl_transfer w")
    case None
    then show ?thesis using "1.prems" unf by (simp add: wayland_ok_def data_ok_none)
  next
    case (Some t)
    have nul: "CHR 0x00 \<notin> set (tr_data t)" using "1.prems"(2) Some by (simp add: data_ok_def)
    show ?thesis
    proof (cases "length (tr_data t) \<le> ZC_DROP_BYTES")
      case False
      then show ?thesis using unf Some fin by simp
    next
      case len: True
      then have ok: "wayland_ok w" using "1.prems"(1) nul Some by (simp add: wayland_ok_def data_ok_def)
      show ?thesis
      proof (cases answers)
        case Nil
        then show ?thesis using unf ok Some len by simp
      next
        case (Cons a rest)
        show ?thesis
        proof (cases a)
          case (Inl e)
          show ?thesis
          proof (cases "e = EINTR")
            case True
            then have "poll_loop version answers w = poll_loop version rest w" using unf Some len Cons Inl by simp
            then show ?thesis using "1.IH" Some len Cons Inl True "1.prems" by auto
          next
            case False
            then have "poll_loop version answers w = (if e = EAGAIN then w else finish_transfer version False w)"
              using unf Some len Cons Inl by simp
            then show ?thesis using ok fin by simp
          qed
        next
          case (Inr bs)
          define part where "part = take (ZC_DROP_BYTES + 1 - length (tr_data t)) bs"
          let ?w = "w\<lparr>wl_transfer := Some (t\<lparr>tr_data := tr_data t @ part\<rparr>)\<rparr>"
          have run: "poll_loop version answers w = (if part = [] then finish_transfer version True w
              else if CHR 0x00 \<in> set part then finish_transfer version False w else poll_loop version rest ?w)"
            using unf Some len Cons Inr by (simp add: part_def Let_def)
          show ?thesis
          proof (cases "part = [] \<or> CHR 0x00 \<in> set part")
            case True
            then show ?thesis using run fin by auto
          next
            case False
            have "wayland_core ?w" using "1.prems"(1) Some by (auto simp: wayland_ok_defs)
            moreover have "data_ok (Suc ZC_DROP_BYTES) ?w" using nul False len by (auto simp: data_ok_def part_def)
            ultimately show ?thesis using "1.IH" Some len Cons Inr False run by (auto simp: part_def)
          qed
        qed
      qed
    qed
  qed
qed

lemma wl_poll_ok: "wayland_ok w \<Longrightarrow> wayland_ok (zc_wayland_poll version now answers w)"
proof -
  assume ok: "wayland_ok w"
  then have "data_ok (Suc ZC_DROP_BYTES) w" by (auto simp: wayland_ok_def data_ok_def)
  with ok poll_loop_ok finish_ok show ?thesis
    by (auto simp: zc_wayland_poll_def wayland_ok_def split: option.splits)
qed

text \<open>Hovering ends and the drag is destroyed, as at the end of \<open>dropped\<close>.\<close>

lemma end_drag_core:
  assumes "wayland_core w"
  shows "wayland_core (let w = hover False w in destroy_offer (wl_drag w) w)"
  using leave_core [OF assms] by (simp add: leave_def)

lemma dropped_core:
  assumes "wayland_core w"
    and "\<forall>r s. pipe = Some (r, s) \<longrightarrow> r \<noteq> s \<and> r \<notin> open_fds (wl_requests w) \<and> s \<notin> open_fds (wl_requests w)"
  shows "wayland_core (dropped pipe alloc now w)"
proof -
  define v where "v = (case wl_drag w of
          None \<Rightarrow> w
        | Some p \<Rightarrow>
            if \<not> zc_drop_hovered (wl_drop w) then w
            else if wl_transfer w \<noteq> None then reject w
            else case pipe of
              None \<Rightarrow> reject w
            | Some (r, s) \<Rightarrow>
                (let w = send (FdOpen s) (send (FdOpen r) w) in
                 if \<not> alloc then reject (send (FdClose s) (send (FdClose r) w))
                 else (send (FdClose s) (send (OfferReceive p s) w))
                   \<lparr>wl_transfer := Some \<lparr>tr_offer = p, tr_fd = r, tr_data = [], tr_deadline = now + 2000\<rparr>,
                    wl_drag := None\<rparr>))"
  have d: "dropped pipe alloc now w = (let w = hover False v in destroy_offer (wl_drag w) w)"
    unfolding dropped_def v_def Let_def by (rule refl)
  have r: "wayland_core (reject w)" using assms(1) by (auto simp: wayland_ok_defs zc_drop_hovered_def split: option.splits)
  have rs: "wayland_core (reject (send (FdClose s) (send (FdClose r) (send (FdOpen s) (send (FdOpen r) w)))))"
    if "r \<noteq> s" "r \<notin> open_fds (wl_requests w)" "s \<notin> open_fds (wl_requests w)" for r s
    using assms(1) that by (auto simp: wayland_ok_defs zc_drop_hovered_def split: option.splits)
  let ?v = "\<lambda>p r s. (send (FdClose s) (send (OfferReceive p s) (send (FdOpen s) (send (FdOpen r) w))))
    \<lparr>wl_transfer := Some \<lparr>tr_offer = p, tr_fd = r, tr_data = [], tr_deadline = now + 2000\<rparr>, wl_drag := None\<rparr>"
  have started: "wayland_core (hover False (?v p r s))"
    if "wl_drag w = Some p" "wl_transfer w = None" "r \<noteq> s" "r \<notin> open_fds (wl_requests w)" "s \<notin> open_fds (wl_requests w)" for p r s
  proof -
    have p: "p \<in> live w" "p \<notin> destroyed (wl_requests w)" "open_fds (wl_requests w) = {}"
      using assms(1) that(1,2) by (auto simp: wayland_core_def offers_ok_def transfer_ok_def)
    then show ?thesis using assms(1) that by (auto simp: wayland_ok_defs zc_drop_hovered_def)
  qed
  have "v = w \<or> v = reject w \<or> (\<exists>r s. v = reject (send (FdClose s) (send (FdClose r) (send (FdOpen s) (send (FdOpen r) w)))) \<and>
       pipe = Some (r, s)) \<or> (\<exists>p r s. v = ?v p r s \<and> wl_drag w = Some p \<and> wl_transfer w = None \<and> pipe = Some (r, s))"
    unfolding v_def Let_def by (auto split: option.split if_split)
  then consider "wayland_core v" | p r s where "v = ?v p r s" "wl_drag w = Some p" "wl_transfer w = None" "pipe = Some (r, s)"
    using assms r rs by blast
  then show ?thesis
  proof cases
    case 1
    then show ?thesis unfolding d by (rule end_drag_core)
  next
    case (2 p r s)
    then have c: "wayland_core (hover False v)" using started assms(2) by simp
    have "wl_drag (hover False v) = None" unfolding 2(1) by simp
    then show ?thesis unfolding d Let_def using c by simp
  qed
qed

lemma selection_core:
  assumes "wayland_core w" and "\<forall>p. proxy = Some p \<longrightarrow> idle_offer w p"
  shows "wayland_core (selection proxy w)"
proof (cases proxy)
  case None
  then show ?thesis using assms(1) by (simp add: selection_def)
next
  case (Some p)
  then have i: "p \<in> live w" "wl_drag w \<noteq> Some p" "\<forall>t. wl_transfer w = Some t \<longrightarrow> tr_offer t \<noteq> p"
    using assms(2) by (auto simp: idle_offer_def)
  obtain x where x: "find_offer p w = Some x" "of_proxy x = p" using find_offer_live [OF i(1)] find_offer_Some by blast
  have "offers_ok w" "transfer_ok w" using assms(1) by (simp_all add: wayland_core_def)
  note d = destroy_offers_ok [OF this(1) i(1)] destroy_transfer_ok [OF this(2) i(3)]
  have "hover_ok (destroy_offer (Some p) w)" using assms(1) i(2) by (auto simp: wayland_core_def hover_ok_def)
  then show ?thesis using d x Some assms(1) by (auto simp: selection_def wayland_core_def)
qed

lemma send_core:
  "wayland_core w \<Longrightarrow> in_order r (wl_requests w) \<Longrightarrow> (\<forall>p. r \<noteq> OfferDestroy p) \<Longrightarrow> open_fds (r # wl_requests w) = open_fds (wl_requests w) \<Longrightarrow>
   wayland_core (send r w)"
  by (auto simp: wayland_ok_defs split: option.splits)

lemma bind_device_core: "wayland_core w \<Longrightarrow> wayland_core (bind_device w)"
  unfolding bind_device_def by (auto simp: wayland_ok_defs split: option.splits)

lemma bind_core:
  assumes "wayland_core w"
  shows "wayland_core (send (RegistryBind i n v) (w\<lparr>wl_activation := a\<rparr>))"
    and "wayland_core (send (RegistryBind i n v) (w\<lparr>wl_manager := Some m\<rparr>))"
    and "wayland_core (send (RegistryBind i n v) (w\<lparr>wl_seat := Some b\<rparr>))"
  using assms by (auto simp: wayland_ok_defs split: option.splits)

lemma global_core: "wayland_core w \<Longrightarrow> wayland_core (global name interface v w)"
  unfolding global_def Let_def by (rule bind_device_core) (simp add: bind_core)

lemma destroy_all:
  "wl_offers w = xs \<Longrightarrow> distinct (map of_proxy xs) \<Longrightarrow> (\<forall>p. wl_drag w = Some p \<longrightarrow> p \<in> of_proxy ` set xs) \<Longrightarrow>
   foldl (\<lambda>w p. destroy_offer (Some p) w) w (map of_proxy xs) =
     w\<lparr>wl_offers := [], wl_drag := None, wl_requests := rev (map (\<lambda>x. OfferDestroy (of_proxy x)) xs) @ wl_requests w\<rparr>"
proof (induction xs arbitrary: w)
  case Nil
  then show ?case by (cases w) auto
next
  case (Cons x xs)
  have "of_proxy x \<notin> of_proxy ` set xs" using Cons.prems(2) by simp
  then have "\<forall>y \<in> set xs. of_proxy y \<noteq> of_proxy x" by (metis imageI)
  then have f: "filter (\<lambda>y. of_proxy y \<noteq> of_proxy x) (x # xs) = xs" by simp
  have "foldl (\<lambda>w p. destroy_offer (Some p) w) (destroy_offer (Some (of_proxy x)) w) (map of_proxy xs) =
     (destroy_offer (Some (of_proxy x)) w)\<lparr>wl_offers := [], wl_drag := None,
        wl_requests := rev (map (\<lambda>x. OfferDestroy (of_proxy x)) xs) @ wl_requests (destroy_offer (Some (of_proxy x)) w)\<rparr>"
    by (rule Cons.IH) (use Cons.prems f in auto)
  also have "\<dots> = w\<lparr>wl_offers := [], wl_drag := None, wl_requests := rev (map (\<lambda>x. OfferDestroy (of_proxy x)) (x # xs)) @ wl_requests w\<rparr>"
    by (simp add: destroy_offer_def send_def)
  finally show ?case by simp
qed

lemma destroys_in_order:
  "distinct ps \<Longrightarrow> set ps \<inter> destroyed rs = {} \<Longrightarrow> all_in_order rs \<Longrightarrow>
   all_in_order (rev (map OfferDestroy ps) @ rs) \<and> destroyed (rev (map OfferDestroy ps) @ rs) = set ps \<union> destroyed rs \<and>
   open_fds (rev (map OfferDestroy ps) @ rs) = open_fds rs"
proof (induction ps rule: rev_induct)
  case (snoc p ps)
  then show ?case by auto
qed simp

text \<open>What is left without a device: every offer is destroyed, no descriptor open.\<close>

lemma free_device_core:
  assumes "wayland_core w"
  shows "wayland_ok (free_device version w)" and "wl_offers (free_device version w) = []"
    and "wl_device (free_device version w) = False" and "wl_transfer (free_device version w) = None"
    and "wl_seat (free_device version w) = wl_seat w" and "wl_manager (free_device version w) = wl_manager w"
    and "live w \<subseteq> destroyed (wl_requests (free_device version w))"
    and "open_fds (wl_requests (free_device version w)) = {}"
    and "wl_drag (free_device version w) = None" and "\<not> zc_drop_hovered (wl_drop (free_device version w))"
proof -
  define v where "v = finish_transfer version False w"
  have v: "wayland_core v" "wl_transfer v = None" using finish_core [OF assms] by (simp_all add: v_def)
  have keep: "wl_seat v = wl_seat w" "wl_manager v = wl_manager w" "live w \<subseteq> live v \<union> destroyed (wl_requests v)"
    using finish_finished [of w _ version False] finish_none [of w version False]
    by (cases "wl_transfer w"; auto simp: v_def finished_def)+
  let ?rs = "rev (map OfferDestroy (map of_proxy (wl_offers v))) @ wl_requests v"
  have o: "distinct (map of_proxy (wl_offers v))" "\<forall>p. wl_drag v = Some p \<longrightarrow> p \<in> live v"
    "set (map of_proxy (wl_offers v)) \<inter> destroyed (wl_requests v) = {}" "all_in_order (wl_requests v)" "open_fds (wl_requests v) = {}"
    using v by (auto simp: wayland_core_def offers_ok_def transfer_ok_def)
  note rs = destroys_in_order [OF o(1,3,4)]
  define u where "u = v\<lparr>wl_offers := [], wl_drag := None, wl_requests := ?rs\<rparr>"
  have "foldl (\<lambda>w p. destroy_offer (Some p) w) v (map of_proxy (wl_offers v)) = u"
    using destroy_all [OF refl o(1,2)] by (simp add: u_def comp_def)
  then have f: "free_device version w = hover False (if wl_device u then send DeviceFree (u\<lparr>wl_device := False\<rparr>) else u)"
    by (simp add: free_device_def Let_def v_def)
  have ds: "destroyed ?rs = live v \<union> destroyed (wl_requests v)" using rs by simp
  show "wayland_ok (free_device version w)" "wl_offers (free_device version w) = []"
    "wl_device (free_device version w) = False" "wl_transfer (free_device version w) = None"
    "wl_drag (free_device version w) = None" "\<not> zc_drop_hovered (wl_drop (free_device version w))"
    using v rs o(5) unfolding f by (auto simp: u_def wayland_ok_def wayland_ok_defs data_ok_def zc_drop_hovered_def)
  show "wl_seat (free_device version w) = wl_seat w" "wl_manager (free_device version w) = wl_manager w"
    using keep unfolding f by (auto simp: u_def)
  show "live w \<subseteq> destroyed (wl_requests (free_device version w))" using keep(3) ds unfolding f by (auto simp: u_def)
  show "open_fds (wl_requests (free_device version w)) = {}" using rs o(5) unfolding f by (auto simp: u_def)
qed

lemma dropped_transfer:
  "wl_transfer (dropped pipe alloc now w) = wl_transfer w \<or>
   (\<exists>p r. wl_transfer (dropped pipe alloc now w) = Some \<lparr>tr_offer = p, tr_fd = r, tr_data = [], tr_deadline = now + 2000\<rparr>)"
  by (auto simp: dropped_def Let_def split: option.splits)

lemma simple_transfers [simp]:
  "wl_transfer (mime p type w) = wl_transfer w" "wl_transfer (action p selected w) = wl_transfer w"
  "wl_transfer (offered alloc p w) = wl_transfer w" "wl_transfer (enter version own proxy w) = wl_transfer w"
  "wl_transfer (leave w) = wl_transfer w" "wl_transfer (selection proxy w) = wl_transfer w"
  "wl_transfer (global name interface v w) = wl_transfer w"
  by (auto simp: mime_def action_def offered_def enter_def leave_def selection_def global_def bind_device_def Let_def
      split: option.splits)

lemma removed_ok:
  assumes "wayland_ok w"
  shows "wayland_ok (removed version name w)"
proof -
  define u where "u = (if wl_activation w = Some name then send ActivationDestroy (w\<lparr>wl_activation := None\<rparr>) else w)"
  define v where "v = (if wl_seat u = Some name then send SeatDestroy ((free_device version u)\<lparr>wl_seat := None\<rparr>) else u)"
  have gone: "wayland_ok (send r ((free_device version x)\<lparr>wl_seat := None\<rparr>))"
    "wayland_ok (send r ((free_device version x)\<lparr>wl_manager := None\<rparr>))"
    if "wayland_core x" "r = SeatDestroy \<or> r = ManagerDestroy" for r x
    using free_device_core(1-4) [OF that(1), of version] that(2)
    by (auto simp: wayland_ok_def wayland_ok_defs data_ok_def)
  have "wayland_ok (send ActivationDestroy (w\<lparr>wl_activation := None\<rparr>))"
    using assms by (auto simp: wayland_ok_def wayland_ok_defs data_ok_def split: option.splits)
  then have u: "wayland_ok u" using assms by (simp add: u_def)
  then have v: "wayland_ok v" using gone(1) by (simp add: v_def wayland_ok_def)
  then have "wayland_ok (if map_option fst (wl_manager v) = Some name
      then send ManagerDestroy ((free_device version v)\<lparr>wl_manager := None\<rparr>) else v)"
    using gone(2) by (simp add: wayland_ok_def)
  then show ?thesis by (simp only: removed_def Let_def u_def v_def)
qed

lemma drop_only_ok:
  "wayland_ok w \<Longrightarrow> hovered d = hovered (wl_drop w) \<Longrightarrow> valid_batch (pending d) \<Longrightarrow> wayland_ok (w\<lparr>wl_drop := d\<rparr>)"
  by (auto simp: wayland_ok_def wayland_ok_defs data_ok_def zc_drop_hovered_def split: option.splits)

lemma take_ok:
  assumes "wayland_ok w"
  shows "wayland_ok (w\<lparr>wl_drop := snd (zc_drop_take (wl_drop w))\<rparr>)" "wayland_ok (w\<lparr>wl_drop := snd (zc_drop_take_error (wl_drop w))\<rparr>)"
proof -
  have "valid_batch (pending (wl_drop w))" using assms by (simp add: wayland_ok_def wayland_core_def)
  then show "wayland_ok (w\<lparr>wl_drop := snd (zc_drop_take (wl_drop w))\<rparr>)" "wayland_ok (w\<lparr>wl_drop := snd (zc_drop_take_error (wl_drop w))\<rparr>)"
    using drop_only_ok [OF assms] by (auto simp: zc_drop_take_def zc_drop_take_error_def)
qed

lemma activate_ok: "wayland_ok w \<Longrightarrow> wayland_ok (snd (zc_desktop_activate surface token w))"
  by (auto simp: zc_desktop_activate_def wayland_ok_def data_ok_def intro: send_core split: option.splits)

lemma same_ok: "wayland_core v \<Longrightarrow> wl_transfer v = wl_transfer w \<Longrightarrow> wayland_ok w \<Longrightarrow> wayland_ok v"
  by (simp add: wayland_ok_def data_ok_def)

lemma core_ok: "wayland_ok w \<Longrightarrow> wayland_core w"
  by (simp add: wayland_ok_def)

lemma dropped_ok:
  assumes "wayland_ok w"
    and "\<forall>r s. pipe = Some (r, s) \<longrightarrow> r \<noteq> s \<and> r \<notin> open_fds (wl_requests w) \<and> s \<notin> open_fds (wl_requests w)"
  shows "wayland_ok (dropped pipe alloc now w)"
  using dropped_core [OF core_ok [OF assms(1)] assms(2)] dropped_transfer [of pipe alloc now w] assms(1)
  by (auto simp: wayland_ok_def data_ok_def)

lemma wayland_step_ok: "wayland_step version w v \<Longrightarrow> wayland_ok w \<Longrightarrow> wayland_ok v"
proof (induction rule: wayland_step.induct)
  case (step_offered w p alloc)
  show ?case by (rule same_ok [OF offered_core [OF core_ok]]) (use step_offered in simp_all)
next
  case (step_mime p w type)
  show ?case by (rule same_ok [OF mime_core [OF core_ok]]) (use step_mime in simp_all)
next
  case (step_action p w selected)
  show ?case by (rule same_ok [OF action_core [OF core_ok]]) (use step_action in simp_all)
next
  case (step_enter w proxy own)
  show ?case by (rule same_ok [OF enter_core [OF core_ok]]) (use step_enter in simp_all)
next
  case (step_leave w)
  show ?case by (rule same_ok [OF leave_core [OF core_ok]]) (use step_leave in simp_all)
next
  case (step_selection proxy w)
  show ?case by (rule same_ok [OF selection_core [OF core_ok]]) (use step_selection in simp_all)
next
  case (step_global w name interface v)
  show ?case by (rule same_ok [OF global_core [OF core_ok]]) (use step_global in simp_all)
qed (simp_all add: dropped_ok removed_ok wl_poll_ok activate_ok take_ok)

lemma wayland_reach_ok: "wayland_reach version w \<Longrightarrow> wayland_ok w"
proof (induction rule: wayland_reach.induct)
  case reach_init
  then show ?case
    by (simp add: wayland_init_def wayland_ok_def wayland_ok_defs data_ok_def drop_init_def zc_drop_hovered_def)
next
  case (reach_step w v)
  then show ?case using wayland_step_ok by blast
qed

section \<open>Reading a dropped list\<close>

definition read_bytes :: "(errno + char list) list \<Rightarrow> char list" where
  "read_bytes answers = concat (map (case_sum (\<lambda>_. []) (\<lambda>bs. bs)) answers)"

lemma read_bytes_simps [simp]:
  "read_bytes [] = []" "read_bytes (Inl e # rest) = read_bytes rest" "read_bytes (Inr bs # rest) = bs @ read_bytes rest"
  by (simp_all add: read_bytes_def)

text \<open>Reads of data, some interrupted by a signal; none fails or meets the end.\<close>

definition only_data :: "(errno + char list) list \<Rightarrow> bool" where
  "only_data answers \<longleftrightarrow> (\<forall>a \<in> set answers. a = Inl EINTR \<or> (\<exists>bs. a = Inr bs \<and> bs \<noteq> []))"

definition with_data :: "drop_transfer \<Rightarrow> char list \<Rightarrow> wayland \<Rightarrow> wayland" where
  "with_data t bs w = w\<lparr>wl_transfer := Some (t\<lparr>tr_data := tr_data t @ bs\<rparr>)\<rparr>"

lemma with_data_same: "wl_transfer w = Some t \<Longrightarrow> with_data t [] w = w"
  by (cases w) (simp add: with_data_def)

lemma with_data_again: "with_data (t\<lparr>tr_data := tr_data t @ as\<rparr>) bs (with_data t as w) = with_data t (as @ bs) w"
  by (simp add: with_data_def)

lemma with_data_fields [simp]:
  "wl_transfer (with_data t bs w) = Some (t\<lparr>tr_data := tr_data t @ bs\<rparr>)" "wl_offers (with_data t bs w) = wl_offers w"
  "wl_drag (with_data t bs w) = wl_drag w" "wl_drop (with_data t bs w) = wl_drop w"
  "wl_requests (with_data t bs w) = wl_requests w" "find_offer p (with_data t bs w) = find_offer p w"
  by (simp_all add: with_data_def find_offer_def)

lemma poll_loop_reads:
  "wl_transfer w = Some t \<Longrightarrow> only_data answers \<Longrightarrow> length (tr_data t) + length (read_bytes answers) \<le> ZC_DROP_BYTES \<Longrightarrow>
   CHR 0x00 \<notin> set (read_bytes answers) \<Longrightarrow>
   poll_loop version (answers @ rest) w = poll_loop version rest (with_data t (read_bytes answers) w)"
proof (induction answers arbitrary: w t)
  case Nil
  then show ?case by (simp add: with_data_same)
next
  case (Cons a answers)
  have od: "only_data answers" using Cons.prems(2) by (simp add: only_data_def)
  have len: "length (tr_data t) \<le> ZC_DROP_BYTES" using Cons.prems(3) by simp
  show ?case
  proof (cases a)
    case (Inl e)
    then have "e = EINTR" using Cons.prems(2) by (simp add: only_data_def)
    then have "poll_loop version ((a # answers) @ rest) w = poll_loop version (answers @ rest) w"
      using Cons.prems(1) len Inl by (simp add: poll_loop.simps [of _ "_ # _"])
    then show ?thesis using Cons.IH [OF Cons.prems(1) od] Cons.prems(3,4) Inl by simp
  next
    case (Inr bs)
    have bs: "bs \<noteq> []" "CHR 0x00 \<notin> set bs" "length (tr_data t) + length bs \<le> ZC_DROP_BYTES"
      using Cons.prems(2,3,4) Inr by (auto simp: only_data_def)
    have "take (ZC_DROP_BYTES + 1 - length (tr_data t)) bs = bs" using bs(3) by simp
    then have "poll_loop version ((a # answers) @ rest) w = poll_loop version (answers @ rest) (with_data t bs w)"
      using Cons.prems(1) len Inr bs(1,2) by (simp add: poll_loop.simps [of _ "_ # _"] with_data_def Let_def)
    then show ?thesis
      using Cons.IH [of "with_data t bs w" "t\<lparr>tr_data := tr_data t @ bs\<rparr>"] od Cons.prems(3,4) Inr with_data_again [of t bs _ w]
      by simp
  qed
qed

text \<open>The polls of one transfer: the clock and what the pipe answers to each.\<close>

definition run_polls :: "(nat \<Rightarrow> nat) \<Rightarrow> (nat \<times> (errno + char list) list) list \<Rightarrow> wayland \<Rightarrow> wayland" where
  "run_polls version polls w = foldl (\<lambda>w (now, answers). zc_wayland_poll version now answers w) w polls"

lemma run_polls_simps [simp]:
  "run_polls version [] w = w"
  "run_polls version ((now, answers) # polls) w = run_polls version polls (zc_wayland_poll version now answers w)"
  by (simp_all add: run_polls_def)

lemma run_polls_append: "run_polls version (ps @ qs) w = run_polls version qs (run_polls version ps w)"
  by (simp add: run_polls_def)

definition polled_bytes :: "(nat \<times> (errno + char list) list) list \<Rightarrow> char list" where
  "polled_bytes polls = concat (map (read_bytes \<circ> snd) polls)"

lemma poll_end:
  "wl_transfer w = Some t \<Longrightarrow> length (tr_data t) \<le> ZC_DROP_BYTES \<Longrightarrow> poll_loop version [] w = w"
  "wl_transfer w = Some t \<Longrightarrow> length (tr_data t) \<le> ZC_DROP_BYTES \<Longrightarrow>
     poll_loop version (Inr [] # rest) w = finish_transfer version True w"
  by (simp_all add: poll_loop.simps)

lemma run_polls_reads:
  "wl_transfer w = Some t \<Longrightarrow> \<forall>(now, answers) \<in> set polls. now < tr_deadline t \<and> only_data answers \<Longrightarrow>
   length (tr_data t) + length (polled_bytes polls) \<le> ZC_DROP_BYTES \<Longrightarrow> CHR 0x00 \<notin> set (polled_bytes polls) \<Longrightarrow>
   run_polls version polls w = with_data t (polled_bytes polls) w"
proof (induction polls arbitrary: w t)
  case Nil
  then show ?case by (simp add: polled_bytes_def with_data_same)
next
  case (Cons poll polls)
  obtain now answers where p: "poll = (now, answers)" by fastforce
  have h: "now < tr_deadline t" "only_data answers" "length (tr_data t) + length (read_bytes answers) \<le> ZC_DROP_BYTES"
    "CHR 0x00 \<notin> set (read_bytes answers)" using Cons.prems p by (auto simp: polled_bytes_def)
  have "poll_loop version (answers @ []) w = poll_loop version [] (with_data t (read_bytes answers) w)"
    by (rule poll_loop_reads [OF Cons.prems(1) h(2-4)])
  also have "\<dots> = with_data t (read_bytes answers) w" by (rule poll_end(1) [OF with_data_fields(1)]) (use h(3) in simp)
  finally have s: "zc_wayland_poll version now answers w = with_data t (read_bytes answers) w"
    using Cons.prems(1) h(1) by (simp add: zc_wayland_poll_def)
  let ?t = "t\<lparr>tr_data := tr_data t @ read_bytes answers\<rparr>"
  have "run_polls version polls (with_data t (read_bytes answers) w) =
      with_data ?t (polled_bytes polls) (with_data t (read_bytes answers) w)"
    by (rule Cons.IH) (use Cons.prems(2-4) p in \<open>auto simp: polled_bytes_def\<close>)
  then show ?case using s p with_data_again [of t "read_bytes answers" "polled_bytes polls" w]
    by (simp add: polled_bytes_def)
qed

text \<open>
  The possible outcomes of a poll, after the bytes \<open>got\<close> more: still reading, complete (only within the
  bounds), or rejected.
\<close>

definition poll_outcome :: "(nat \<Rightarrow> nat) \<Rightarrow> drop_transfer \<Rightarrow> wayland \<Rightarrow> char list \<Rightarrow> wayland \<Rightarrow> bool" where
  "poll_outcome version t w got v \<longleftrightarrow>
     (length (tr_data t @ got) \<le> ZC_DROP_BYTES \<and> CHR 0x00 \<notin> set got \<and>
        (v = with_data t got w \<or> v = finish_transfer version True (with_data t got w))) \<or>
     v = finish_transfer version False (with_data t got w)"

lemma poll_outcome_now:
  "wl_transfer w = Some t \<Longrightarrow> length (tr_data t) \<le> ZC_DROP_BYTES \<Longrightarrow>
   v = w \<or> v = finish_transfer version True w \<or> v = finish_transfer version False w \<Longrightarrow>
   \<exists>got rest. bytes = got @ rest \<and> poll_outcome version t w got v"
  by (rule exI [of _ "[]"], rule exI [of _ bytes]) (auto simp: poll_outcome_def with_data_same)

lemma poll_outcome_more:
  assumes "poll_outcome version (t\<lparr>tr_data := tr_data t @ part\<rparr>) (with_data t part w) got v" and "CHR 0x00 \<notin> set part"
  shows "poll_outcome version t w (part @ got) v"
  using assms with_data_again [of t part got w] by (simp add: poll_outcome_def)

lemma poll_loop_outcome:
  "wl_transfer w = Some t \<Longrightarrow> length (tr_data t) \<le> Suc ZC_DROP_BYTES \<Longrightarrow> poll_loop version answers w = v \<Longrightarrow>
   \<exists>got rest. read_bytes answers = got @ rest \<and> poll_outcome version t w got v"
proof (induction version answers w arbitrary: t rule: poll_loop.induct)
  case (1 version answers w)
  note unf = poll_loop.simps [of version answers w]
  show ?case
  proof (cases "length (tr_data t) \<le> ZC_DROP_BYTES")
    case False
    then have "v = finish_transfer version False (with_data t [] w)" using "1.prems" unf with_data_same by simp
    then show ?thesis by (intro exI [of _ "[]"] exI [of _ "read_bytes answers"]) (simp add: poll_outcome_def)
  next
    case len: True
    note now = poll_outcome_now [OF "1.prems"(1) len, of v version "read_bytes answers"]
    show ?thesis
    proof (cases answers)
      case Nil
      then have "v = w" using "1.prems"(1,3) unf len by simp
      then show ?thesis using now by blast
    next
      case (Cons a rest)
      show ?thesis
      proof (cases a)
        case (Inl e)
        show ?thesis
        proof (cases "e = EINTR")
          case True
          then have "poll_loop version rest w = v" using "1.prems"(1,3) unf len Cons Inl by simp
          from "1.IH"(1) [OF "1.prems"(1) len Cons Inl True "1.prems"(1,2) this] show ?thesis using Cons Inl by simp
        next
          case False
          then have "v = w \<or> v = finish_transfer version False w" using "1.prems"(1,3) unf len Cons Inl by (auto split: if_splits)
          then show ?thesis using now by blast
        qed
      next
        case (Inr bs)
        define part where "part = take (ZC_DROP_BYTES + 1 - length (tr_data t)) bs"
        let ?t = "t\<lparr>tr_data := tr_data t @ part\<rparr>"
        have run: "v = (if part = [] then finish_transfer version True w
            else if CHR 0x00 \<in> set part then finish_transfer version False w else poll_loop version rest (with_data t part w))"
          using "1.prems"(1,3) unf len Cons Inr by (simp add: part_def with_data_def Let_def)
        show ?thesis
        proof (cases "part = [] \<or> CHR 0x00 \<in> set part")
          case True
          then have "v = finish_transfer version True w \<or> v = finish_transfer version False w" using run by auto
          then show ?thesis using now by blast
        next
          case False
          have pre: "length (tr_data ?t) \<le> Suc ZC_DROP_BYTES" using len by (auto simp: part_def)
          have rec: "poll_loop version rest (with_data t part w) = v" using run False by simp
          show ?thesis
          proof (cases "part = bs")
            case whole: True
            have "\<exists>got tail. read_bytes rest = got @ tail \<and> poll_outcome version ?t (with_data t part w) got v"
              using "1.IH"(2) [OF "1.prems"(1) len Cons Inr part_def, of ?t] rec False pre by (auto simp: with_data_def)
            then obtain got tail where g: "read_bytes rest = got @ tail" "poll_outcome version ?t (with_data t part w) got v" by blast
            have "poll_outcome version t w (part @ got) v" using poll_outcome_more [OF g(2)] False by simp
            then show ?thesis using whole g(1) Cons Inr by (intro exI [of _ "part @ got"] exI [of _ tail]) simp
          next
            case cut: False
            then have "length (tr_data ?t) = Suc ZC_DROP_BYTES" using len by (auto simp: part_def)
            then have "v = finish_transfer version False (with_data t part w)"
              using rec by (simp add: poll_loop.simps [of version rest])
            moreover have "bs = part @ drop (ZC_DROP_BYTES + 1 - length (tr_data t)) bs" by (simp add: part_def)
            ultimately show ?thesis using Cons Inr
              by (intro exI [of _ part] exI [of _ "drop (ZC_DROP_BYTES + 1 - length (tr_data t)) bs @ read_bytes rest"])
                (simp add: poll_outcome_def)
          qed
        qed
      qed
    qed
  qed
qed

section \<open>Properties\<close>

text \<open>
  C2: However the compositor, the pipe and the application drive the component: it holds at most 32
  offers; the offer of the drag and the offer of the transfer are among them and are different; no
  request ever names an offer that was destroyed and none is destroyed twice; the only open descriptor
  is that of the transfer, and none is closed twice; a transfer holds at most 256 KiB without NUL; the
  window is marked as hovered only while a drag offers a URI list; the paths handed to the composer
  are valid. \<open>zc_wayland_free\<close> then destroys every remaining offer, closes the descriptor and forgets
  the globals, still without a stale request.
\<close>

theorem wayland_reachable_safe:
  assumes "wayland_reach version w"
  shows "length (wl_offers w) \<le> 32 \<and> distinct (map of_proxy (wl_offers w)) \<and> all_in_order (wl_requests w) \<and>
    live w \<inter> destroyed (wl_requests w) = {} \<and>
    (\<forall>p. wl_drag w = Some p \<longrightarrow> p \<in> live w) \<and>
    (case wl_transfer w of None \<Rightarrow> open_fds (wl_requests w) = {}
     | Some t \<Rightarrow> open_fds (wl_requests w) = {tr_fd t} \<and> tr_offer t \<in> live w \<and> wl_drag w \<noteq> Some (tr_offer t) \<and>
         length (tr_data t) \<le> ZC_DROP_BYTES \<and> CHR 0x00 \<notin> set (tr_data t)) \<and>
    (zc_drop_hovered (wl_drop w) \<longrightarrow> (\<exists>x \<in> set (wl_offers w). wl_drag w = Some (of_proxy x) \<and> of_uris x)) \<and>
    valid_batch (pending (wl_drop w)) \<and>
    (let v = zc_wayland_free version w in live v = {} \<and> live w \<subseteq> destroyed (wl_requests v) \<and>
       open_fds (wl_requests v) = {} \<and> all_in_order (wl_requests v) \<and> wl_transfer v = None \<and> \<not> wl_device v \<and>
       wl_seat v = None \<and> wl_manager v = None \<and> wl_activation v = None)"
proof -
  have ok: "wayland_ok w" by (rule wayland_reach_ok [OF assms])
  note f = free_device_core [OF core_ok [OF ok], of version]
  have all: "all_in_order (wl_requests (free_device version w))"
    using f(1) by (simp add: wayland_ok_def wayland_core_def offers_ok_def)
  show ?thesis
    using ok f(2-8) all
    by (auto simp: wayland_ok_def wayland_ok_defs data_ok_def zc_wayland_free_def Let_def split: option.splits)
qed

text \<open>A run: the globals appear, a file manager's drag enters the window and is dropped on it.\<close>

definition bound_state :: wayland where
  "bound_state = global 2 ''wl_seat'' 1 (global 1 ''wl_data_device_manager'' 4 wayland_init)"

definition hover_state :: wayland where
  "hover_state = enter (\<lambda>_. 3) True (Some 7) (action 7 1 (mime 7 ''text/uri-list'' (offered True 7 bound_state)))"

definition drop_run :: wayland where
  "drop_run = dropped (Some (5, 6)) True 100 hover_state"

lemmas wayland_run = bound_state_def hover_state_def drop_run_def global_def bind_device_def offered_def mime_def action_def
  enter_def dropped_def destroy_offer_def find_offer_def wayland_init_def drop_init_def zc_drop_hovered_def zc_drop_set_hovered_def
  COPY_def send_def hover_def Let_def

lemma drop_run_transfer:
  "wl_transfer drop_run = Some \<lparr>tr_offer = 7, tr_fd = 5, tr_data = [], tr_deadline = 2100\<rparr>"
  "wl_offers drop_run = [\<lparr>of_proxy = 7, of_uris = True, of_action = 1\<rparr>]" "wl_drag drop_run = None"
  "wl_drop drop_run = drop_init"
  by (simp_all add: wayland_run)

lemma drop_run_reachable: "wayland_reach (\<lambda>_. 3) drop_run"
proof -
  let ?v = "\<lambda>_. 3 :: nat"
  have b: "wayland_reach ?v bound_state"
    unfolding bound_state_def by (intro reach_step [OF _ step_global] reach_init)
  have dev: "wl_device bound_state" "p \<notin> live bound_state" "p \<notin> destroyed (wl_requests bound_state)" for p
    by (simp_all add: wayland_run destroyed_def)
  have o: "wayland_reach ?v (offered True 7 bound_state)" by (rule reach_step [OF b step_offered [OF dev]])
  have m: "wayland_reach ?v (mime 7 ''text/uri-list'' (offered True 7 bound_state))"
    by (rule reach_step [OF o step_mime]) (simp add: wayland_run)
  have a: "wayland_reach ?v (action 7 1 (mime 7 ''text/uri-list'' (offered True 7 bound_state)))"
    by (rule reach_step [OF m step_action]) (simp add: wayland_run)
  have e: "wayland_reach ?v hover_state"
    unfolding hover_state_def by (rule reach_step [OF a step_enter]) (simp_all add: wayland_run idle_offer_def)
  show ?thesis
    unfolding drop_run_def by (rule reach_step [OF e step_dropped]) (simp add: wayland_run)
qed

theorem wayland_reachable_safe_witness:
  "open_fds (wl_requests drop_run) = {5} \<and> 7 \<in> live drop_run \<and> all_in_order (wl_requests drop_run) \<and>
   7 \<in> destroyed (wl_requests (zc_wayland_free (\<lambda>_. 3) drop_run)) \<and>
   open_fds (wl_requests (zc_wayland_free (\<lambda>_. 3) drop_run)) = {}"
  using wayland_reachable_safe [OF drop_run_reachable] drop_run_transfer by (auto simp: Let_def)

text \<open>
  C6: A drop arrives whole. When the source writes the URI list of at most 16 valid paths, in
  whatever pieces the pipe delivers them, over however many polls before the two-second deadline,
  interrupted by signals or not, and then closes the pipe, the composer's pending batch is exactly
  these paths; the offer is destroyed and the descriptor closed.
\<close>

theorem wayland_drop_roundtrip:
  assumes "wayland_reach version w" and "wl_transfer w = Some t" and "tr_data t = []"
    and "\<forall>(now, answers) \<in> set polls. now < tr_deadline t \<and> only_data answers"
    and "last_time < tr_deadline t" and "only_data last_answers"
    and "polled_bytes polls @ read_bytes last_answers = uri_text hus" and "list_all2 spells ps hus"
    and "\<forall>p \<in> set ps. valid_path p" and "length ps \<le> ZC_DROP_FILES" and "length (uri_text hus) \<le> ZC_DROP_BYTES"
  shows "let v = run_polls version (polls @ [(last_time, last_answers @ [Inr []])]) w in
    wl_drop v = (wl_drop w)\<lparr>hovered := False, pending := ps\<rparr> \<and> wl_transfer v = None \<and>
    tr_offer t \<in> destroyed (wl_requests v) \<and> open_fds (wl_requests v) = {}"
proof -
  have nul: "CHR 0x00 \<notin> set (polled_bytes polls)" "CHR 0x00 \<notin> set (read_bytes last_answers)"
    "length (polled_bytes polls) + length (read_bytes last_answers) \<le> ZC_DROP_BYTES"
    using uri_text_chars [OF assms(8,9)] assms(7,11) by (metis Un_iff set_append, metis Un_iff set_append, metis length_append)
  let ?u = "with_data t (polled_bytes polls) w" and ?t = "t\<lparr>tr_data := polled_bytes polls\<rparr>"
  let ?x = "with_data ?t (read_bytes last_answers) ?u"
  have u: "run_polls version polls w = ?u" "wl_transfer ?u = Some ?t"
    using run_polls_reads [OF assms(2,4)] nul(1,3) assms(3) by simp_all
  have x: "?x = with_data t (uri_text hus) w"
    using with_data_again [of t "polled_bytes polls" "read_bytes last_answers" w] assms(3,7) by simp
  have "poll_loop version (last_answers @ [Inr []]) ?u = poll_loop version [Inr []] ?x"
    by (rule poll_loop_reads [OF u(2) assms(6)]) (use nul in simp_all)
  also have "\<dots> = finish_transfer version True ?x"
    by (rule poll_end(2) [OF with_data_fields(1)]) (use nul(3) in simp)
  finally have v: "run_polls version (polls @ [(last_time, last_answers @ [Inr []])]) w =
      finish_transfer version True (with_data t (uri_text hus) w)"
    using u assms(5) x by (simp add: run_polls_append zc_wayland_poll_def)
  have t: "wl_transfer (with_data t (uri_text hus) w) = Some (t\<lparr>tr_data := uri_text hus\<rparr>)" using assms(3) by simp
  have fd: "open_fds (wl_requests w) = {tr_fd t}"
    using wayland_reach_ok [OF assms(1)] assms(2) by (simp add: wayland_ok_def wayland_core_def transfer_ok_def)
  have r: "zc_drop_offer (uri_text hus) (wl_drop w) = (wl_drop w)\<lparr>hovered := False, pending := ps\<rparr>"
    using parse_uri_lines [OF assms(8,9)] uri_text_chars [OF assms(8,9)] assms(10,11)
    by (auto simp: uri_list_spec_def comp_def zc_drop_offer_def zc_drop_parse_eq)
  show ?thesis
    unfolding v Let_def using finish_finished [OF t, of version True] r fd by (simp add: finished_def)
qed

theorem wayland_drop_roundtrip_witness:
  "let v = run_polls (\<lambda>_. 3) [(150, [Inr (take 3 (uri_text [([], ''/a'')])), Inl EINTR]),
        (160, [Inr (drop 3 (uri_text [([], ''/a'')])), Inr []])] drop_run in
    pending (wl_drop v) = [''/a''] \<and> wl_transfer v = None \<and> 7 \<in> destroyed (wl_requests v) \<and> open_fds (wl_requests v) = {}"
proof -
  let ?s = "uri_text [([], ''/a'')]"
  have s: "length ?s \<le> 30" "3 < length ?s" by (simp_all add: uri_text_def uri_line_def)
  then have len: "length ?s \<le> ZC_DROP_BYTES" "3 < length ?s" by (auto simp: ZC_DROP_BYTES_def)
  have "uri_of ''/a'' ''/a''"
    unfolding uri_of_def by (rule exI [of _ "''a''"], rule exI [of _ "[''a'']"]) (simp add: escaped_def)
  then have "list_all2 spells [''/a''] [([], ''/a'')]" by (simp add: spells_def)
  moreover have "valid_path ''/a''" by (simp add: valid_path_def has_prefix_def ZC_DROP_PATH_def is_control_def)
  moreover have "polled_bytes [(150, [Inr (take 3 ?s), Inl EINTR])] @ read_bytes [Inr (drop 3 ?s)] = ?s"
    by (simp add: polled_bytes_def)
  moreover have "only_data [Inr (take 3 ?s), Inl EINTR]" "only_data [Inr (drop 3 ?s)]"
    using len(2) by (auto simp: only_data_def)
  ultimately have "let v = run_polls (\<lambda>_. 3) ([(150, [Inr (take 3 ?s), Inl EINTR])] @ [(160, [Inr (drop 3 ?s)] @ [Inr []])]) drop_run in
      wl_drop v = (wl_drop drop_run)\<lparr>hovered := False, pending := [''/a'']\<rparr> \<and> wl_transfer v = None \<and>
      tr_offer \<lparr>tr_offer = 7, tr_fd = 5, tr_data = [], tr_deadline = 2100\<rparr> \<in> destroyed (wl_requests v) \<and>
      open_fds (wl_requests v) = {}"
    using len(1) by (intro wayland_drop_roundtrip [OF drop_run_reachable drop_run_transfer(1)])
      (simp_all add: ZC_DROP_FILES_def)
  then show ?thesis by (simp only: Let_def append_Cons append_Nil drop_state.simps drop_transfer.simps) simp
qed

text \<open>
  C7: Every poll of a transfer leaves it in one of three ways. It goes on, with more of the pipe's
  bytes in order and nothing else changed, only before its deadline and within 256 KiB without NUL. It
  is complete, again only within these bounds, and the composer gets the bytes read. Or it is
  rejected: always at the deadline, and on a NUL, on too much data or on a failed read. Whenever it
  ends its offer is destroyed and its descriptor closed.
\<close>

theorem zc_wayland_poll_outcomes:
  assumes "wayland_reach version w" and "wl_transfer w = Some t" and "zc_wayland_poll version now answers w = v"
  shows "\<exists>got rest. read_bytes answers = got @ rest \<and>
    (if wl_transfer v \<noteq> None
     then now < tr_deadline t \<and> v = w\<lparr>wl_transfer := Some (t\<lparr>tr_data := tr_data t @ got\<rparr>)\<rparr> \<and>
       length (tr_data t @ got) \<le> ZC_DROP_BYTES \<and> CHR 0x00 \<notin> set (tr_data t @ got)
     else tr_offer t \<in> destroyed (wl_requests v) \<and> open_fds (wl_requests v) = {} \<and>
       (wl_drop v = zc_drop_reject (wl_drop w) \<or>
        wl_drop v = zc_drop_offer (tr_data t @ got) (wl_drop w) \<and> now < tr_deadline t \<and>
          length (tr_data t @ got) \<le> ZC_DROP_BYTES \<and> CHR 0x00 \<notin> set (tr_data t @ got)))"
proof -
  have ok: "open_fds (wl_requests w) = {tr_fd t}" "length (tr_data t) \<le> ZC_DROP_BYTES" "CHR 0x00 \<notin> set (tr_data t)"
    using wayland_reach_ok [OF assms(1)] assms(2) by (auto simp: wayland_ok_def wayland_core_def transfer_ok_def data_ok_def)
  have fin: "wl_transfer u = None \<and> tr_offer t \<in> destroyed (wl_requests u) \<and> open_fds (wl_requests u) = {} \<and>
      wl_drop u = (if c then zc_drop_offer (tr_data t @ got) (wl_drop w) else zc_drop_reject (wl_drop w))"
    if "u = finish_transfer version c (with_data t got w)" for u c got
    using finish_finished [OF with_data_fields(1) [of t got w], of version c] ok(1) that by (auto simp: finished_def)
  show ?thesis
  proof (cases "now < tr_deadline t")
    case False
    then have "v = finish_transfer version False (with_data t [] w)"
      using assms(2,3) with_data_same [OF assms(2)] by (auto simp: zc_wayland_poll_def)
    from fin [OF this] show ?thesis by (intro exI [of _ "[]"] exI [of _ "read_bytes answers"]) simp
  next
    case True
    then have "poll_loop version answers w = v" using assms(2,3) by (simp add: zc_wayland_poll_def)
    from poll_loop_outcome [OF assms(2) _ this] ok(2) obtain got rest where
      g: "read_bytes answers = got @ rest" "poll_outcome version t w got v" by auto
    have "if wl_transfer v \<noteq> None
       then now < tr_deadline t \<and> v = w\<lparr>wl_transfer := Some (t\<lparr>tr_data := tr_data t @ got\<rparr>)\<rparr> \<and>
         length (tr_data t @ got) \<le> ZC_DROP_BYTES \<and> CHR 0x00 \<notin> set (tr_data t @ got)
       else tr_offer t \<in> destroyed (wl_requests v) \<and> open_fds (wl_requests v) = {} \<and>
         (wl_drop v = zc_drop_reject (wl_drop w) \<or>
          wl_drop v = zc_drop_offer (tr_data t @ got) (wl_drop w) \<and> now < tr_deadline t \<and>
            length (tr_data t @ got) \<le> ZC_DROP_BYTES \<and> CHR 0x00 \<notin> set (tr_data t @ got))"
      using g(2) True ok(3) fin [of v True got] fin [of v False got]
      by (auto simp: poll_outcome_def with_data_def)
    then show ?thesis using g(1) by blast
  qed
qed

theorem zc_wayland_poll_outcomes_witness:
  "wl_transfer (zc_wayland_poll (\<lambda>_. 3) 2100 [Inr ''x''] drop_run) = None \<and>
   wl_drop (zc_wayland_poll (\<lambda>_. 3) 2100 [Inr ''x''] drop_run) = zc_drop_reject drop_init \<and>
   7 \<in> destroyed (wl_requests (zc_wayland_poll (\<lambda>_. 3) 2100 [Inr ''x''] drop_run))"
proof -
  let ?v = "zc_wayland_poll (\<lambda>_. 3) 2100 [Inr ''x''] drop_run"
  have e: "?v = finish_transfer (\<lambda>_. 3) False drop_run"
    using drop_run_transfer(1) by (simp add: zc_wayland_poll_def)
  have v: "wl_transfer ?v = None" "wl_drop ?v = zc_drop_reject drop_init"
    using finish_finished [OF drop_run_transfer(1), of "\<lambda>_. 3" False] drop_run_transfer(4) by (simp_all add: e finished_def)
  from zc_wayland_poll_outcomes [OF drop_run_reachable drop_run_transfer(1) refl, where now = 2100 and answers = "[Inr ''x'']"] v
  show ?thesis by auto
qed

text \<open>
  A second drag that hovers while the transfer of the first drop completes loses its mark:
  \<open>zc_drop_offer\<close> clears the hover flag for it. Its drop, which the source was told would be
  accepted, is then neither read nor reported as rejected.
\<close>

lemma drop_after_completion_ignored:
  assumes "wl_transfer w = Some t" and "wl_drag w = Some p" and "p \<noteq> tr_offer t"
    and "v = finish_transfer version True w"
  shows "wl_drag v = Some p" and "wl_transfer (dropped pipe alloc now v) = None"
    and "rejected (wl_drop (dropped pipe alloc now v)) = rejected (wl_drop v)"
    and "pending (wl_drop (dropped pipe alloc now v)) = pending (wl_drop v)"
proof -
  have f: "wl_transfer v = None" "wl_drag v = Some p" "\<not> zc_drop_hovered (wl_drop v)"
    using finish_finished [OF assms(1), of version True] assms(2,3) by (simp_all add: assms(4) finished_def zc_drop_hovered_def)
  then show "wl_drag v = Some p" "wl_transfer (dropped pipe alloc now v) = None"
    "rejected (wl_drop (dropped pipe alloc now v)) = rejected (wl_drop v)"
    "pending (wl_drop (dropped pipe alloc now v)) = pending (wl_drop v)"
    by (simp_all add: dropped_def)
qed

end
