(* ===== verification/Desktop.thy ===== *)
theory Desktop
  imports Wayland
begin

text \<open>
  The desktop shell of the client, \<open>src/client/desktop.c\<close>: the window, the clipboard and the wake-up
  protocol between worker threads and the user interface, on top of the Wayland component. A worker
  calls \<open>zc_desktop_wake\<close>, the user interface sleeps in \<open>zc_desktop_wait\<close>; they share an atomic flag and
  SDL's event queue. The two functions are split at their atomic operations, so that the steps of any
  number of workers interleave with those of the user interface. SDL is not part of the repository:
  \<open>dk_queue\<close> counts the events in its queue, and its results are arguments.
\<close>

section \<open>State and operations\<close>

text \<open>
  The user interface thread is outside of \<open>zc_desktop_wait\<close>, in \<open>SDL_WaitEventTimeout\<close> with a time limit,
  or past it. \<open>dk_event\<close> is whether \<open>wake_event\<close> is not 0; \<open>dk_pushing\<close> counts the workers between the
  exchange and \<open>SDL_PushEvent\<close>.
\<close>

datatype ui = Outside | Waiting int | Past

record desktop =
  dk_window :: bool
  dk_event :: bool
  dk_pending :: bool
  dk_clipboard :: "string option"
  dk_input :: bool
  dk_queue :: nat
  dk_pushing :: nat
  dk_ui :: ui
  dk_wayland :: wayland

text \<open>
  The window is a flag. \<open>zc_desktop_init\<close> also disables two kinds of SDL events and has
  \<open>zc_wayland_init\<close> register the listeners, whose calls are the steps of the Wayland component.
\<close>

definition zc_desktop_init :: "bool \<Rightarrow> desktop \<Rightarrow> desktop" where
  "zc_desktop_init registered d = d\<lparr>dk_window := True, dk_event := registered, dk_pending := False\<rparr>"

definition zc_desktop_free :: "(nat \<Rightarrow> nat) \<Rightarrow> desktop \<Rightarrow> desktop" where
  "zc_desktop_free version d =
     d\<lparr>dk_wayland := zc_wayland_free version (dk_wayland d), dk_clipboard := None, dk_window := False, dk_event := False\<rparr>"

text \<open>The condition of \<open>zc_desktop_wake\<close>; then the push, which fails only when the queue is full.\<close>

definition wake_exchange :: "desktop \<Rightarrow> desktop" where
  "wake_exchange d =
     (if \<not> dk_pending d \<and> dk_event d then d\<lparr>dk_pending := True, dk_pushing := Suc (dk_pushing d)\<rparr>
      else d\<lparr>dk_pending := True\<rparr>)"

definition wake_push :: "bool \<Rightarrow> desktop \<Rightarrow> desktop" where
  "wake_push full d =
     d\<lparr>dk_pushing := dk_pushing d - 1, dk_queue := (if full \<and> dk_queue d > 0 then dk_queue d else Suc (dk_queue d))\<rparr>"

text \<open>The parts of \<open>zc_desktop_wait\<close>: the look at the flag, the end of the sleep, the exchange that gives the result.\<close>

definition wait_check :: "int \<Rightarrow> desktop \<Rightarrow> desktop" where
  "wait_check timeout_ms d =
     d\<lparr>dk_ui := (if dk_pending d then Past else Waiting (zc_wayland_wait_limit timeout_ms (dk_wayland d)))\<rparr>"

definition wait_wake :: "desktop \<Rightarrow> desktop" where
  "wait_wake d = d\<lparr>dk_ui := Past\<rparr>"

definition wait_exchange :: "desktop \<Rightarrow> bool \<times> desktop" where
  "wait_exchange d = (dk_pending d, d\<lparr>dk_pending := False, dk_ui := Outside\<rparr>)"

definition zc_desktop_reset_input :: "bool \<Rightarrow> bool \<Rightarrow> desktop \<Rightarrow> desktop" where
  "zc_desktop_reset_input started enabled d = (if \<not> dk_window d then d else d\<lparr>dk_input := enabled \<and> started\<rparr>)"

definition zc_desktop_clipboard :: "string option \<Rightarrow> desktop \<Rightarrow> string option \<times> desktop" where
  "zc_desktop_clipboard got d = (got, d\<lparr>dk_clipboard := got\<rparr>)"

definition zc_desktop_open :: "bool \<Rightarrow> bool \<Rightarrow> bool \<Rightarrow> desktop \<Rightarrow> bool \<times> desktop" where
  "zc_desktop_open video created registered d =
     (if \<not> video then (False, d)
      else if \<not> created then (False, d\<lparr>dk_window := False\<rparr>)
      else (True, zc_desktop_init registered d))"

definition zc_desktop_close :: "(nat \<Rightarrow> nat) \<Rightarrow> desktop \<Rightarrow> desktop" where
  "zc_desktop_close version d = zc_desktop_free version (d\<lparr>dk_input := False\<rparr>)"

text \<open>\<open>pumped\<close>: what the listeners that \<open>SDL_PumpEvents\<close> dispatches do to the Wayland state.\<close>

definition zc_desktop_poll :: "(nat \<Rightarrow> nat) \<Rightarrow> nat \<Rightarrow> (errno + char list) list \<Rightarrow> (wayland \<Rightarrow> wayland) \<Rightarrow>
    nat \<Rightarrow> (errno + char list) list \<Rightarrow> desktop \<Rightarrow> desktop" where
  "zc_desktop_poll version now1 answers1 pumped now2 answers2 d =
     d\<lparr>dk_wayland := zc_wayland_poll version now2 answers2 (pumped (zc_wayland_poll version now1 answers1 (dk_wayland d)))\<rparr>"

section \<open>Interleaved runs\<close>

definition desktop_start :: "bool \<Rightarrow> desktop" where
  "desktop_start registered = zc_desktop_init registered
     \<lparr>dk_window = False, dk_event = False, dk_pending = False, dk_clipboard = None, dk_input = False, dk_queue = 0,
      dk_pushing = 0, dk_ui = Outside, dk_wayland = wayland_init\<rparr>"

text \<open>
  Workers wake at any moment. SDL leaves the events of the queue to the application, which takes them
  outside of \<open>zc_desktop_wait\<close>; a sleep ends when there is an event or, unless the limit is negative,
  when the time is up. The Wayland component moves with every dispatch.
\<close>

inductive desktop_step :: "(nat \<Rightarrow> nat) \<Rightarrow> desktop \<Rightarrow> desktop \<Rightarrow> bool" for version where
  step_exchange: "desktop_step version d (wake_exchange d)"
| step_push: "0 < dk_pushing d \<Longrightarrow> desktop_step version d (wake_push full d)"
| step_other_event: "desktop_step version d (d\<lparr>dk_queue := Suc (dk_queue d)\<rparr>)"
| step_take_event: "dk_ui d = Outside \<Longrightarrow> 0 < dk_queue d \<Longrightarrow> desktop_step version d (d\<lparr>dk_queue := dk_queue d - 1\<rparr>)"
| step_check: "dk_ui d = Outside \<Longrightarrow> desktop_step version d (wait_check timeout_ms d)"
| step_sleep_end: "dk_ui d = Waiting limit \<Longrightarrow> 0 < dk_queue d \<or> 0 \<le> limit \<Longrightarrow> desktop_step version d (wait_wake d)"
| step_result: "dk_ui d = Past \<Longrightarrow> desktop_step version d (snd (wait_exchange d))"
| step_wayland: "wayland_step version (dk_wayland d) w \<Longrightarrow> desktop_step version d (d\<lparr>dk_wayland := w\<rparr>)"
| step_desktop_poll: "rtranclp (wayland_step version) (zc_wayland_poll version now1 answers1 (dk_wayland d))
      (pumped (zc_wayland_poll version now1 answers1 (dk_wayland d))) \<Longrightarrow>
    desktop_step version d (zc_desktop_poll version now1 answers1 pumped now2 answers2 d)"
| step_clipboard: "desktop_step version d (snd (zc_desktop_clipboard got d))"
| step_input: "desktop_step version d (zc_desktop_reset_input started enabled d)"

inductive desktop_reach :: "(nat \<Rightarrow> nat) \<Rightarrow> bool \<Rightarrow> desktop \<Rightarrow> bool" for version registered where
  reach_start: "desktop_reach version registered (desktop_start registered)"
| reach_next: "desktop_reach version registered d \<Longrightarrow> desktop_step version d e \<Longrightarrow> desktop_reach version registered e"

section \<open>No wake-up is lost\<close>

definition desktop_ok :: "(nat \<Rightarrow> nat) \<Rightarrow> bool \<Rightarrow> desktop \<Rightarrow> bool" where
  "desktop_ok version registered d \<longleftrightarrow> dk_event d = registered \<and> wayland_reach version (dk_wayland d) \<and>
     (\<forall>limit. dk_ui d = Waiting limit \<and> dk_pending d \<and> registered \<longrightarrow> 0 < dk_queue d \<or> 0 < dk_pushing d)"

inductive_cases desktop_step_cases: "desktop_step version d e"

lemma poll_reach: "wayland_reach version w \<Longrightarrow> wayland_reach version (zc_wayland_poll version now answers w)"
  by (rule reach_step [OF _ step_poll])

lemma steps_reach: "rtranclp (wayland_step version) w v \<Longrightarrow> wayland_reach version w \<Longrightarrow> wayland_reach version v"
  by (induction rule: rtranclp_induct) (auto intro: reach_step)

lemma desktop_step_ok:
  assumes "desktop_step version d e" and "desktop_ok version registered d"
  shows "desktop_ok version registered e"
  using assms(1)
proof (cases rule: desktop_step.cases)
  case (step_wayland w)
  then show ?thesis using assms(2) reach_step by (auto simp: desktop_ok_def)
next
  case (step_desktop_poll now1 answers1 pumped now2 answers2)
  have "wayland_reach version (pumped (zc_wayland_poll version now1 answers1 (dk_wayland d)))"
    using steps_reach [OF step_desktop_poll(2)] poll_reach assms(2) by (simp add: desktop_ok_def)
  then have "wayland_reach version (dk_wayland e)" using poll_reach step_desktop_poll(1) by (simp add: zc_desktop_poll_def)
  then show ?thesis using assms(2) step_desktop_poll(1) by (simp add: desktop_ok_def zc_desktop_poll_def)
qed (use assms(2) in \<open>auto simp: desktop_ok_def wake_exchange_def wake_push_def wait_check_def wait_wake_def wait_exchange_def
      zc_desktop_clipboard_def zc_desktop_reset_input_def\<close>)

lemma desktop_reach_ok: "desktop_reach version registered d \<Longrightarrow> desktop_ok version registered d"
proof (induction rule: desktop_reach.induct)
  case reach_start
  then show ?case by (simp add: desktop_ok_def desktop_start_def zc_desktop_init_def wayland_reach.reach_init)
next
  case (reach_next d e)
  then show ?case using desktop_step_ok by blast
qed

text \<open>An event in the queue is not lost while the user interface sleeps: only the end of the sleep comes between.\<close>

lemma sleep_keeps_event:
  assumes "desktop_step version d e" and "dk_ui d = Waiting limit" and "0 < dk_queue d"
  shows "dk_ui e = Past \<or> dk_ui e = Waiting limit \<and> 0 < dk_queue e"
  using assms
  by (cases rule: desktop_step.cases)
    (auto simp: wake_exchange_def wake_push_def wait_wake_def zc_desktop_poll_def zc_desktop_clipboard_def
      zc_desktop_reset_input_def)

text \<open>
  C8: No wake-up is lost, however the workers and the user interface interleave. Once a worker has
  set the flag, it stays set until an exchange of \<open>zc_desktop_wait\<close> reports it; a wait that starts
  then does not sleep; and if the wake event was registered, a wait that sleeps has an event in the
  queue, which lets it end now and stays there until it does, or a worker is about to push one.
\<close>

theorem desktop_no_lost_wakeup:
  assumes "desktop_reach version registered d" and "dk_pending d"
  shows "(\<forall>e. desktop_step version d e \<longrightarrow> dk_pending e \<or> e = snd (wait_exchange d) \<and> fst (wait_exchange d)) \<and>
    dk_ui (wait_check timeout_ms d) = Past \<and>
    (\<forall>limit. dk_ui d = Waiting limit \<and> registered \<longrightarrow> 0 < dk_pushing d \<or> 0 < dk_queue d) \<and>
    (\<forall>limit full. dk_ui d = Waiting limit \<and> 0 < dk_pushing d \<longrightarrow>
       desktop_step version d (wake_push full d) \<and> 0 < dk_queue (wake_push full d)) \<and>
    (\<forall>limit. dk_ui d = Waiting limit \<and> 0 < dk_queue d \<longrightarrow> desktop_step version d (wait_wake d) \<and>
       (\<forall>e. desktop_step version d e \<longrightarrow> dk_ui e = Past \<or> dk_ui e = Waiting limit \<and> 0 < dk_queue e))"
proof -
  have "dk_pending e \<or> e = snd (wait_exchange d) \<and> fst (wait_exchange d)" if "desktop_step version d e" for e
    using that assms(2)
    by (cases rule: desktop_step.cases)
      (auto simp: wake_exchange_def wake_push_def wait_check_def wait_wake_def wait_exchange_def zc_desktop_poll_def
        zc_desktop_clipboard_def zc_desktop_reset_input_def)
  moreover have "0 < dk_pushing d \<or> 0 < dk_queue d" if "dk_ui d = Waiting limit" "registered" for limit
    using desktop_reach_ok [OF assms(1)] that assms(2) by (auto simp: desktop_ok_def)
  moreover have "desktop_step version d (wake_push full d) \<and> 0 < dk_queue (wake_push full d)"
    if "0 < dk_pushing d" for full
    using step_push [OF that] by (simp add: wake_push_def)
  moreover have "desktop_step version d (wait_wake d)" if "dk_ui d = Waiting limit" "0 < dk_queue d" for limit
    by (rule step_sleep_end [OF that(1) disjI1 [OF that(2)]])
  ultimately show ?thesis using assms(2) sleep_keeps_event by (simp add: wait_check_def)
qed

text \<open>
  The time limit of a sleep is fixed when the sleep starts: ten milliseconds at most if a drop is
  being read then. A drop that arrives during a sleep does not shorten it; \<open>dropped\<close> pushes no event.
\<close>

lemma sleep_limit_at_start:
  "wl_transfer (dk_wayland d) \<noteq> None \<Longrightarrow> dk_ui (wait_check timeout_ms d) = Waiting limit \<Longrightarrow> 0 \<le> limit \<and> limit \<le> 10"
  by (auto simp: wait_check_def zc_wayland_wait_limit_def split: if_splits)

text \<open>A run: the user interface looks at the flag, then a worker wakes it while it sleeps.\<close>

definition sleeping :: desktop where
  "sleeping = wake_push False (wake_exchange (wait_check (-1) (desktop_start True)))"

lemma sleeping_reachable: "desktop_reach (\<lambda>_. 3) True sleeping"
  unfolding sleeping_def
proof (intro reach_next [OF _ step_push] reach_next [OF _ step_exchange] reach_next [OF _ step_check] reach_start)
  show "dk_ui (desktop_start True) = Outside" by (simp add: desktop_start_def zc_desktop_init_def)
  show "0 < dk_pushing (wake_exchange (wait_check (-1) (desktop_start True)))"
    by (simp add: wake_exchange_def wait_check_def desktop_start_def zc_desktop_init_def)
qed

theorem desktop_no_lost_wakeup_witness:
  "dk_ui sleeping = Waiting (-1) \<and> dk_pending sleeping \<and> desktop_step (\<lambda>_. 3) sleeping (wait_wake sleeping) \<and>
   fst (wait_exchange (wait_wake sleeping))"
proof -
  have s: "dk_ui sleeping = Waiting (-1)" "dk_pending sleeping" "dk_pushing sleeping = 0"
    by (simp_all add: sleeping_def wake_push_def wake_exchange_def wait_check_def desktop_start_def zc_desktop_init_def
        zc_wayland_wait_limit_def wayland_init_def)
  from desktop_no_lost_wakeup [OF sleeping_reachable s(2)] s show ?thesis by (simp add: wait_wake_def wait_exchange_def)
qed

end
