(* ===== verification/Text.thy ===== *)
theory Text
  imports Prelude Complex_Main "HOL-Library.Word" "HOL-Library.Signed_Division"
begin

text \<open>
  Laid out text in \<open>src/client/bridge.c\<close>: the admission of a text, the stacking of its lines, the tile to
  rasterize, hits, caret stops, word selection and, at the end, how a text is made from these. Pango,
  cairo and GLib are not part of the repository: line extents, hit results, cursor positions and
  Unicode classes are arguments. A validated UTF-8 string is the list of its code points, a pointer
  into it the number of code points before it; \<open>offset\<close> converts to bytes. Coordinates are integers
  in Pango units (1024 to a pixel). Floating point products are arguments with rational results.
\<close>

section \<open>Code points and bytes\<close>

definition ulen :: "nat \<Rightarrow> nat" where
  "ulen c = (if c < 0x80 then 1 else if c < 0x800 then 2 else if c < 0x10000 then 3 else 4)"

definition offset :: "nat list \<Rightarrow> nat \<Rightarrow> nat" where
  "offset cs i = sum_list (map ulen (take i cs))"

definition line_break :: "nat \<Rightarrow> bool" where
  "line_break c \<longleftrightarrow> c = 10 \<or> c = 13 \<or> c = 0x2028 \<or> c = 0x2029"

section \<open>Admitting a text\<close>

text \<open>
  The loop of \<open>zc_text_new_weighted\<close> over the code points: the line count, the run of marks, the byte
  position, that of the last space, and whether character wrapping is needed. \<open>mark\<close> and \<open>space\<close> are
  GLib's classes; \<open>None\<close> if the text is refused.
\<close>

fun scan_loop :: "(nat \<Rightarrow> bool) \<Rightarrow> (nat \<Rightarrow> bool) \<Rightarrow> nat \<Rightarrow> nat \<Rightarrow> nat \<Rightarrow> nat \<Rightarrow> bool \<Rightarrow> nat list \<Rightarrow> bool option" where
  "scan_loop mark space lines marks p word wrap [] = Some wrap"
| "scan_loop mark space lines marks p word wrap (c # cs) =
     (let lines = (if line_break c then Suc lines else lines) in
      if line_break c \<and> lines > 2048 then None
      else let marks = (if mark c then Suc marks else 0) in
        if mark c \<and> marks > 32 then None
        else let word = (if space c then p else word)
             in scan_loop mark space lines marks (p + ulen c) word (wrap \<or> p - word > 512) cs)"

definition text_scan :: "(nat \<Rightarrow> bool) \<Rightarrow> (nat \<Rightarrow> bool) \<Rightarrow> nat list \<Rightarrow> bool option" where
  "text_scan mark space cs = scan_loop mark space 1 0 0 0 False cs"

section \<open>Stacking the lines\<close>

definition INT_MAX :: int where "INT_MAX = 2147483647"

record rect =
  r_x :: int
  r_y :: int
  r_w :: int
  r_h :: int

text \<open>A line of the layout: its byte range, ink and logical extents and baseline.\<close>

record text_line =
  tl_start :: int
  tl_length :: int
  tl_ink :: rect
  tl_logical :: rect
  tl_baseline :: int

definition line_above :: "int \<Rightarrow> text_line \<Rightarrow> int" where
  "line_above ascent l = (if r_h (tl_ink l) > 0 then max ascent (tl_baseline l - r_y (tl_ink l)) else ascent)"

definition line_below :: "int \<Rightarrow> text_line \<Rightarrow> int" where
  "line_below descent l =
     (if r_h (tl_ink l) > 0 then max descent (r_y (tl_ink l) + r_h (tl_ink l) - tl_baseline l) else descent)"

definition place_line :: "int \<Rightarrow> int \<Rightarrow> int \<Rightarrow> text_line \<Rightarrow> text_line" where
  "place_line y up down l =
     l\<lparr>tl_baseline := y + up, tl_ink := (tl_ink l)\<lparr>r_y := r_y (tl_ink l) + (y + up - tl_baseline l)\<rparr>,
       tl_logical := (tl_logical l)\<lparr>r_y := y, r_h := up + down\<rparr>\<rparr>"

fun measure_loop :: "int \<Rightarrow> int \<Rightarrow> int \<Rightarrow> int \<Rightarrow> text_line list \<Rightarrow> (text_line list \<times> int) option" where
  "measure_loop ascent descent spacing y [] = Some ([], y)"
| "measure_loop ascent descent spacing y (l # rest) =
     (let up = line_above ascent l; down = line_below descent l in
      if y + up + down + spacing > INT_MAX then None
      else let y' = y + up + down + (if rest \<noteq> [] then spacing else 0) in
        case measure_loop ascent descent spacing y' rest of
          None \<Rightarrow> None
        | Some (placed, bottom) \<Rightarrow> Some (place_line y up down l # placed, bottom))"

text \<open>\<open>metrics\<close>: ascent and descent of the primary font, if it loads; \<open>alloc\<close>: whether \<open>calloc\<close> succeeds.\<close>

definition text_measure_lines :: "(int \<times> int) option \<Rightarrow> bool \<Rightarrow> int \<Rightarrow> text_line list \<Rightarrow> (text_line list \<times> int) option" where
  "text_measure_lines metrics alloc spacing lines = (case metrics of
     None \<Rightarrow> None
   | Some (ascent, descent) \<Rightarrow> if \<not> alloc then None else measure_loop ascent descent spacing 0 lines)"

definition line_bottom :: "text_line \<Rightarrow> int" where
  "line_bottom l = r_y (tl_logical l) + r_h (tl_logical l)"

section \<open>Hits\<close>

function hit_loop :: "text_line list \<Rightarrow> int \<Rightarrow> int \<Rightarrow> nat \<Rightarrow> nat \<Rightarrow> nat" where
  "hit_loop lines py half lo hi =
     (if lo < hi then
        (let mid = lo + (hi - lo) div 2 in
         if py < line_bottom (lines ! mid) + half then hit_loop lines py half lo mid
         else hit_loop lines py half (Suc mid) hi)
      else lo)"
  by pat_completeness auto

termination by (relation "measure (\<lambda>(lines, py, half, lo, hi). hi - lo)") auto

declare hit_loop.simps [simp del]

text \<open>
  \<open>to_index i x\<close> is Pango's answer for line \<open>i\<close>: the code point hit and how many more a hit on its
  trailing half would skip.
\<close>

definition clamp :: "int \<Rightarrow> int \<Rightarrow> int \<Rightarrow> int" where
  "clamp v low high = max low (min high v)"

definition text_hit :: "text_line list \<Rightarrow> int \<Rightarrow> (nat \<Rightarrow> int \<Rightarrow> nat \<times> nat) \<Rightarrow> int \<Rightarrow> int \<Rightarrow> nat \<times> nat" where
  "text_hit lines spacing to_index x y =
     (let i = hit_loop lines (y * 1024) (spacing div 2) 0 (length lines - 1)
      in to_index i (clamp (x * 1024 - r_x (tl_logical (lines ! i))) (- INT_MAX - 1) INT_MAX))"

fun advance :: "nat list \<Rightarrow> nat \<Rightarrow> nat \<Rightarrow> nat" where
  "advance cs p 0 = p"
| "advance cs p (Suc trailing) = (if p < length cs then advance cs (Suc p) trailing else p)"

definition zc_text_hit :: "text_line list \<Rightarrow> int \<Rightarrow> (nat \<Rightarrow> int \<Rightarrow> nat \<times> nat) \<Rightarrow> nat list \<Rightarrow> int \<Rightarrow> int \<Rightarrow> nat" where
  "zc_text_hit lines spacing to_index cs x y =
     (case text_hit lines spacing to_index x y of (p, trailing) \<Rightarrow> offset cs (advance cs p trailing))"

text \<open>\<open>zc_text_caret\<close> moves an index into the text and back to the start of its character: bytes here.\<close>

fun char_start :: "nat list \<Rightarrow> nat \<Rightarrow> nat" where
  "char_start bytes 0 = 0"
| "char_start bytes (Suc i) =
     (if Suc i < length bytes \<and> 0x80 \<le> bytes ! Suc i \<and> bytes ! Suc i < 0xC0 then char_start bytes i else Suc i)"

definition caret_index :: "nat list \<Rightarrow> int \<Rightarrow> nat" where
  "caret_index bytes index = char_start bytes (nat (clamp index 0 (int (length bytes))))"

text \<open>The selected parts of the lines: \<open>x_ranges i first last\<close> is Pango's list of intervals on line \<open>i\<close>.\<close>

definition line_ranges :: "(nat \<Rightarrow> int \<Rightarrow> int \<Rightarrow> (int \<times> int) list) \<Rightarrow> int \<Rightarrow> int \<Rightarrow> nat \<times> text_line \<Rightarrow> rect list" where
  "line_ranges x_ranges start end_of = (\<lambda>(i, l).
     let first = max start (tl_start l); last = min end_of (tl_start l + tl_length l) in
     if first \<ge> last then []
     else map (\<lambda>(a, b). \<lparr>r_x = a, r_y = r_y (tl_logical l), r_w = b - a, r_h = r_h (tl_logical l)\<rparr>) (x_ranges i first last))"

definition zc_text_ranges :: "(nat \<Rightarrow> int \<Rightarrow> int \<Rightarrow> (int \<times> int) list) \<Rightarrow> int \<Rightarrow> int \<Rightarrow> text_line list \<Rightarrow> rect list" where
  "zc_text_ranges x_ranges start end_of lines =
     concat (map (line_ranges x_ranges start end_of) (enumerate 0 lines))"

section \<open>Caret stops\<close>

text \<open>
  The loop of \<open>zc_text_boundary\<close>: the attributes still to visit, the code points after the pointer,
  its byte position and the last stop passed. \<open>stops ! i\<close> is \<open>attrs[i].is_cursor_position\<close>.
\<close>

fun boundary_loop :: "int \<Rightarrow> nat \<Rightarrow> nat \<Rightarrow> bool list \<Rightarrow> nat list \<Rightarrow> nat \<Rightarrow> nat \<Rightarrow> nat" where
  "boundary_loop direction position result [] cs here prev = result"
| "boundary_loop direction position result (stop # stops) cs here prev =
     (if stop \<and> direction < 0 \<and> here \<ge> position then prev
      else if stop \<and> direction > 0 \<and> here > position then here
      else boundary_loop direction position result stops (tl cs)
        (case cs of [] \<Rightarrow> here | c # _ \<Rightarrow> here + ulen c) (if stop then here else prev))"

text \<open>\<open>decoded\<close>: the code points, if the bytes are valid UTF-8; \<open>log_attrs\<close>: Pango's cursor positions.\<close>

definition zc_text_boundary :: "(nat list \<Rightarrow> bool list) \<Rightarrow> nat list option \<Rightarrow> nat \<Rightarrow> int \<Rightarrow> nat" where
  "zc_text_boundary log_attrs decoded position direction = (case decoded of
     None \<Rightarrow> position
   | Some cs \<Rightarrow> boundary_loop direction position (offset cs (length cs)) (log_attrs cs) cs 0 0)"

section \<open>Selecting a word\<close>

text \<open>GLib's classes of a code point.\<close>

record unicode =
  u_alnum :: "nat \<Rightarrow> bool"
  u_mark :: "nat \<Rightarrow> bool"
  u_space :: "nat \<Rightarrow> bool"

definition word_character :: "unicode \<Rightarrow> nat \<Rightarrow> bool" where
  "word_character u ch \<longleftrightarrow> u_alnum u ch \<or> u_mark u ch \<or> ch = 95"

definition joiner :: "nat \<Rightarrow> bool" where
  "joiner ch \<longleftrightarrow> ch = 39 \<or> ch = 0x2019 \<or> ch = 45 \<or> ch = 0x2010 \<or> ch = 0x2011"

definition selection_class :: "unicode \<Rightarrow> nat list \<Rightarrow> nat \<Rightarrow> nat" where
  "selection_class u cs p =
     (let ch = cs ! p in
      if word_character u ch then 1
      else if joiner ch \<and> 0 < p \<and> Suc p < length cs \<and> word_character u (cs ! (p - 1)) \<and> word_character u (cs ! Suc p)
      then 1
      else if u_space u ch \<and> \<not> line_break ch then 2 else 0)"

fun cluster_start :: "bool list \<Rightarrow> nat \<Rightarrow> nat" where
  "cluster_start stops 0 = 0"
| "cluster_start stops (Suc left) = (if \<not> stops ! Suc left then cluster_start stops left else Suc left)"

function cluster_end :: "bool list \<Rightarrow> nat \<Rightarrow> nat \<Rightarrow> nat" where
  "cluster_end stops n right =
     (if Suc right < n \<and> \<not> stops ! Suc right then cluster_end stops n (Suc right) else Suc right)"
  by pat_completeness auto

termination by (relation "measure (\<lambda>(stops, n, right). n - right)") auto

declare cluster_end.simps [simp del]

lemma cluster_start_le: "cluster_start stops left \<le> left"
  by (induction stops left rule: cluster_start.induct) auto

lemma cluster_end_gt: "right < cluster_end stops n right"
  by (induction stops n right rule: cluster_end.induct) (subst cluster_end.simps, auto)

function extend_left :: "unicode \<Rightarrow> nat list \<Rightarrow> bool list \<Rightarrow> nat \<Rightarrow> nat \<Rightarrow> nat" where
  "extend_left u cs stops kind left =
     (if 0 < left then
        (let here = cluster_start stops (left - 1) in
         if selection_class u cs here \<noteq> kind then left else extend_left u cs stops kind here)
      else left)"
  by pat_completeness auto

termination
proof (relation "measure (\<lambda>(u, cs, stops, kind, left). left)", goal_cases)
  case (2 u cs stops kind left here)
  then show ?case using cluster_start_le [of stops "left - 1"] by simp
qed simp

declare extend_left.simps [simp del]

function extend_right :: "unicode \<Rightarrow> nat list \<Rightarrow> bool list \<Rightarrow> nat \<Rightarrow> nat \<Rightarrow> nat" where
  "extend_right u cs stops kind right =
     (if right < length cs \<and> selection_class u cs right = kind
      then extend_right u cs stops kind (cluster_end stops (length cs) right) else right)"
  by pat_completeness auto

termination
proof (relation "measure (\<lambda>(u, cs, stops, kind, right). length cs - right)", goal_cases)
  case (2 u cs stops kind right)
  then show ?case using cluster_end_gt [of right stops "length cs"] by (simp add: diff_less_mono2)
qed simp

declare extend_right.simps [simp del]

text \<open>\<open>hit\<close>: the code point that \<open>text_hit\<close> found; the result is a range of code points, and of bytes.\<close>

definition word_range :: "unicode \<Rightarrow> nat list \<Rightarrow> bool list \<Rightarrow> nat \<Rightarrow> nat \<times> nat" where
  "word_range u cs stops hit =
     (if cs = [] then (0, 0)
      else let left = cluster_start stops (if hit < length cs then hit else hit - 1);
               right = cluster_end stops (length cs) left;
               kind = selection_class u cs left
           in if kind \<noteq> 0 then (extend_left u cs stops kind left, extend_right u cs stops kind right) else (left, right))"

definition zc_text_word_hit :: "unicode \<Rightarrow> nat list \<Rightarrow> bool list \<Rightarrow> nat \<Rightarrow> nat \<times> nat" where
  "zc_text_word_hit u cs stops hit =
     (case word_range u cs stops hit of (left, right) \<Rightarrow> (offset cs left, offset cs right))"

section \<open>The lines are stacked without overlap or clipping\<close>

text \<open>One line where it is shown: within the integers, its ink within its box, its baseline too.\<close>

definition line_fits :: "int \<Rightarrow> int \<Rightarrow> int \<Rightarrow> text_line \<Rightarrow> bool" where
  "line_fits ascent descent spacing l \<longleftrightarrow> 0 \<le> r_y (tl_logical l) \<and> line_bottom l + spacing \<le> INT_MAX \<and>
     r_y (tl_logical l) + ascent \<le> tl_baseline l \<and> tl_baseline l + descent \<le> line_bottom l \<and>
     (r_h (tl_ink l) > 0 \<longrightarrow> r_y (tl_logical l) \<le> r_y (tl_ink l) \<and> r_y (tl_ink l) + r_h (tl_ink l) \<le> line_bottom l)"

text \<open>The lines from \<open>y\<close> on, each below the one before by the spacing, down to \<open>bottom\<close>.\<close>

fun stacked :: "int \<Rightarrow> int \<Rightarrow> text_line list \<Rightarrow> int \<Rightarrow> bool" where
  "stacked spacing y [] bottom = (bottom = y)"
| "stacked spacing y [l] bottom = (r_y (tl_logical l) = y \<and> bottom = line_bottom l)"
| "stacked spacing y (l # rest) bottom = (r_y (tl_logical l) = y \<and> stacked spacing (line_bottom l + spacing) rest bottom)"

text \<open>Shaping is kept: the same bytes, and the ink where it was relative to the baseline.\<close>

definition same_shape :: "text_line \<Rightarrow> text_line \<Rightarrow> bool" where
  "same_shape l m \<longleftrightarrow> tl_start m = tl_start l \<and> tl_length m = tl_length l \<and>
     r_y (tl_ink m) - tl_baseline m = r_y (tl_ink l) - tl_baseline l \<and> r_h (tl_ink m) = r_h (tl_ink l) \<and>
     r_x (tl_ink m) = r_x (tl_ink l) \<and> r_w (tl_ink m) = r_w (tl_ink l) \<and> r_x (tl_logical m) = r_x (tl_logical l)"

lemma place_line_facts:
  assumes "0 \<le> y" and "y + line_above ascent l + line_below descent l + spacing \<le> INT_MAX"
  shows "line_fits ascent descent spacing (place_line y (line_above ascent l) (line_below descent l) l)"
    and "same_shape l (place_line y (line_above ascent l) (line_below descent l) l)"
    and "line_bottom (place_line y (line_above ascent l) (line_below descent l) l) = y + line_above ascent l + line_below descent l"
    and "r_y (tl_logical (place_line y (line_above ascent l) (line_below descent l) l)) = y"
  using assms by (auto simp: line_fits_def same_shape_def place_line_def line_bottom_def line_above_def line_below_def)

lemma line_height_nonneg: "0 \<le> ascent \<Longrightarrow> 0 \<le> descent \<Longrightarrow> 0 \<le> line_above ascent l \<and> 0 \<le> line_below descent l"
  by (simp add: line_above_def line_below_def max_def)

lemma measure_loop_stacked:
  assumes "measure_loop ascent descent spacing y lines = Some (placed, bottom)" and "0 \<le> y" and "0 \<le> ascent"
    and "0 \<le> descent" and "0 \<le> spacing"
  shows "stacked spacing y placed bottom \<and> list_all2 same_shape lines placed \<and>
    list_all (line_fits ascent descent spacing) placed \<and> y \<le> bottom"
  using assms(1,2)
proof (induction lines arbitrary: y placed bottom)
  case (Cons l rest)
  let ?ab = "line_above ascent l" and ?be = "line_below descent l"
  let ?y = "y + ?ab + ?be + (if rest \<noteq> [] then spacing else 0)"
  have fits: "y + ?ab + ?be + spacing \<le> INT_MAX"
    using Cons.prems(1) by (auto simp: Let_def split: if_splits)
  obtain tail where t: "measure_loop ascent descent spacing ?y rest = Some (tail, bottom)"
    "placed = place_line y ?ab ?be l # tail"
    using Cons.prems(1) fits by (auto simp: Let_def split: option.splits)
  note h = line_height_nonneg [OF assms(3,4), of l]
  have "0 \<le> ?y" using Cons.prems(2) h assms(5) by simp
  note ih = Cons.IH [OF t(1) this]
  note p = place_line_facts [OF Cons.prems(2) fits]
  have "rest = [] \<longleftrightarrow> tail = []" using ih by (auto simp: list_all2_conv_all_nth)
  then have "stacked spacing y placed bottom" using ih p t(2) by (cases tail) (auto simp: line_bottom_def add.assoc)
  moreover have "y \<le> bottom" using ih h assms(5) by (auto split: if_splits)
  ultimately show ?case using ih p(1,2) t(2) by simp
qed simp

lemma stacked_next:
  "stacked spacing y placed bottom \<Longrightarrow> Suc i < length placed \<Longrightarrow>
   r_y (tl_logical (placed ! Suc i)) = line_bottom (placed ! i) + spacing"
proof (induction spacing y placed bottom arbitrary: i rule: stacked.induct)
  case (3 spacing y l m rest bottom)
  then show ?case
  proof (cases i)
    case 0
    then show ?thesis using 3 by (cases rest) auto
  next
    case (Suc j)
    then show ?thesis using 3 by auto
  qed
qed auto

lemma stacked_last: "stacked spacing y placed bottom \<Longrightarrow> placed \<noteq> [] \<Longrightarrow> bottom = line_bottom (last placed)"
  by (induction spacing y placed bottom rule: stacked.induct) auto

text \<open>
  C18: Measuring succeeds only within 32-bit integers and then stacks the lines: each begins one
  spacing below the previous one, the height is the bottom of the last, each has room for the primary
  font's ascent and descent and for all of its ink, so nothing is clipped and no two lines overlap; the
  shaping of a line, its bytes and its ink relative to its baseline, is unchanged.
\<close>

theorem text_measure_lines_stacked:
  assumes "text_measure_lines metrics alloc spacing lines = Some (placed, height)"
    and "metrics = Some (ascent, descent)" and "0 \<le> ascent" and "0 \<le> descent" and "0 \<le> spacing"
  shows "list_all2 same_shape lines placed \<and> list_all (line_fits ascent descent spacing) placed \<and>
    (\<forall>i. Suc i < length placed \<longrightarrow> r_y (tl_logical (placed ! Suc i)) = line_bottom (placed ! i) + spacing) \<and>
    (placed \<noteq> [] \<longrightarrow> height = line_bottom (last placed) \<and> 0 \<le> height \<and> height \<le> INT_MAX)"
proof -
  have "measure_loop ascent descent spacing 0 lines = Some (placed, height)"
    using assms(1,2) by (simp add: text_measure_lines_def split: if_splits)
  from measure_loop_stacked [OF this] assms(3-5) have
    m: "stacked spacing 0 placed height" "list_all2 same_shape lines placed" "list_all (line_fits ascent descent spacing) placed" "0 \<le> height"
    by auto
  have "height \<le> INT_MAX" if "placed \<noteq> []"
    using stacked_last [OF m(1) that] m(3) assms(5) last_in_set [OF that] by (fastforce simp: list_all_iff line_fits_def)
  then show ?thesis using m stacked_next [OF m(1)] stacked_last [OF m(1)] by blast
qed

definition sample_line :: "int \<Rightarrow> int \<Rightarrow> text_line" where
  "sample_line y ink = \<lparr>tl_start = 0, tl_length = 3, tl_ink = \<lparr>r_x = 0, r_y = y, r_w = 9, r_h = ink\<rparr>,
     tl_logical = \<lparr>r_x = 0, r_y = 0, r_w = 9, r_h = 40\<rparr>, tl_baseline = 10\<rparr>"

definition sample_lines :: "text_line list" where
  "sample_lines = [sample_line 2 9, sample_line (-5) 30]"

lemma sample_measured:
  "text_measure_lines (Some (10, 4)) True 3 sample_lines =
     Some ([place_line 0 10 4 (sample_line 2 9), place_line 17 15 15 (sample_line (-5) 30)], 47)"
  by (simp add: text_measure_lines_def sample_lines_def sample_line_def line_above_def line_below_def INT_MAX_def Let_def)

theorem text_measure_lines_stacked_witness:
  "\<exists>placed. text_measure_lines (Some (10, 4)) True 3 sample_lines = Some (placed, 47) \<and>
     list_all (line_fits 10 4 3) placed \<and> r_y (tl_logical (placed ! 1)) = line_bottom (placed ! 0) + 3"
  using text_measure_lines_stacked [OF sample_measured refl] sample_measured by (auto simp: line_bottom_def place_line_def)

section \<open>A hit finds the line under the pointer\<close>

definition bottoms_sorted :: "text_line list \<Rightarrow> bool" where
  "bottoms_sorted lines \<longleftrightarrow> (\<forall>i j. i \<le> j \<and> j < length lines \<longrightarrow> line_bottom (lines ! i) \<le> line_bottom (lines ! j))"

text \<open>The line that a linear search would find: the first whose bottom, with half the gap, is below the point.\<close>

definition line_at :: "text_line list \<Rightarrow> int \<Rightarrow> int \<Rightarrow> nat \<Rightarrow> bool" where
  "line_at lines py half k \<longleftrightarrow> k < length lines \<and> (\<forall>i < k. line_bottom (lines ! i) + half \<le> py) \<and>
     (Suc k < length lines \<longrightarrow> py < line_bottom (lines ! k) + half)"

lemma hit_loop_spec:
  "bottoms_sorted lines \<Longrightarrow> lo \<le> hi \<Longrightarrow> hi < length lines \<Longrightarrow> (\<forall>i < lo. line_bottom (lines ! i) + half \<le> py) \<Longrightarrow>
   (Suc hi < length lines \<longrightarrow> py < line_bottom (lines ! hi) + half) \<Longrightarrow> line_at lines py half (hit_loop lines py half lo hi)"
proof (induction lines py half lo hi rule: hit_loop.induct)
  case (1 lines py half lo hi)
  note unf = hit_loop.simps [of lines py half lo hi]
  show ?case
  proof (cases "lo < hi")
    case False
    then have "hit_loop lines py half lo hi = hi" using unf "1.prems"(2) by simp
    then show ?thesis using False "1.prems" by (simp add: line_at_def)
  next
    case True
    define mid where "mid = lo + (hi - lo) div 2"
    have mid: "lo \<le> mid" "mid < hi" using True by (auto simp: mid_def)
    show ?thesis
    proof (cases "py < line_bottom (lines ! mid) + half")
      case up: True
      have "line_at lines py half (hit_loop lines py half lo mid)"
        by (rule "1.IH"(1) [OF True mid_def up]) (use "1.prems" mid up in auto)
      then show ?thesis using unf True up by (simp add: mid_def [symmetric] Let_def)
    next
      case down: False
      have "line_bottom (lines ! i) + half \<le> py" if "i < Suc mid" for i
        using "1.prems"(1,3) mid that down unfolding bottoms_sorted_def
        by (meson add_le_cancel_right less_Suc_eq_le less_trans not_less order_trans)
      then have "line_at lines py half (hit_loop lines py half (Suc mid) hi)"
        by (intro "1.IH"(2) [OF True mid_def down]) (use "1.prems" mid in auto)
      then show ?thesis using unf True down by (simp add: mid_def [symmetric] Let_def)
    qed
  qed
qed

lemma line_at_unique: "line_at lines py half k \<Longrightarrow> line_at lines py half m \<Longrightarrow> k = m"
proof (rule ccontr)
  assume k: "line_at lines py half k" and m: "line_at lines py half m" and "k \<noteq> m"
  then consider "k < m" | "m < k" by linarith
  then show False using k m by cases (fastforce simp: line_at_def)+
qed

lemma stacked_sorted:
  assumes "list_all (line_fits ascent descent spacing) placed" and "0 \<le> ascent" "0 \<le> descent" "0 \<le> spacing"
    and "\<forall>i. Suc i < length placed \<longrightarrow> r_y (tl_logical (placed ! Suc i)) = line_bottom (placed ! i) + spacing"
  shows "bottoms_sorted placed"
proof -
  have "line_bottom (placed ! i) \<le> line_bottom (placed ! j)" if "i \<le> j" "j < length placed" for i j
    using that
  proof (induction j rule: nat_induct_at_least)
    case (Suc j)
    have "line_fits ascent descent spacing (placed ! Suc j)" using assms(1) Suc.prems by (simp add: list_all_length)
    then have "r_y (tl_logical (placed ! Suc j)) \<le> line_bottom (placed ! Suc j)" using assms(2,3) by (simp add: line_fits_def)
    then show ?case using Suc assms(4,5) by fastforce
  qed simp
  then show ?thesis by (simp add: bottoms_sorted_def)
qed

text \<open>
  C19: On measured lines the binary search of a hit finds the line a linear search would: the only one
  whose predecessors all end, with half the gap between lines, at or above the point, and which
  itself, unless it is the last, ends below it.
\<close>

theorem hit_loop_finds_line:
  assumes "text_measure_lines (Some (ascent, descent)) alloc spacing lines = Some (placed, height)" and "placed \<noteq> []"
    and "0 \<le> ascent" and "0 \<le> descent" and "0 \<le> spacing"
  shows "line_at placed py half k \<longleftrightarrow> k = hit_loop placed py half 0 (length placed - 1)"
proof -
  have "measure_loop ascent descent spacing 0 lines = Some (placed, height)"
    using assms(1) by (simp add: text_measure_lines_def split: if_splits)
  from measure_loop_stacked [OF this] assms(3-5) have
    m: "stacked spacing 0 placed height" "list_all (line_fits ascent descent spacing) placed" by auto
  have "bottoms_sorted placed"
    by (rule stacked_sorted [OF m(2) assms(3-5)]) (use stacked_next [OF m(1)] in blast)
  then have "line_at placed py half (hit_loop placed py half 0 (length placed - 1))"
    by (rule hit_loop_spec) (use assms(2) in auto)
  then show ?thesis using line_at_unique by blast
qed

theorem hit_loop_finds_line_witness:
  "\<exists>placed. text_measure_lines (Some (10, 4)) True 3 sample_lines = Some (placed, 47) \<and>
     hit_loop placed 20 1 0 (length placed - 1) = 1 \<and> line_at placed 20 1 1"
proof -
  let ?p = "[place_line 0 10 4 (sample_line 2 9), place_line 17 15 15 (sample_line (-5) 30)]"
  have "line_at ?p 20 1 1" by (simp add: line_at_def line_bottom_def place_line_def)
  with hit_loop_finds_line [OF sample_measured, of 20 1 1] sample_measured show ?thesis by auto
qed

section \<open>Moving the caret\<close>

lemma ulen_pos: "0 < ulen c"
  by (simp add: ulen_def)

lemma offset_simps [simp]: "offset cs 0 = 0" "offset (c # cs) (Suc i) = ulen c + offset cs i"
  by (simp_all add: offset_def)

text \<open>The byte positions of the stops, from \<open>at\<close> on.\<close>

fun stop_bytes :: "nat \<Rightarrow> bool list \<Rightarrow> nat list \<Rightarrow> nat list" where
  "stop_bytes here [] cs = []"
| "stop_bytes here (stop # stops) cs =
     (if stop then [here] else []) @ stop_bytes (case cs of [] \<Rightarrow> here | c # _ \<Rightarrow> here + ulen c) stops (tl cs)"

lemma stop_bytes_set:
  "length stops = Suc (length cs) \<Longrightarrow>
   set (stop_bytes here stops cs) = {here + offset cs i |i. i \<le> length cs \<and> stops ! i}"
proof (induction cs arbitrary: here stops)
  case Nil
  then obtain s where "stops = [s]" by (cases stops) auto
  then show ?case by auto
next
  case (Cons c cs)
  then obtain s ss where s: "stops = s # ss" "length ss = Suc (length cs)" by (cases stops) auto
  have split: "{here + offset (c # cs) i |i. i \<le> length (c # cs) \<and> (s # ss) ! i} =
      (if s then {here} else {}) \<union> {here + ulen c + offset cs i |i. i \<le> length cs \<and> ss ! i}"
  proof (intro set_eqI iffI)
    fix x assume "x \<in> {here + offset (c # cs) i |i. i \<le> length (c # cs) \<and> (s # ss) ! i}"
    then obtain i where i: "x = here + offset (c # cs) i" "i \<le> length (c # cs)" "(s # ss) ! i" by blast
    then show "x \<in> (if s then {here} else {}) \<union> {here + ulen c + offset cs i |i. i \<le> length cs \<and> ss ! i}"
      by (cases i) auto
  next
    fix x assume "x \<in> (if s then {here} else {}) \<union> {here + ulen c + offset cs i |i. i \<le> length cs \<and> ss ! i}"
    then consider "s" "x = here" | i where "x = here + ulen c + offset cs i" "i \<le> length cs" "ss ! i" by (auto split: if_splits)
    then show "x \<in> {here + offset (c # cs) i |i. i \<le> length (c # cs) \<and> (s # ss) ! i}"
    proof cases
      case 1
      then show ?thesis by (intro CollectI exI [of _ 0]) simp
    next
      case (2 i)
      then show ?thesis by (intro CollectI exI [of _ "Suc i"]) simp
    qed
  qed
  show ?case using Cons.IH [OF s(2)] split by (simp add: s(1))
qed

lemma stop_bytes_sorted: "length stops = Suc (length cs) \<Longrightarrow> sorted_wrt (<) (stop_bytes here stops cs)"
proof (induction cs arbitrary: here stops)
  case Nil
  then obtain s where "stops = [s]" by (cases stops) auto
  then show ?case by simp
next
  case (Cons c cs)
  then obtain s ss where s: "stops = s # ss" "length ss = Suc (length cs)" by (cases stops) auto
  then show ?case using Cons.IH [OF s(2)] stop_bytes_set [OF s(2)] ulen_pos [of c] by (auto simp: sorted_wrt_append)
qed

lemma boundary_forward:
  "0 < direction \<Longrightarrow> boundary_loop direction position result stops cs here prev =
     (case filter (\<lambda>a. position < a) (stop_bytes here stops cs) of [] \<Rightarrow> result | a # _ \<Rightarrow> a)"
  by (induction stops arbitrary: cs here prev) (auto split: list.splits)

lemma boundary_backward:
  "direction < 0 \<Longrightarrow> boundary_loop direction position result stops cs here prev =
     (if \<exists>a \<in> set (stop_bytes here stops cs). position \<le> a
      then last (prev # takeWhile (\<lambda>a. a < position) (stop_bytes here stops cs)) else result)"
  by (induction stops arbitrary: cs here prev) (auto split: list.splits)

lemma filter_least:
  assumes "sorted_wrt (<) xs" and "filter P xs = a # ys"
  shows "a \<in> set xs \<and> P a \<and> (\<forall>b \<in> set xs. P b \<longrightarrow> a \<le> (b :: nat))"
proof -
  have s: "sorted_wrt (<) (a # ys)" using assms sorted_wrt_filter [of "(<)" xs P] by simp
  have m: "set (a # ys) = {b \<in> set xs. P b}" using assms(2) by (metis set_filter)
  then have "a \<in> set xs \<and> P a" by auto
  moreover have "a \<le> b" if "b \<in> set xs" "P b" for b
  proof -
    have "b \<in> set (a # ys)" using m that by blast
    then show ?thesis using s by auto
  qed
  ultimately show ?thesis by blast
qed

lemma takeWhile_below:
  assumes "sorted_wrt (<) xs"
  shows "set (takeWhile (\<lambda>a. a < (p :: nat)) xs) = {a \<in> set xs. a < p}" "sorted_wrt (<) (takeWhile (\<lambda>a. a < p) xs)"
proof -
  show "set (takeWhile (\<lambda>a. a < p) xs) = {a \<in> set xs. a < p}"
    using assms by (induction xs) (auto dest: order.strict_trans)
  show "sorted_wrt (<) (takeWhile (\<lambda>a. a < p) xs)"
    using assms by (metis sorted_wrt_append takeWhile_dropWhile_id)
qed

lemma last_greatest: "sorted_wrt (<) xs \<Longrightarrow> xs \<noteq> [] \<Longrightarrow> last xs \<in> set xs \<and> (\<forall>b \<in> set xs. b \<le> (last xs :: nat))"
  by (induction xs) (auto intro: less_imp_le)

text \<open>The byte positions where the caret may stand.\<close>

definition caret_stops :: "nat list \<Rightarrow> bool list \<Rightarrow> nat set" where
  "caret_stops cs stops = {offset cs i |i. i \<le> length cs \<and> stops ! i}"

text \<open>
  C20: Moving the caret forward leads to the nearest stop after the position, or to the end of the text
  if there is none. Moving it back leads to the nearest stop before the position, or to the start if
  there is none; a position behind every stop leads to the end. Bytes that are not UTF-8 leave the
  position alone.
\<close>

theorem zc_text_boundary_nearest:
  assumes "length (log_attrs cs) = Suc (length cs)" and "S = caret_stops cs (log_attrs cs)"
    and "r = zc_text_boundary log_attrs (Some cs) position direction"
  shows "(0 < direction \<longrightarrow>
       (if \<exists>a \<in> S. position < a then r \<in> S \<and> position < r \<and> (\<forall>a \<in> S. position < a \<longrightarrow> r \<le> a)
        else r = offset cs (length cs))) \<and>
    (direction < 0 \<longrightarrow>
       (if \<exists>a \<in> S. position \<le> a
        then (if \<exists>a \<in> S. a < position then r \<in> S \<and> r < position \<and> (\<forall>a \<in> S. a < position \<longrightarrow> a \<le> r) else r = 0)
        else r = offset cs (length cs))) \<and>
    zc_text_boundary log_attrs None position direction = position"
proof -
  let ?xs = "stop_bytes 0 (log_attrs cs) cs"
  have S: "set ?xs = S" using stop_bytes_set [OF assms(1), of 0] assms(2) by (simp add: caret_stops_def)
  note sorted = stop_bytes_sorted [OF assms(1), of 0]
  have r: "r = boundary_loop direction position (offset cs (length cs)) (log_attrs cs) cs 0 0"
    using assms(3) by (simp add: zc_text_boundary_def)
  have fwd: "if \<exists>a \<in> S. position < a then r \<in> S \<and> position < r \<and> (\<forall>a \<in> S. position < a \<longrightarrow> r \<le> a)
      else r = offset cs (length cs)" if "0 < direction"
  proof (cases "filter (\<lambda>a. position < a) ?xs")
    case Nil
    then have "\<not> (\<exists>a \<in> S. position < a)" using S by (auto simp: filter_empty_conv)
    then show ?thesis using Nil r boundary_forward [OF that] by simp
  next
    case (Cons a ys)
    from filter_least [OF sorted Cons] S have "a \<in> S \<and> position < a \<and> (\<forall>b \<in> S. position < b \<longrightarrow> a \<le> b)" by auto
    moreover have "r = a" using Cons r boundary_forward [OF that] by simp
    ultimately show ?thesis by auto
  qed
  have bwd: "if \<exists>a \<in> S. position \<le> a
      then (if \<exists>a \<in> S. a < position then r \<in> S \<and> r < position \<and> (\<forall>a \<in> S. a < position \<longrightarrow> a \<le> r) else r = 0)
      else r = offset cs (length cs)" if "direction < 0"
  proof -
    let ?t = "takeWhile (\<lambda>a. a < position) ?xs"
    note t = takeWhile_below [OF sorted, of position]
    have "r = (if \<exists>a \<in> S. position \<le> a then last (0 # ?t) else offset cs (length cs))"
      using r boundary_backward [OF that] S by simp
    moreover have "last (0 # ?t) = (if ?t = [] then 0 else last ?t)" by simp
    moreover have e: "?t = [] \<longleftrightarrow> \<not> (\<exists>a \<in> S. a < position)" using t(1) S by (metis (mono_tags, lifting) empty_Collect_eq set_empty)
    moreover have "last ?t \<in> S \<and> last ?t < position \<and> (\<forall>a \<in> S. a < position \<longrightarrow> a \<le> last ?t)" if "?t \<noteq> []"
    proof -
      note g = last_greatest [OF t(2) that]
      have "last ?t \<in> {a \<in> S. a < position}" using g unfolding t(1) S by blast
      moreover have "\<forall>a \<in> {a \<in> S. a < position}. a \<le> last ?t" using g unfolding t(1) S by blast
      ultimately show ?thesis by blast
    qed
    ultimately show ?thesis by presburger
  qed
  show ?thesis using fwd bwd by (simp add: zc_text_boundary_def)
qed

text \<open>An accented letter written as two code points is passed in one move.\<close>

theorem zc_text_boundary_nearest_witness:
  "zc_text_boundary (\<lambda>_. [True, True, False, True]) (Some [97, 101, 0x301]) 1 1 = 4 \<and>
   zc_text_boundary (\<lambda>_. [True, True, False, True]) (Some [97, 101, 0x301]) 4 (-1) = 1 \<and>
   4 \<in> caret_stops [97, 101, 0x301] [True, True, False, True]"
proof -
  have r: "zc_text_boundary (\<lambda>_. [True, True, False, True]) (Some [97, 101, 0x301]) 1 1 = 4"
    "zc_text_boundary (\<lambda>_. [True, True, False, True]) (Some [97, 101, 0x301]) 4 (-1) = 1"
    by (simp_all add: zc_text_boundary_def ulen_def offset_def)
  have "4 \<in> caret_stops [97, 101, 0x301] [True, True, False, True]"
    unfolding caret_stops_def by (intro CollectI exI [of _ 3]) (simp add: offset_def ulen_def numeral_3_eq_3)
  with zc_text_boundary_nearest [where log_attrs = "\<lambda>_. [True, True, False, True]" and cs = "[97, 101, 0x301]", OF _ refl refl, of 1 1] r
  show ?thesis by simp
qed

section \<open>A word is a maximal run of clusters\<close>

lemma cluster_start_stop:
  "stops ! 0 \<Longrightarrow> stops ! cluster_start stops left \<and> (\<forall>i. cluster_start stops left < i \<and> i \<le> left \<longrightarrow> \<not> stops ! i)"
proof (induction stops left rule: cluster_start.induct)
  case (2 stops left)
  then show ?case by (auto simp: le_Suc_eq)
qed auto

lemma cluster_end_stop:
  "stops ! n \<Longrightarrow> right < n \<Longrightarrow> cluster_end stops n right \<le> n \<and> stops ! cluster_end stops n right \<and>
   (\<forall>i. right < i \<and> i < cluster_end stops n right \<longrightarrow> \<not> stops ! i)"
proof (induction stops n right rule: cluster_end.induct)
  case (1 stops n right)
  note unf = cluster_end.simps [of stops n right]
  show ?case
  proof (cases "Suc right < n \<and> \<not> stops ! Suc right")
    case True
    have "\<not> stops ! i" if "right < i" "i < cluster_end stops n (Suc right)" for i
      using "1.IH" [OF True] "1.prems" True that by (cases "i = Suc right") auto
    then show ?thesis using "1.IH" [OF True] "1.prems" True unf by auto
  next
    case False
    then have "cluster_end stops n right = Suc right" using unf by auto
    moreover have "stops ! Suc right" using False "1.prems" by (cases "Suc right = n") auto
    ultimately show ?thesis using "1.prems"(2) by auto
  qed
qed

lemma extend_left_run:
  "stops ! 0 \<Longrightarrow> stops ! left \<Longrightarrow> (let l = extend_left u cs stops kind left in l \<le> left \<and> stops ! l \<and>
     (\<forall>i. l \<le> i \<and> i < left \<and> stops ! i \<longrightarrow> selection_class u cs i = kind) \<and>
     (l = 0 \<or> selection_class u cs (cluster_start stops (l - 1)) \<noteq> kind))"
proof (induction u cs stops kind left rule: extend_left.induct)
  case (1 u cs stops kind left)
  define here where "here = cluster_start stops (left - 1)"
  note unf = extend_left.simps [of u cs stops kind left]
  show ?case
  proof (cases "0 < left \<and> selection_class u cs here = kind")
    case False
    then have "extend_left u cs stops kind left = left" using unf by (auto simp: here_def Let_def)
    then show ?thesis using False "1.prems" by (auto simp: here_def)
  next
    case True
    have s: "stops ! here" "\<And>i. here < i \<Longrightarrow> i \<le> left - 1 \<Longrightarrow> \<not> stops ! i"
      using cluster_start_stop [OF "1.prems"(1), of "left - 1"] by (auto simp: here_def)
    have lt: "here < left" using cluster_start_le [of stops "left - 1"] True by (auto simp: here_def)
    define l where "l = extend_left u cs stops kind here"
    have eq: "extend_left u cs stops kind left = l" using unf True by (auto simp: here_def Let_def l_def)
    have ih: "l \<le> here" "stops ! l" "\<forall>i. l \<le> i \<and> i < here \<and> stops ! i \<longrightarrow> selection_class u cs i = kind"
      "l = 0 \<or> selection_class u cs (cluster_start stops (l - 1)) \<noteq> kind"
      using "1.IH" [OF _ here_def] True "1.prems"(1) s(1) by (auto simp: l_def Let_def)
    have "selection_class u cs i = kind" if "l \<le> i" "i < left" "stops ! i" for i
    proof -
      have "i \<le> left - 1" using that(2) by linarith
      then have "i \<le> here" using s(2) [of i] that(3) by (cases "here < i") auto
      then show ?thesis using ih(3) True that by (cases "i = here") auto
    qed
    then show ?thesis unfolding eq Let_def using ih lt by auto
  qed
qed

lemma extend_right_run:
  "stops ! length cs \<Longrightarrow> right \<le> length cs \<Longrightarrow> stops ! right \<Longrightarrow>
   (let r = extend_right u cs stops kind right in right \<le> r \<and> r \<le> length cs \<and> stops ! r \<and>
     (\<forall>i. right \<le> i \<and> i < r \<and> stops ! i \<longrightarrow> selection_class u cs i = kind) \<and>
     (r = length cs \<or> selection_class u cs r \<noteq> kind))"
proof (induction u cs stops kind right rule: extend_right.induct)
  case (1 u cs stops kind right)
  note unf = extend_right.simps [of u cs stops kind right]
  show ?case
  proof (cases "right < length cs \<and> selection_class u cs right = kind")
    case False
    then have "extend_right u cs stops kind right = right" using unf by auto
    then show ?thesis using False "1.prems" by auto
  next
    case True
    define e where "e = cluster_end stops (length cs) right"
    have e: "e \<le> length cs" "stops ! e" "right < e" "\<And>i. right < i \<Longrightarrow> i < e \<Longrightarrow> \<not> stops ! i"
      using cluster_end_stop [OF "1.prems"(1)] True cluster_end_gt [of right stops "length cs"] by (auto simp: e_def)
    define r where "r = extend_right u cs stops kind e"
    have eq: "extend_right u cs stops kind right = r" using unf True by (simp add: r_def e_def)
    have ih: "e \<le> r" "r \<le> length cs" "stops ! r" "\<forall>i. e \<le> i \<and> i < r \<and> stops ! i \<longrightarrow> selection_class u cs i = kind"
      "r = length cs \<or> selection_class u cs r \<noteq> kind"
      using "1.IH" [OF True] "1.prems"(1) e(1,2) by (auto simp: r_def e_def Let_def)
    have "selection_class u cs i = kind" if "right \<le> i" "i < r" "stops ! i" for i
    proof -
      consider "i = right" | "right < i" "i < e" | "e \<le> i" using \<open>right \<le> i\<close> by linarith
      then show ?thesis using ih(4) True e(4) [of i] that by cases auto
    qed
    then show ?thesis unfolding eq Let_def using ih e(3) by auto
  qed
qed

text \<open>
  C17: A double click selects whole clusters around the one that was hit. The ends of the selection
  are caret stops, and the hit lies between them. On a word or on blanks the selection is the longest
  run of clusters of that class; on anything else, such as an emoji or a bracket, it is the one cluster.
\<close>

theorem word_range_maximal:
  assumes "cs \<noteq> []" and "hit \<le> length cs" and "stops ! 0" and "stops ! length cs"
    and "word_range u cs stops hit = (left, right)" and "h = (if hit < length cs then hit else hit - 1)"
    and "kind = selection_class u cs (cluster_start stops h)"
  shows "left \<le> h \<and> h < right \<and> right \<le> length cs \<and> stops ! left \<and> stops ! right \<and>
    (if kind = 0 then \<forall>i. left < i \<and> i < right \<longrightarrow> \<not> stops ! i
     else (\<forall>i. left \<le> i \<and> i < right \<and> stops ! i \<longrightarrow> selection_class u cs i = kind) \<and>
       (left = 0 \<or> selection_class u cs (cluster_start stops (left - 1)) \<noteq> kind) \<and>
       (right = length cs \<or> selection_class u cs right \<noteq> kind))"
proof -
  define l where "l = cluster_start stops h"
  define r where "r = cluster_end stops (length cs) l"
  have h: "h < length cs" using assms(1,2,6) by (cases "hit < length cs") auto
  have l: "l \<le> h" "stops ! l" "\<And>i. l < i \<Longrightarrow> i \<le> h \<Longrightarrow> \<not> stops ! i"
    using cluster_start_le [of stops h] cluster_start_stop [OF assms(3), of h] by (auto simp: l_def)
  have r: "r \<le> length cs" "stops ! r" "l < r" "\<And>i. l < i \<Longrightarrow> i < r \<Longrightarrow> \<not> stops ! i"
    using cluster_end_stop [OF assms(4), of l] cluster_end_gt [of l stops "length cs"] l(1) h by (auto simp: r_def)
  have hr: "h < r" using l(3) [of r] r(2,3) by (meson not_less)
  have w: "(left, right) = (if kind \<noteq> 0 then (extend_left u cs stops kind l, extend_right u cs stops kind r) else (l, r))"
    using assms(5) unfolding word_range_def Let_def assms(6) [symmetric] l_def [symmetric] r_def [symmetric]
      assms(7) [unfolded l_def [symmetric], symmetric] if_not_P [OF assms(1)] by (rule sym)
  show ?thesis
  proof (cases "kind = 0")
    case True
    then show ?thesis using w l r hr by auto
  next
    case False
    then have e: "left = extend_left u cs stops kind l" "right = extend_right u cs stops kind r" using w by auto
    have el: "left \<le> l" "stops ! left" "\<forall>i. left \<le> i \<and> i < l \<and> stops ! i \<longrightarrow> selection_class u cs i = kind"
      "left = 0 \<or> selection_class u cs (cluster_start stops (left - 1)) \<noteq> kind"
      using extend_left_run [OF assms(3) l(2), of u cs kind] by (auto simp: e Let_def)
    have er: "r \<le> right" "right \<le> length cs" "stops ! right"
      "\<forall>i. r \<le> i \<and> i < right \<and> stops ! i \<longrightarrow> selection_class u cs i = kind"
      "right = length cs \<or> selection_class u cs right \<noteq> kind"
      using extend_right_run [OF assms(4) r(1,2), of u kind] by (auto simp: e Let_def)
    have "selection_class u cs i = kind" if "left \<le> i" "i < right" "stops ! i" for i
    proof -
      have kl: "selection_class u cs l = kind" using assms(7) by (simp add: l_def)
      consider "i < l" | "i = l" | "l < i" "i < r" | "r \<le> i" by linarith
      then show ?thesis
        by cases (use el(3) that in blast, use kl in blast, use r(4) that in blast, use er(4) that in blast)
    qed
    then show ?thesis using False el er l(1) hr by auto
  qed
qed

text \<open>The word of \<open>it's!\<close> with its apostrophe, whatever letter is hit; its last mark stands alone.\<close>

definition sample_unicode :: unicode where
  "sample_unicode = \<lparr>u_alnum = (\<lambda>c. 97 \<le> c \<and> c \<le> 122), u_mark = (\<lambda>c. False), u_space = (\<lambda>c. c = 32)\<rparr>"

theorem word_range_maximal_witness:
  "word_range sample_unicode [105, 116, 39, 115, 33] [True, True, True, True, True, True] 1 = (0, 4) \<and>
   word_range sample_unicode [105, 116, 39, 115, 33] [True, True, True, True, True, True] 5 = (4, 5) \<and>
   selection_class sample_unicode [105, 116, 39, 115, 33] 4 \<noteq> 1"
proof -
  let ?cs = "[105, 116, 39, 115, 33]" and ?s = "[True, True, True, True, True, True]"
  have cls: "selection_class sample_unicode ?cs 0 = 1" "selection_class sample_unicode ?cs 1 = 1"
    "selection_class sample_unicode ?cs 2 = 1" "selection_class sample_unicode ?cs 3 = 1" "selection_class sample_unicode ?cs 4 = 0"
    by (simp_all add: selection_class_def word_character_def joiner_def sample_unicode_def line_break_def Let_def)
  note next_stop = cluster_end.simps [of ?s "length ?cs"]
  have ends: "cluster_end ?s (length ?cs) 1 = 2" "cluster_end ?s (length ?cs) 2 = 3" "cluster_end ?s (length ?cs) 3 = 4"
    "cluster_end ?s (length ?cs) 4 = 5"
    using next_stop [of 1] next_stop [of 2] next_stop [of 3] next_stop [of 4] by simp_all
  have starts: "cluster_start ?s 0 = 0" "cluster_start ?s 1 = 1" "cluster_start ?s 4 = 4" by (simp_all add: eval_nat_numeral)
  have ext: "extend_left sample_unicode ?cs ?s 1 0 = 0" "extend_left sample_unicode ?cs ?s 1 1 = 0"
    "extend_right sample_unicode ?cs ?s 1 4 = 4" "extend_right sample_unicode ?cs ?s 1 3 = 4"
    "extend_right sample_unicode ?cs ?s 1 2 = 4"
    subgoal 1 by (subst extend_left.simps) simp
    subgoal 2 using 1 starts(1) cls(1) by (subst extend_left.simps) (simp add: Let_def)
    subgoal 3 using cls(5) by (subst extend_right.simps) simp
    subgoal 4 using 3 ends(3) cls(4) extend_right.simps [of sample_unicode ?cs ?s 1 3] by simp
    subgoal 5 using 4 ends(2) cls(3) extend_right.simps [of sample_unicode ?cs ?s 1 2] by simp
    done
  have w: "word_range sample_unicode ?cs ?s 1 = (0, 4)" "word_range sample_unicode ?cs ?s 5 = (4, 5)"
    using ends starts ext cls by (simp_all add: word_range_def Let_def)
  show ?thesis using word_range_maximal [OF _ _ _ _ w(1) refl refl] w cls by simp
qed

section \<open>Rasterizing a tile\<close>

text \<open>
  \<open>zc_text_pixels_with_selection\<close>. \<open>px\<close> is the floating point expression that takes Pango units to
  device pixels. Drawing is the list of operations that cairo is given; colours stay packed.
\<close>

datatype fill = Rgba "32 word" | Highlight

datatype draw = Backdrop "32 word" | Selected fill "rect list" | Glyphs "32 word" nat

definition box_top :: "text_line \<Rightarrow> int" where
  "box_top l = min (r_y (tl_ink l)) (r_y (tl_logical l))"

definition box_bottom :: "text_line \<Rightarrow> int" where
  "box_bottom l = max (r_y (tl_ink l) + r_h (tl_ink l)) (r_y (tl_logical l) + r_h (tl_logical l))"

definition raster_step :: "(int \<Rightarrow> rat) \<Rightarrow> int \<Rightarrow> int \<Rightarrow> text_line \<Rightarrow> int \<times> int \<Rightarrow> int \<times> int" where
  "raster_step px y rows l = (\<lambda>(raster_top, raster_bottom).
     let first = \<lfloor>px (box_top l)\<rfloor> - 2; last = \<lceil>px (box_bottom l)\<rceil> + 2
     in if last < y \<or> first > y + rows then (raster_top, raster_bottom)
        else (min raster_top first, max raster_bottom last))"

definition raster_range :: "(int \<Rightarrow> rat) \<Rightarrow> int \<Rightarrow> int \<Rightarrow> text_line list \<Rightarrow> int \<times> int" where
  "raster_range px y rows lines = fold (raster_step px y rows) lines (y, y + rows)"

definition off_tile :: "(int \<Rightarrow> rat) \<Rightarrow> int \<Rightarrow> int \<Rightarrow> text_line \<Rightarrow> bool" where
  "off_tile px y rows l \<longleftrightarrow> px (box_bottom l) + 2 < of_int y \<or> px (box_top l) - 2 > of_int (y + rows)"

text \<open>The operations for line \<open>i\<close>: its part of the selection, up to the start of the next line, then its glyphs.\<close>

definition draw_line ::
  "(nat \<Rightarrow> int \<Rightarrow> int \<Rightarrow> (int \<times> int) list) \<Rightarrow> 32 word \<Rightarrow> 32 word \<Rightarrow> int \<Rightarrow> int \<Rightarrow> text_line list \<Rightarrow> nat \<Rightarrow> draw list" where
  "draw_line x_ranges color selection start end_of lines i =
     (let l = lines ! i;
          line_end = (if Suc i < length lines then tl_start (lines ! Suc i) else tl_start l + tl_length l)
      in (if start < end_of \<and> start < line_end \<and> end_of > tl_start l
          then [Selected (if selection \<noteq> 0 then Rgba selection else Highlight)
             (map (\<lambda>(a, b). \<lparr>r_x = a, r_y = r_y (tl_logical l), r_w = b - a, r_h = r_h (tl_logical l)\<rparr>) (x_ranges i start end_of))]
          else []) @ [Glyphs color i])"

record laid_out =
  lo_width :: int
  lo_height :: int
  lo_subpixel :: bool
  lo_lines :: "text_line list"

text \<open>The raster: the row of the document at its top, its rows, the row of the tile in it, and the drawing.\<close>

record raster =
  ra_top :: int
  ra_rows :: int
  ra_tile :: int
  ra_drawn :: "draw list"

definition opaque :: "32 word \<Rightarrow> bool" where
  "opaque background \<longleftrightarrow> unat background mod 256 = 255"

definition draw_all ::
  "(int \<Rightarrow> rat) \<Rightarrow> (nat \<Rightarrow> int \<Rightarrow> int \<Rightarrow> (int \<times> int) list) \<Rightarrow> 32 word \<Rightarrow> 32 word \<Rightarrow> 32 word \<Rightarrow> int \<Rightarrow> int \<Rightarrow>
   text_line list \<Rightarrow> int \<Rightarrow> int \<Rightarrow> draw list" where
  "draw_all px x_ranges color background selection start end_of lines y rows =
     (if opaque background then [Backdrop background] else []) @
     concat (map (draw_line x_ranges color selection start end_of lines)
       (filter (\<lambda>i. \<not> off_tile px y rows (lines ! i)) [0..<length lines]))"

text \<open>\<open>created\<close> and \<open>drawn\<close>: cairo's status after creating the surface and after drawing.\<close>

definition zc_text_pixels_with_selection ::
  "(int \<Rightarrow> rat) \<Rightarrow> (nat \<Rightarrow> int \<Rightarrow> int \<Rightarrow> (int \<times> int) list) \<Rightarrow> bool \<Rightarrow> bool \<Rightarrow> laid_out \<Rightarrow> 32 word \<Rightarrow> int \<Rightarrow> int \<Rightarrow>
   int \<Rightarrow> int \<Rightarrow> 32 word \<Rightarrow> 32 word \<Rightarrow> raster option" where
  "zc_text_pixels_with_selection px x_ranges created drawn t color start end_of y rows background selection =
     (if y < 0 \<or> y \<ge> lo_height t \<or> rows < 1 \<or> rows > 2048 \<or> rows > lo_height t - y \<or>
         lo_width t * rows > 8 * 1024 * 1024 \<or> (lo_subpixel t \<and> \<not> opaque background) then None
      else case raster_range px y rows (lo_lines t) of (raster_top, raster_bottom) \<Rightarrow>
        if lo_width t * (raster_bottom - raster_top) > 8 * 1024 * 1024 then None
        else if \<not> created then None
        else if \<not> drawn then None
        else Some \<lparr>ra_top = raster_top, ra_rows = raster_bottom - raster_top, ra_tile = y - raster_top,
          ra_drawn = draw_all px x_ranges color background selection start end_of (lo_lines t) y rows\<rparr>)"

subsection \<open>The tile lies in the raster with the lines it shows\<close>

lemma raster_fold:
  assumes "fold (raster_step px y rows) lines (a, b) = (a', b')"
  shows "a' \<le> a \<and> b \<le> b' \<and> (\<forall>l \<in> set lines. \<not> off_tile px y rows l \<longrightarrow>
    of_int a' \<le> px (box_top l) - 2 \<and> px (box_bottom l) + 2 \<le> of_int b')"
  using assms
proof (induction lines arbitrary: a b)
  case (Cons l lines)
  obtain c d where s: "raster_step px y rows l (a, b) = (c, d)" by fastforce
  have ih: "a' \<le> c" "d \<le> b'" "\<forall>l \<in> set lines. \<not> off_tile px y rows l \<longrightarrow>
      of_int a' \<le> px (box_top l) - 2 \<and> px (box_bottom l) + 2 \<le> of_int b'"
    using Cons.IH [of c d] Cons.prems s by auto
  have cd: "c \<le> a" "b \<le> d" using s by (auto simp: raster_step_def Let_def split: if_splits)
  have "of_int a' \<le> px (box_top l) - 2 \<and> px (box_bottom l) + 2 \<le> of_int b'" if "\<not> off_tile px y rows l"
  proof -
    have e: "of_int \<lfloor>px (box_top l)\<rfloor> \<le> px (box_top l)" "px (box_bottom l) \<le> of_int \<lceil>px (box_bottom l)\<rceil>" by simp_all
    have "\<not> (\<lceil>px (box_bottom l)\<rceil> + 2 < y)" "\<not> (\<lfloor>px (box_top l)\<rfloor> - 2 > y + rows)"
      using that by (auto simp: off_tile_def less_floor_iff) linarith+
    then have "c \<le> \<lfloor>px (box_top l)\<rfloor> - 2" "\<lceil>px (box_bottom l)\<rceil> + 2 \<le> d"
      using s by (auto simp: raster_step_def Let_def)
    then have "of_int a' \<le> (of_int (\<lfloor>px (box_top l)\<rfloor> - 2) :: rat)" "of_int (\<lceil>px (box_bottom l)\<rceil> + 2) \<le> (of_int b' :: rat)"
      using ih(1,2) by (simp_all only: of_int_le_iff)
    then show ?thesis using e unfolding of_int_diff of_int_add of_int_numeral by linarith
  qed
  then show ?case using ih cd by auto
qed simp

text \<open>
  C16: A tile is rasterized whole and within bounds. When pixels are returned, the tile's rows lie in
  the raster, so that the returned pointer may be read for all of them; the raster holds at most eight
  million pixels; every line whose glyphs are drawn lies in the raster with two rows of margin on
  either side, so that no glyph is clipped by a tile's edge; and a line that is not drawn does not
  reach the tile. Text with subpixel colours is only drawn on an opaque backdrop, painted first.
\<close>

theorem text_tile_unclipped:
  assumes "zc_text_pixels_with_selection px x_ranges created drawn t color start end_of y rows background selection = Some r"
  shows "ra_top r \<le> y \<and> 0 \<le> ra_tile r \<and> ra_tile r + rows \<le> ra_rows r \<and> ra_top r + ra_tile r = y \<and>
    lo_width t * ra_rows r \<le> 8388608 \<and> rows \<le> 2048 \<and>
    (\<forall>i. i < length (lo_lines t) \<longrightarrow>
      (let l = lo_lines t ! i in
       if Glyphs color i \<in> set (ra_drawn r)
       then of_int (ra_top r) \<le> px (box_top l) - 2 \<and> px (box_bottom l) + 2 \<le> of_int (ra_top r + ra_rows r)
       else px (box_bottom l) < of_int y \<or> px (box_top l) > of_int (y + rows))) \<and>
    (lo_subpixel t \<longrightarrow> hd (ra_drawn r) = Backdrop background)"
proof -
  obtain a b where ab: "raster_range px y rows (lo_lines t) = (a, b)" by fastforce
  have r: "r = \<lparr>ra_top = a, ra_rows = b - a, ra_tile = y - a,
      ra_drawn = draw_all px x_ranges color background selection start end_of (lo_lines t) y rows\<rparr>"
    and g: "lo_width t * (b - a) \<le> 8388608" "rows \<le> 2048" "lo_subpixel t \<Longrightarrow> opaque background"
    using assms ab by (auto simp: zc_text_pixels_with_selection_def split: if_splits)
  note f = raster_fold [OF ab [unfolded raster_range_def]]
  have glyphs: "Glyphs color i \<in> set (ra_drawn r) \<longleftrightarrow> \<not> off_tile px y rows (lo_lines t ! i)" if "i < length (lo_lines t)" for i
    using that by (auto simp: r draw_all_def draw_line_def Let_def)
  have shown: "if Glyphs color i \<in> set (ra_drawn r)
       then of_int (ra_top r) \<le> px (box_top l) - 2 \<and> px (box_bottom l) + 2 \<le> of_int (ra_top r + ra_rows r)
       else px (box_bottom l) < of_int y \<or> px (box_top l) > of_int (y + rows)"
    if "i < length (lo_lines t)" "l = lo_lines t ! i" for i l
  proof (cases "off_tile px y rows l")
    case True
    then have "px (box_bottom l) < of_int y \<or> px (box_top l) > of_int (y + rows)"
      unfolding off_tile_def by (elim disjE) linarith+
    then show ?thesis using glyphs [OF that(1)] True that(2) by simp
  next
    case False
    then show ?thesis using glyphs [OF that(1)] f that by (auto simp: r)
  qed
  have tile: "ra_top r \<le> y" "0 \<le> ra_tile r" "ra_tile r + rows \<le> ra_rows r" "ra_top r + ra_tile r = y"
    "lo_width t * ra_rows r \<le> 8388608"
    using f g(1) by (simp_all add: r)
  have "lo_subpixel t \<longrightarrow> hd (ra_drawn r) = Backdrop background" using g(3) by (simp add: r draw_all_def)
  with tile g(2) shown show ?thesis unfolding Let_def by blast
qed

text \<open>Two lines at scale one: the tile of the first rows draws the first line alone, and whole.\<close>

definition sample_layout :: laid_out where
  "sample_layout = \<lparr>lo_width = 100, lo_height = 60, lo_subpixel = True, lo_lines =
     [\<lparr>tl_start = 0, tl_length = 3, tl_ink = \<lparr>r_x = 0, r_y = 2048, r_w = 9, r_h = 14336\<rparr>,
        tl_logical = \<lparr>r_x = 0, r_y = 0, r_w = 9, r_h = 20480\<rparr>, tl_baseline = 15360\<rparr>,
      \<lparr>tl_start = 4, tl_length = 3, tl_ink = \<lparr>r_x = 0, r_y = 25600, r_w = 9, r_h = 14336\<rparr>,
        tl_logical = \<lparr>r_x = 0, r_y = 23552, r_w = 9, r_h = 20480\<rparr>, tl_baseline = 38912\<rparr>]\<rparr>"

theorem text_tile_unclipped_witness:
  "zc_text_pixels_with_selection (\<lambda>v. of_int v / 1024) (\<lambda>_ _ _. []) True True sample_layout 0 0 0 0 8 0xFF 0 =
     Some \<lparr>ra_top = -2, ra_rows = 24, ra_tile = 2, ra_drawn = [Backdrop 0xFF, Glyphs 0 0]\<rparr> \<and> (2 + 8 :: int) \<le> 24"
proof -
  have e: "zc_text_pixels_with_selection (\<lambda>v. of_int v / 1024) (\<lambda>_ _ _. []) True True sample_layout 0 0 0 0 8 0xFF 0 =
     Some \<lparr>ra_top = -2, ra_rows = 24, ra_tile = 2, ra_drawn = [Backdrop 0xFF, Glyphs 0 0]\<rparr>"
    by (simp add: zc_text_pixels_with_selection_def sample_layout_def raster_range_def raster_step_def box_top_def
        box_bottom_def opaque_def draw_all_def draw_line_def off_tile_def upt_conv_Cons)
  show ?thesis using text_tile_unclipped [OF e] e by simp
qed

section \<open>The centre of the ink\<close>

text \<open>
  The loop of \<open>zc_text_ink_center_y\<close>: the highest and lowest row of ink in Pango units, \<open>None\<close> without
  ink. The caller halves the span in floating point; twice the centre is exact.
\<close>

fun ink_loop :: "int \<Rightarrow> int \<Rightarrow> text_line list \<Rightarrow> int \<times> int" where
  "ink_loop high low [] = (high, low)"
| "ink_loop high low (l # lines) =
     (if r_h (tl_ink l) = 0 then ink_loop high low lines
      else ink_loop (min high (r_y (tl_ink l))) (max low (r_y (tl_ink l) + r_h (tl_ink l))) lines)"

definition ink_center_y :: "text_line list \<Rightarrow> rat" where
  "ink_center_y lines = (case ink_loop INT_MAX 0 lines of (high, low) \<Rightarrow>
     if high = INT_MAX then 0 else (of_int high + of_int (low - high) / 2) / 1024)"

section \<open>Instants\<close>

text \<open>
  \<open>zc_timestamp_ms\<close>: \<open>iso8601\<close> is GLib's parser, which gives the seconds since the epoch and the
  microseconds within the second.
\<close>

definition zc_timestamp_ms :: "(nat list \<Rightarrow> (int \<times> int) option) \<Rightarrow> nat list \<Rightarrow> int option" where
  "zc_timestamp_ms iso8601 timestamp =
     (if timestamp = [] \<or> length timestamp \<ge> 64 \<or> 0 \<in> set timestamp then None
      else case iso8601 timestamp of None \<Rightarrow> None | Some (unix, micro) \<Rightarrow> Some (unix * 1000 + micro div 1000))"

lemma zc_timestamp_ms_order:
  assumes "zc_timestamp_ms iso8601 a = Some x" and "zc_timestamp_ms iso8601 b = Some y"
    and "iso8601 a = Some (s, m)" and "iso8601 b = Some (s', m')"
    and "s * 1000000 + m \<le> s' * 1000000 + m'"
  shows "x \<le> y"
proof -
  have split: "(s * 1000000 + m) div 1000 = s * 1000 + m div 1000" for s m :: int
    using div_mult_self1 [of 1000 m "s * 1000"] by (simp add: add.commute)
  have "(s * 1000000 + m) div 1000 \<le> (s' * 1000000 + m') div 1000" by (rule zdiv_mono1) (use assms(5) in simp_all)
  then have "s * 1000 + m div 1000 \<le> s' * 1000 + m' div 1000" unfolding split .
  moreover have "x = s * 1000 + m div 1000" using assms(1,3) by (simp add: zc_timestamp_ms_def split: if_splits)
  moreover have "y = s' * 1000 + m' div 1000" using assms(2,4) by (simp add: zc_timestamp_ms_def split: if_splits)
  ultimately show ?thesis by simp
qed

section \<open>A new text\<close>

text \<open>
  A Pango context keeps the font map, scale and antialiasing it was made with. \<open>text_setup\<close> is the cache
  of a thread: at most one context for each kind of antialiasing, with the scale and the serial of the
  font map when it was made. The LCD filter that is installed once per font map is not modelled.
\<close>

record pango_context =
  pc_map :: nat
  pc_scale :: rat
  pc_subpixel :: bool

record setup_slot =
  su_context :: pango_context
  su_scale :: rat
  su_serial :: nat

type_synonym text_setup = "setup_slot option \<times> setup_slot option"

definition setup_get :: "bool \<Rightarrow> text_setup \<Rightarrow> setup_slot option" where
  "setup_get subpixel c = (if subpixel then snd c else fst c)"

definition setup_put :: "bool \<Rightarrow> setup_slot \<Rightarrow> text_setup \<Rightarrow> text_setup" where
  "setup_put subpixel s c = (if subpixel then (fst c, Some s) else (Some s, snd c))"

text \<open>
  \<open>fonts\<close>: the default font map and its serial; \<open>alloc\<close>: whether \<open>calloc\<close> of a new cache succeeds;
  \<open>made\<close>: whether Pango makes a context. The result is the context of the new layout.
\<close>

definition text_layout ::
  "nat \<times> nat \<Rightarrow> bool \<Rightarrow> bool \<Rightarrow> rat \<Rightarrow> bool \<Rightarrow> text_setup option \<Rightarrow> pango_context option \<times> text_setup option" where
  "text_layout fonts alloc made scale subpixel cache =
     (if cache = None \<and> \<not> alloc then (None, None)
      else let c = (case cache of None \<Rightarrow> (None, None) | Some c \<Rightarrow> c);
               stale = (case setup_get subpixel c of None \<Rightarrow> True
                 | Some s \<Rightarrow> su_scale s \<noteq> scale \<or> su_serial s \<noteq> snd fonts \<or> pc_map (su_context s) \<noteq> fst fonts)
           in if stale \<and> \<not> made then (None, Some c)
              else let c = (if stale
                     then setup_put subpixel \<lparr>su_context = \<lparr>pc_map = fst fonts, pc_scale = scale, pc_subpixel = subpixel\<rparr>,
                            su_scale = scale, su_serial = snd fonts\<rparr> c
                     else c)
                   in (map_option su_context (setup_get subpixel c), Some c))"

text \<open>
  What a caller asks for; a size or scale that is not finite is \<open>None\<close>, the text is \<open>None\<close> for NULL and
  \<open>Some None\<close> if it is not UTF-8.
\<close>

record text_request =
  rq_text :: "nat list option option"
  rq_length :: int
  rq_size :: "rat option"
  rq_width :: int
  rq_scale :: "rat option"
  rq_single_line :: bool
  rq_subpixel :: bool
  rq_weight :: int

text \<open>
  The libraries: GLib's classes, the font map, the metrics of the font, the lines Pango lays out and
  the right edge of their extents, and the four floating point products of the code.
\<close>

record text_engine =
  te_mark :: "nat \<Rightarrow> bool"
  te_space :: "nat \<Rightarrow> bool"
  te_fonts :: "nat \<times> nat"
  te_made :: bool
  te_metrics :: "pango_context \<Rightarrow> text_request \<Rightarrow> (int \<times> int) option"
  te_lines :: "pango_context \<Rightarrow> text_request \<Rightarrow> bool \<Rightarrow> nat list \<Rightarrow> text_line list"
  te_right :: "pango_context \<Rightarrow> text_request \<Rightarrow> bool \<Rightarrow> nat list \<Rightarrow> int"
  te_span :: "int \<Rightarrow> rat \<Rightarrow> rat"
  te_columns :: "int \<Rightarrow> rat \<Rightarrow> rat"
  te_pixel_width :: "int \<Rightarrow> rat \<Rightarrow> rat"
  te_pixel_height :: "int \<Rightarrow> rat \<Rightarrow> rat"

text \<open>The guards of \<open>zc_text_new_weighted\<close>, with the size and the scale if they are met.\<close>

definition text_request_ok :: "text_engine \<Rightarrow> text_request \<Rightarrow> (rat \<times> rat) option" where
  "text_request_ok e rq = (case (rq_size rq, rq_scale rq) of
     (Some points, Some scale) \<Rightarrow>
       if rq_length rq < 0 \<or> rq_length rq > 65536 \<or> points < 1 \<or> points > 256 \<or> rq_weight rq < 100 \<or> rq_weight rq > 1000 \<or>
          te_span e (rq_length rq) points > of_int (INT_MAX - 1048576) \<or>
          scale < 1 / 2 \<or> scale > 8 \<or> rq_width rq < 1 \<or> te_columns e (rq_width rq) scale > 4096
       then None else Some (points, scale)
   | _ \<Rightarrow> None)"

text \<open>The conversion of a floating point number to an int.\<close>

definition truncate :: "rat \<Rightarrow> int" where
  "truncate x = (if x < 0 then \<lceil>x\<rceil> else \<lfloor>x\<rfloor>)"

text \<open>\<open>alloc\<close>: the outcomes of the three allocations: the text, the cache, the lines.\<close>

definition zc_text_new_weighted ::
  "text_engine \<Rightarrow> bool \<times> bool \<times> bool \<Rightarrow> text_request \<Rightarrow> text_setup option \<Rightarrow> laid_out option \<times> text_setup option" where
  "zc_text_new_weighted e alloc rq cache = (case text_request_ok e rq of
     None \<Rightarrow> (None, cache)
   | Some (points, scale) \<Rightarrow>
       (case (if rq_length rq = 0 then Some (Some []) else rq_text rq) of
          Some (Some cs) \<Rightarrow>
            (case text_scan (te_mark e) (te_space e) cs of
               None \<Rightarrow> (None, cache)
             | Some char_wrap \<Rightarrow>
                 if \<not> fst alloc then (None, cache)
                 else case text_layout (te_fonts e) (fst (snd alloc)) (te_made e) scale (rq_subpixel rq) cache of
                   (None, cache) \<Rightarrow> (None, cache)
                 | (Some ctx, cache) \<Rightarrow>
                     (case text_measure_lines (te_metrics e ctx rq) (snd (snd alloc)) (3 * 1024) (te_lines e ctx rq char_wrap cs) of
                        None \<Rightarrow> (None, cache)
                      | Some (lines, logical_height) \<Rightarrow>
                          let width = truncate (te_pixel_width e (min (te_right e ctx rq char_wrap cs) (rq_width rq)) scale);
                              height = te_pixel_height e logical_height scale
                          in if logical_height = 0 \<or> height < 1 \<or> height > of_int INT_MAX \<or> width < 1 then (None, cache)
                             else (Some \<lparr>lo_width = width, lo_height = truncate height, lo_subpixel = rq_subpixel rq,
                                 lo_lines = lines\<rparr>, cache)))
        | _ \<Rightarrow> (None, cache)))"

text \<open>A cache is in order if every context was made for the slot's antialiasing and scale.\<close>

definition setup_ok :: "text_setup \<Rightarrow> bool" where
  "setup_ok c \<longleftrightarrow> (\<forall>subpixel s. setup_get subpixel c = Some s \<longrightarrow>
     pc_subpixel (su_context s) = subpixel \<and> pc_scale (su_context s) = su_scale s)"

lemma setup_get_put: "setup_get a (setup_put b s c) = (if a = b then Some s else setup_get a c)"
  by (simp add: setup_get_def setup_put_def)

lemma setup_ok_put:
  "setup_ok c \<Longrightarrow> pc_subpixel (su_context s) = b \<Longrightarrow> pc_scale (su_context s) = su_scale s \<Longrightarrow> setup_ok (setup_put b s c)"
  unfolding setup_ok_def by (simp add: setup_get_put)

text \<open>Whatever was cached, a layout gets a context for its own scale, antialiasing and current fonts.\<close>

lemma text_layout_fresh:
  assumes "text_layout fonts alloc made scale subpixel cache = (Some ctx, cache')" and "\<forall>c. cache = Some c \<longrightarrow> setup_ok c"
  shows "pc_scale ctx = scale \<and> pc_subpixel ctx = subpixel \<and> pc_map ctx = fst fonts \<and> (\<exists>c. cache' = Some c \<and> setup_ok c)"
proof -
  define c where "c = (case cache of None \<Rightarrow> (None, None) | Some c \<Rightarrow> c)"
  have "setup_ok (None, None)" by (simp add: setup_ok_def setup_get_def)
  then have c: "setup_ok c" using assms(2) by (cases cache) (simp_all add: c_def)
  have run: "text_layout fonts alloc made scale subpixel cache = (let stale = (case setup_get subpixel c of None \<Rightarrow> True
                 | Some s \<Rightarrow> su_scale s \<noteq> scale \<or> su_serial s \<noteq> snd fonts \<or> pc_map (su_context s) \<noteq> fst fonts)
           in if stale \<and> \<not> made then (None, Some c)
              else let c = (if stale
                     then setup_put subpixel \<lparr>su_context = \<lparr>pc_map = fst fonts, pc_scale = scale, pc_subpixel = subpixel\<rparr>,
                            su_scale = scale, su_serial = snd fonts\<rparr> c
                     else c)
                   in (map_option su_context (setup_get subpixel c), Some c))"
    using assms(1) unfolding text_layout_def c_def Let_def by (auto split: if_splits)
  show ?thesis
  proof (cases "\<exists>s. setup_get subpixel c = Some s \<and> su_scale s = scale \<and> su_serial s = snd fonts \<and> pc_map (su_context s) = fst fonts")
    case True
    then obtain s where s: "setup_get subpixel c = Some s" "su_scale s = scale" "su_serial s = snd fonts"
      "pc_map (su_context s) = fst fonts"
      by blast
    then have "ctx = su_context s" "cache' = Some c" using assms(1) run by simp_all
    then show ?thesis using s c unfolding setup_ok_def by blast
  next
    case False
    then have "(case setup_get subpixel c of None \<Rightarrow> True
                 | Some s \<Rightarrow> su_scale s \<noteq> scale \<or> su_serial s \<noteq> snd fonts \<or> pc_map (su_context s) \<noteq> fst fonts)"
      by (auto split: option.splits)
    then have "ctx = \<lparr>pc_map = fst fonts, pc_scale = scale, pc_subpixel = subpixel\<rparr>"
      "cache' = Some (setup_put subpixel \<lparr>su_context = ctx, su_scale = scale, su_serial = snd fonts\<rparr> c)"
      using assms(1) run by (auto simp: Let_def setup_get_put split: if_splits)
    then show ?thesis by (auto intro!: setup_ok_put [OF c])
  qed
qed

text \<open>A text that was made has stacked lines, a size in range, and was asked for within the limits.\<close>

lemma zc_text_new_weighted_shape:
  assumes "zc_text_new_weighted e alloc rq cache = (Some t, cache')"
  shows "1 \<le> lo_width t \<and> 1 \<le> lo_height t \<and> lo_height t \<le> INT_MAX \<and> text_request_ok e rq \<noteq> None \<and>
    (\<exists>metrics lines bottom. text_measure_lines metrics (snd (snd alloc)) (3 * 1024) lines = Some (lo_lines t, bottom) \<and> bottom \<noteq> 0)"
proof -
  have trunc: "1 \<le> truncate x \<and> truncate x \<le> INT_MAX" if "1 \<le> x" "x \<le> of_int INT_MAX" for x :: rat
    using that by (auto simp: truncate_def le_floor_iff floor_le_iff)
  obtain points scale where ok: "text_request_ok e rq = Some (points, scale)"
    using assms by (cases "text_request_ok e rq") (auto simp: zc_text_new_weighted_def)
  obtain cs char_wrap ctx c where run: "text_scan (te_mark e) (te_space e) cs = Some char_wrap"
    "text_layout (te_fonts e) (fst (snd alloc)) (te_made e) scale (rq_subpixel rq) cache = (Some ctx, c)"
    and made: "(case text_measure_lines (te_metrics e ctx rq) (snd (snd alloc)) (3 * 1024) (te_lines e ctx rq char_wrap cs) of
       None \<Rightarrow> (None, c)
     | Some (lines, logical_height) \<Rightarrow>
         let width = truncate (te_pixel_width e (min (te_right e ctx rq char_wrap cs) (rq_width rq)) scale);
             height = te_pixel_height e logical_height scale
         in if logical_height = 0 \<or> height < 1 \<or> height > of_int INT_MAX \<or> width < 1 then (None, c)
            else (Some \<lparr>lo_width = width, lo_height = truncate height, lo_subpixel = rq_subpixel rq,
                lo_lines = lines\<rparr>, c)) = (Some t, cache')"
    using assms ok unfolding zc_text_new_weighted_def by (simp split: option.splits prod.splits if_splits)
  obtain lines bottom where m: "text_measure_lines (te_metrics e ctx rq) (snd (snd alloc)) (3 * 1024)
      (te_lines e ctx rq char_wrap cs) = Some (lines, bottom)"
    using made by (cases "text_measure_lines (te_metrics e ctx rq) (snd (snd alloc)) (3 * 1024) (te_lines e ctx rq char_wrap cs)") auto
  have t: "lo_lines t = lines" "bottom \<noteq> 0" "1 \<le> lo_width t" "lo_height t = truncate (te_pixel_height e bottom scale)"
    "1 \<le> te_pixel_height e bottom scale" "te_pixel_height e bottom scale \<le> of_int INT_MAX"
    using made m by (auto simp: Let_def split: if_splits)
  show ?thesis using t(1-4) trunc [OF t(5,6)] m ok by auto
qed

text \<open>The other constructors of a text; the size and width of the request are those given.\<close>

definition zc_text_new_with_options ::
  "text_engine \<Rightarrow> bool \<times> bool \<times> bool \<Rightarrow> text_request \<Rightarrow> text_setup option \<Rightarrow> laid_out option \<times> text_setup option" where
  "zc_text_new_with_options e alloc rq cache = zc_text_new_weighted e alloc (rq\<lparr>rq_weight := 400\<rparr>) cache"

definition zc_text_new ::
  "text_engine \<Rightarrow> bool \<times> bool \<times> bool \<Rightarrow> text_request \<Rightarrow> text_setup option \<Rightarrow> laid_out option \<times> text_setup option" where
  "zc_text_new e alloc rq cache =
     zc_text_new_with_options e alloc (rq\<lparr>rq_single_line := False, rq_subpixel := False\<rparr>) cache"

text \<open>\<open>zc_text_caret\<close>: \<open>cursor\<close> is Pango's horizontal position of an index, \<open>line_of\<close> its line.\<close>

definition zc_text_caret ::
  "(nat \<Rightarrow> int) \<Rightarrow> (nat \<Rightarrow> nat) \<Rightarrow> text_line list \<Rightarrow> nat list \<Rightarrow> int \<Rightarrow> int \<times> int \<times> int" where
  "zc_text_caret cursor line_of lines bytes index =
     (let i = caret_index bytes index; logical = tl_logical (lines ! line_of i)
      in (cursor i sdiv 1024, r_y logical sdiv 1024, r_h logical sdiv 1024))"

end
