(* ===== verification/Spec2Isabelle.thy ===== *)
theory Spec2Isabelle
  imports Prelude Drop Posix PosixFacts Owned Uploads Outgoing RelayMedia Cache Notifications Tls Net NetSetup Platform Wayland Desktop Text
begin

text \<open>
  A verification library for the C part of zimbr, a relay that serves the messages of a macOS
  computer and a Linux desktop client for it.

  The program. The relay and the client are written in Zig; everything that touches files with
  secrets, foreign processes, TLS, the transport, the desktop and the layout of text is C under
  \<open>src/\<close>, called through small headers. On the relay, \<open>relay/tls.c\<close> holds credentials, replaces
  configuration files and accepts connections, \<open>relay/uploads.c\<close> keeps incoming attachments,
  \<open>relay/media.c\<close> reads originals below a trusted root, runs the image helper and keeps its
  results, \<open>platform.c\<close> draws random bytes, runs the script that sends messages and watches the
  database. On the client, \<open>client/bridge.c\<close> is the transport over libcurl and the text layout over
  Pango, \<open>client/media.c\<close> the image cache, \<open>client/outgoing.c\<close> the attachments that wait to be sent,
  \<open>client/notifications.c\<close> the desktop notifications, \<open>client/desktop.c\<close> the window and the wake-up of
  the user interface, \<open>client/desktop/wayland.c\<close> drag and drop, which hands what was dropped to
  \<open>client/drop.c\<close>. The two sides meet in HTTP over mutual TLS: the certificate that
  \<open>zc_net_new\<close> accepts on the client is the one \<open>zr_tls_accept\<close> looks up by digest on the relay.
\<close>

text \<open>
  The theories, with the code they translate. A definition has the name of the C function, or of the
  loop or condition inside it that its text names; an out parameter is a further component of the
  result, a negative result code stays an integer.

  \<^item> \<open>Prelude\<close>: bytes and C strings, hexadecimal, lists, splitting; the rule collections
    \<open>posix_simps\<close>, \<open>inv_intros\<close> and \<open>name_rules\<close>.
  \<^item> \<open>Posix\<close> and \<open>PosixFacts\<close>: the system calls the sources make, over a record \<open>world\<close> of inodes,
    descriptors and a script of failures, short transfers and signals; what each call reads and
    changes. No code of the repository is in them.
  \<^item> \<open>Owned\<close>: the contracts that components share, as locales: \<open>name_guard\<close> (a test of names that lets
    only plain directory entries through), its extension \<open>owned_open\<close> (opening an existing file after
    checking its inode) and \<open>full_writer\<close> (a loop that writes a whole buffer). Their interpretations
    are in the theories that provide the operations.
  \<^item> \<open>Uploads\<close>: \<open>relay/uploads.c\<close>. Installing an upload never replaces a file; a written upload is read
    back byte for byte.
  \<^item> \<open>Outgoing\<close>: \<open>client/outgoing.c\<close>. What was written under an identifier is what is opened.
  \<^item> \<open>RelayMedia\<close>: \<open>relay/media.c\<close>. A source is a regular file reached from the root without following
    a link; the helper is killed at its deadline, reaped once, and its result checked.
  \<^item> \<open>Cache\<close>: \<open>client/media.c\<close>. Pruning keeps what the caller lists and evicts the least recently used
    entries until the budgets hold; the locale \<open>sorter\<close> states what \<open>qsort\<close> promises and is
    interpreted on the model's sort. Reading an image yields pixels of exactly the announced size.
  \<^item> \<open>Notifications\<close>: \<open>client/notifications.c\<close> as a state machine of entry points and callbacks; the
    calls in flight are part of the state and complete in any order. \<open>history\<close> runs it with the ids of
    notifications that are open, each of which is the id of a current notice.
  \<^item> \<open>TlsFiles\<close> and \<open>Tls\<close>: \<open>relay/tls.c\<close>, the files and the connections, with the cipher policy of
    \<open>tls_policy.h\<close>. Replacing a configuration refines an atomic compare and swap.
  \<^item> \<open>Calendar\<close> and \<open>Platform\<close>: \<open>gmtime_r\<close> and \<open>timegm\<close> of the C library as far as they are used, and
    \<open>platform.c\<close> as compiled on Linux.
  \<^item> \<open>NetSetup\<close> and \<open>Net\<close>: the transport of \<open>client/bridge.c\<close> up to line 499: origins, links, private
    files, credentials, \<open>zc_net_new\<close>; then the five request slots with the callbacks that libcurl runs.
  \<^item> \<open>Drop\<close>: \<open>client/drop.c\<close>, the parser of URI lists and the pending batch.
  \<^item> \<open>Wayland\<close>: \<open>client/desktop/wayland.c\<close>, over \<open>Drop\<close>. Requests to the compositor and descriptors
    opened and closed are recorded in order.
  \<^item> \<open>Desktop\<close>: \<open>client/desktop.c\<close>, over \<open>Wayland\<close>. The wake-up protocol is split at its atomic operations.
    The time limit of a sleep is fixed when it starts; a drop that arrives during it does not shorten it.
  \<^item> \<open>Text\<close>: the text layout of \<open>client/bridge.c\<close> from line 501: admission, stacking of lines, tiles,
    hits, caret stops, word selection.
\<close>

text \<open>
  What the lemmas show, by kind.

  \<^item> Invariants of every reachable state: \<open>Net.net_slots_bounded\<close>, \<open>Wayland.wayland_reachable_safe\<close>,
    \<open>Drop.drop_pending_always_valid\<close>, \<open>Notifications.zc_notifications_lifetime\<close>. Each operation has one
    preservation lemma; the reachability predicates are inductive and the proofs are by rule induction.
  \<^item> Agreement with a reference definition: the URI list parser, the binary search for a line, the
    loop over a host name.
  \<^item> Safety on the file system: what is opened, written or removed lies in a private directory,
    is owned by the caller, and nothing else changes. These hold for all worlds, hence for every
    pattern of failed, partial and interrupted calls.
  \<^item> Round trips: dropped URI lists, also in pieces over a pipe, uploads, attachments, timestamps,
    secrets and configurations.
  \<^item> Liveness and termination: no wake-up is lost between threads, waits and polls end at their
    deadlines, the script runner ends.
  \<^item> Behaviour on every branch: downloads, uploads, evictions, caret moves, word selection, the
    classification of errors of a request.

  Bounds. Loops over system calls end because the script of outcomes is finite, and the lists of
  answers of clocks, \<open>poll\<close>, \<open>waitpid\<close>, pipes and TLS calls are finite: a signal interrupts a call
  only finitely often, and what a list that has run out answers is said in each theory. A path walk
  follows at most 40 links (the bound of Linux) and names have less than 4096 bytes. All other loops
  are structural or have a measure. Numbers the code bounds are written as in the code: 16 paths of
  4095 bytes and 256 KiB for a drop, 32 data offers, two seconds for a transfer, 64 notifications,
  8 MiB for an image, 2048 rows for a tile. Integers whose wrap-around matters wrap explicitly
  (\<open>Net.size_minus\<close>), the permission bits of a mode are machine words.
\<close>

text \<open>
  Not modelled, and why.

  \<^item> The Zig code, which is not of the language of this development, and the Objective-C files.
  \<^item> Libraries that are not in the repository: libcurl, OpenSSL, SDL, libwayland, GLib, Pango, cairo,
    libpng and libjpeg. What the code asks of them is an argument or a recorded request; a hypothesis
    about one of them stands in the theorem that needs it.
  \<^item> Failing allocations in most file components; where the code cleans up after one (\<open>wayland.c\<close>,
    \<open>tls.c\<close>, \<open>text_measure_lines\<close>) it is an argument. Permission checks of the kernel are script
    failures, and there is one device, so that \<open>st_dev\<close> is left out of fingerprints.
  \<^item> Floating point: the products in the layout of text, such as the conversion of layout units to
    device pixels, are arbitrary functions with rational results in \<open>Text\<close>.
  \<^item> Code that only passes values on: \<open>zc_desktop_configure\<close>, \<open>zc_net_wait\<close>, \<open>zr_thread_qos\<close>, accessors,
    empty listeners, the LCD filter of the font map, freeing, \<open>zc_local_time\<close>.
  \<^item> The branches of \<open>platform.c\<close> for Apple systems. \<open>relay/media.c\<close> is modelled with its Apple
    branch, which watches the memory of the helper, since the relay runs there.
  \<^item> The stand-in for the image converter used by tests, the build configuration of SDL, tests and tools.
\<close>

end
